(* ===== verification/Card_Prelude.thy ===== *)
theory Card_Prelude
  imports Main "HOL-Library.Word"
begin

text \<open>
  The prelude of the development: the byte-level types every component shares, the faults
  a C function can end in, the collections of rewrite rules the component theories fill,
  and the generic facts on lists, options and words they use.
\<close>

unbundle bit_operations_syntax

section \<open>Types\<close>

text \<open>\<open>unsigned char\<close>, arrays of it, and the 16-bit status word of ISO 7816
  (\<open>vcard_7816_status_t\<close> is an \<open>unsigned short\<close>).\<close>

type_synonym byte = "8 word"
type_synonym bytes = "8 word list"
type_synonym sw16 = "16 word"

text \<open>
  What a call can end in instead of returning: a failed \<open>g_assert\<close> or \<open>assert\<close>, a
  dereference of a null pointer, an access outside an array, a read of a union member other than
  the one that was set. A function of the model that
  can reach one of them returns \<open>Inl\<close> of the fault.
\<close>

datatype fault = Assertion_Failure | Null_Dereference | Out_Of_Bounds | Union_Misread

section \<open>Collections of rules\<close>

named_theorems wf_intros "introduction rules for the well-formedness predicates"
named_theorems resp_simps "what the response constructors return"
named_theorems frame_simps "fields an operation leaves unchanged"

section \<open>Lists, options and words\<close>

lemma update_append_at [simp]:
  "n = length xs \<Longrightarrow> (xs @ [a, b])[n := c] = xs @ [c, b]"
  "n = length xs \<Longrightarrow> (xs @ [a, b])[Suc n := c] = xs @ [a, c]"
  by (simp_all add: list_update_append)

lemma nth_update_any: "xs[i := x] ! j = (if i = j \<and> j < length xs then x else xs ! j)"
  by (metis list_update_beyond not_le nth_list_update)

lemma unat_byte_lt [simp]: "unat (b :: byte) < 256"
  using unsigned_less [of b] by simp

lemma unat_byte_le [simp]: "unat (b :: byte) \<le> 255"
  using unat_byte_lt [of b] by linarith

lemma of_nat_byte_inverse: "n < 256 \<Longrightarrow> unat (of_nat n :: byte) = n"
  by (simp add: unsigned_of_nat take_bit_eq_mod)

lemma of_nat_byte_eq_iff:
  "m < 256 \<Longrightarrow> n < 256 \<Longrightarrow> ((of_nat m :: byte) = of_nat n) = (m = n)"
  by (metis of_nat_byte_inverse)

lemma bit_255_int: "bit (255 :: int) n \<longleftrightarrow> n < 8"
proof -
  have "bit (255 :: int) n = bit (mask 8 :: int) n"
    by (simp add: mask_eq_exp_minus_1)
  then show ?thesis by (simp only: bit_mask_iff possible_bit_int simp_thms)
qed

lemma bit_255: "bit (255 :: 'a::len word) n \<longleftrightarrow> n < 8 \<and> n < LENGTH('a)"
proof -
  have "bit (255 :: 'a word) n = bit (mask 8 :: 'a word) n"
    by (simp add: mask_eq_exp_minus_1)
  then show ?thesis by (auto simp only: bit_mask_iff possible_bit_word)
qed

lemma byte_bit_beyond [simp]: "\<not> bit (b :: byte) (8 + n)"
  by (auto dest: bit_imp_le_length)

lemmas bit_255_simps = bit_255 bit_255_int

end
