(* ===== verification/Common_Bytes.thy ===== *)
theory Common_Bytes
  imports Card_Prelude
begin

text \<open>
  The byte helpers of \<open>src/common.c\<close>: a 16-bit value as two little-endian bytes, and the
  debug printer \<open>hex_dump\<close>.
\<close>

section \<open>Little-endian 16-bit values\<close>

text \<open>
  \<open>ushort2lebytes\<close> writes into a caller's buffer; the model returns the two bytes it
  writes. The C parameter is an \<open>unsigned short\<close>, so a longer length is truncated by
  the conversion at the call, which \<open>of_nat\<close> into a 16-bit word does.
\<close>

definition ushort2lebytes :: "16 word \<Rightarrow> bytes" where
  "ushort2lebytes x = [ucast (x AND 0xff), ucast (drop_bit 8 x AND 0xff)]"

definition lebytes2ushort :: "byte \<Rightarrow> byte \<Rightarrow> 16 word" where
  "lebytes2ushort b0 b1 = push_bit 8 (ucast b1) OR ucast b0"

lemma length_ushort2lebytes [simp]: "length (ushort2lebytes x) = 2"
  by (simp add: ushort2lebytes_def)

lemma lebytes_roundtrip: "lebytes2ushort (ushort2lebytes x ! 0) (ushort2lebytes x ! 1) = x"
proof (rule bit_word_eqI)
  fix n :: nat
  assume "n < LENGTH(16)"
  then show "bit (lebytes2ushort (ushort2lebytes x ! 0) (ushort2lebytes x ! 1)) n = bit x n"
    by (cases "n < 8") (auto simp: lebytes2ushort_def ushort2lebytes_def bit_simps bit_255_simps)
qed

lemma ushort2lebytes_inverse: "ushort2lebytes (lebytes2ushort b0 b1) = [b0, b1]"
  unfolding lebytes2ushort_def ushort2lebytes_def
  by (auto intro!: bit_word_eqI simp: bit_simps bit_255_simps dest: bit_imp_le_length)

lemma lebytes2ushort_plus: "lebytes2ushort b0 b1 = push_bit 8 (ucast b1) + ucast b0"
proof -
  have "push_bit 8 (ucast b1 :: 16 word) AND ucast b0 = 0"
    by (rule bit_word_eqI) (auto simp: bit_simps dest: bit_imp_le_length)
  then show ?thesis
    by (simp add: lebytes2ushort_def disjunctive_add_eq_or)
qed

lemma unat_lebytes2ushort: "unat (lebytes2ushort b0 b1) = unat b1 * 256 + unat b0"
proof -
  have "unat b1 * 256 + unat b0 < 65536"
    using unat_byte_le [of b0] unat_byte_le [of b1] by linarith
  then show ?thesis
    by (simp add: lebytes2ushort_plus push_bit_eq_mult unat_word_ariths unsigned_ucast_eq
        take_bit_eq_mod mult.commute)
qed

section \<open>The hexadecimal dump\<close>

text \<open>
  \<open>hex_dump\<close> prints at most \<open>MAX_STATIC_BYTES\<close> bytes as \<open>0xHH\<close> followed by a space into a
  static buffer of \<open>5 * MAX_STATIC_BYTES + 1\<close> characters and drops the last space. The model
  returns the C string (without its terminator), \<open>None\<close> for the null pointer.
\<close>

definition MAX_STATIC_BYTES :: nat where
  "MAX_STATIC_BYTES = 1024"

definition hex_digit :: "nat \<Rightarrow> char" where
  "hex_digit d = ''0123456789ABCDEF'' ! d"

definition hex_byte :: "byte \<Rightarrow> string" where
  "hex_byte b = ''0x'' @ [hex_digit (unat b div 16), hex_digit (unat b mod 16), CHR '' '']"

definition hex_dump :: "bytes \<Rightarrow> string option" where
  "hex_dump buf =
     (if length buf = 0 then None
      else Some (butlast (concat (map hex_byte (take (min (length buf) MAX_STATIC_BYTES) buf)))))"

lemma length_concat_hex [simp]: "length (concat (map hex_byte bs)) = 5 * length bs"
  by (induction bs) (simp_all add: hex_byte_def)

lemma length_hex_dump:
  "hex_dump buf = Some s \<Longrightarrow> length s + 1 = 5 * min (length buf) MAX_STATIC_BYTES"
  by (auto simp: hex_dump_def MAX_STATIC_BYTES_def split: if_splits)

end
