(* ===== verification/Simple_TLV.thy ===== *)
theory Simple_TLV
  imports Common_Bytes
begin

text \<open>
  \<open>src/simpletlv.c\<close>: the SimpleTLV encoder and decoder the applets build their buffers with.
  A member of the C array is a tag, a length, a type and a union; a pointer with its length is
  one list here, so the \<open>length\<close> field is the length of the list (\<open>tlv_length\<close>). Every array
  of the code satisfies this: a compound's \<open>length\<close> counts its children, a leaf's the bytes
  read from its value. The specification the encoder is proved against is \<open>tlv_image\<close>.
\<close>

section \<open>Data\<close>

datatype simpletlv_buffer_type = SIMPLETLV_TL | SIMPLETLV_VALUE | SIMPLETLV_BOTH

text \<open>The tests \<open>buffer_type & SIMPLETLV_TL\<close> and \<open>buffer_type & SIMPLETLV_VALUE\<close>.\<close>

fun has_TL :: "simpletlv_buffer_type \<Rightarrow> bool" where
  "has_TL SIMPLETLV_VALUE = False"
| "has_TL _ = True"

fun has_VALUE :: "simpletlv_buffer_type \<Rightarrow> bool" where
  "has_VALUE SIMPLETLV_TL = False"
| "has_VALUE _ = True"

datatype simpletlv_member =
    TLV_NONE (tlv_tag: byte) (tlv_value: bytes)
  | TLV_LEAF (tlv_tag: byte) (tlv_value: bytes)
  | TLV_COMPOUND (tlv_tag: byte) (tlv_child: "simpletlv_member list")

fun tlv_length :: "simpletlv_member \<Rightarrow> nat" where
  "tlv_length (TLV_NONE _ v) = length v"
| "tlv_length (TLV_LEAF _ v) = length v"
| "tlv_length (TLV_COMPOUND _ cs) = length cs"

section \<open>Length of the encoding\<close>

text \<open>
  The loop of \<open>simpletlv_get_length\<close> with its accumulator \<open>len\<close>; \<open>-1\<close> is the early return for
  a compound whose tags and values cannot be split into two buffers.
\<close>

fun simpletlv_get_length_loop ::
  "simpletlv_member list \<Rightarrow> simpletlv_buffer_type \<Rightarrow> int \<Rightarrow> int" where
  "simpletlv_get_length_loop [] bt len = len"
| "simpletlv_get_length_loop (TLV_NONE t v # ms) bt len = simpletlv_get_length_loop ms bt len"
| "simpletlv_get_length_loop (TLV_LEAF t v # ms) bt len =
     (let child_length = int (length v);
          len = (if has_TL bt then len + 1 + (if child_length < 255 then 1 else 3) else len);
          len = (if has_VALUE bt then len + child_length else len)
      in simpletlv_get_length_loop ms bt len)"
| "simpletlv_get_length_loop (TLV_COMPOUND t cs # ms) bt len =
     (if bt \<noteq> SIMPLETLV_BOTH then -1
      else (let child_length = simpletlv_get_length_loop cs SIMPLETLV_BOTH 0;
                len = (if has_TL bt then len + 1 + (if child_length < 255 then 1 else 3) else len);
                len = (if has_VALUE bt then len + child_length else len)
            in simpletlv_get_length_loop ms bt len))"

definition simpletlv_get_length :: "simpletlv_member list \<Rightarrow> simpletlv_buffer_type \<Rightarrow> int" where
  "simpletlv_get_length tlv bt = simpletlv_get_length_loop tlv bt 0"

section \<open>Encoding\<close>

text \<open>
  \<open>simpletlv_put_tag\<close> writes the tag and the length at \<open>out\<close>; \<open>None\<close> is its \<open>-1\<close>, \<open>Some\<close> the
  bytes between \<open>out\<close> and the new \<open>*ptr\<close>.
\<close>

definition simpletlv_put_tag :: "byte \<Rightarrow> nat \<Rightarrow> nat \<Rightarrow> bytes option" where
  "simpletlv_put_tag tag datalen outlen =
     (if outlen < 2 \<or> (outlen < 4 \<and> datalen \<ge> 0xff) then None
      else if tag = 0x00 \<or> tag = 0xff then None
      else if datalen < 0xff then Some [tag, of_nat datalen]
      else if datalen < 0xffff then
        Some [tag, 0xff, of_nat datalen AND 0xff, of_nat (datalen div 256) AND 0xff]
      else None)"

text \<open>
  \<open>simpletlv_encode_internal\<close>: the result is \<open>None\<close> for the return value \<open>-1\<close> and the bytes
  written otherwise (their number is the return value). \<open>outlen = 0\<close> asks for a new buffer of
  the expected length; every caller passes a non-null \<open>out\<close>. In the loop \<open>tmp_len\<close> is the size of
  the buffer, \<open>p_len\<close> the room that was left when the current member was started and \<open>acc\<close> what
  has been written (\<open>p - tmp\<close> bytes); as in the C, \<open>p_len\<close> is refreshed only after a member
  that was not skipped.
\<close>

function (sequential) simpletlv_encode_internal ::
    "simpletlv_member list \<Rightarrow> nat \<Rightarrow> simpletlv_buffer_type \<Rightarrow> bytes option"
  and simpletlv_encode_loop ::
    "simpletlv_member list \<Rightarrow> simpletlv_buffer_type \<Rightarrow> nat \<Rightarrow> nat \<Rightarrow> bytes \<Rightarrow> bytes option" where
  "simpletlv_encode_internal tlv outlen bt =
     (let expect_len = simpletlv_get_length tlv bt in
      if expect_len < 0 then None
      else if expect_len = 0 then Some []
      else if outlen = 0 then
        simpletlv_encode_loop tlv bt (nat expect_len) (nat expect_len) []
      else if int outlen \<ge> expect_len then simpletlv_encode_loop tlv bt outlen outlen []
      else None)"
| "simpletlv_encode_loop [] bt tmp_len p_len acc = Some acc"
| "simpletlv_encode_loop (TLV_NONE t v # ms) bt tmp_len p_len acc =
     simpletlv_encode_loop ms bt tmp_len p_len acc"
| "simpletlv_encode_loop (TLV_LEAF t v # ms) bt tmp_len p_len acc =
     (case (if has_TL bt then simpletlv_put_tag t (length v) p_len else Some []) of
        None \<Rightarrow> None
      | Some hdr \<Rightarrow>
          (let acc = acc @ hdr;
               acc = (if has_VALUE bt then acc @ v else acc)
           in simpletlv_encode_loop ms bt tmp_len (tmp_len - length acc) acc))"
| "simpletlv_encode_loop (TLV_COMPOUND t cs # ms) bt tmp_len p_len acc =
     (case (if has_TL bt
            then simpletlv_put_tag t (nat (simpletlv_get_length cs SIMPLETLV_BOTH)) p_len
            else Some []) of
        None \<Rightarrow> None
      | Some hdr \<Rightarrow>
          (if has_VALUE bt then
             (case simpletlv_encode_internal cs p_len bt of
                None \<Rightarrow> None
              | Some child \<Rightarrow>
                  (let acc = acc @ hdr @ child
                   in simpletlv_encode_loop ms bt tmp_len (tmp_len - length acc) acc))
           else (let acc = acc @ hdr
                 in simpletlv_encode_loop ms bt tmp_len (tmp_len - length acc) acc)))"
  by pat_completeness auto
termination
  by (relation "measures
        [\<lambda>x. case x of Inl (ms, _) \<Rightarrow> size_list size ms | Inr (ms, _) \<Rightarrow> size_list size ms,
         \<lambda>x. case x of Inl _ \<Rightarrow> 1 | Inr _ \<Rightarrow> 0]") auto

declare simpletlv_encode_internal.simps [simp del]

definition simpletlv_encode :: "simpletlv_member list \<Rightarrow> nat \<Rightarrow> bytes option" where
  "simpletlv_encode tlv outlen = simpletlv_encode_internal tlv outlen SIMPLETLV_BOTH"

definition simpletlv_encode_tl :: "simpletlv_member list \<Rightarrow> nat \<Rightarrow> bytes option" where
  "simpletlv_encode_tl tlv outlen = simpletlv_encode_internal tlv outlen SIMPLETLV_TL"

definition simpletlv_encode_val :: "simpletlv_member list \<Rightarrow> nat \<Rightarrow> bytes option" where
  "simpletlv_encode_val tlv outlen = simpletlv_encode_internal tlv outlen SIMPLETLV_VALUE"

section \<open>Decoding, merging, copying\<close>

text \<open>
  \<open>simpletlv_read_tag\<close>: \<open>None\<close> for the return value \<open>-1\<close>, otherwise the tag, the length and
  what follows the advanced \<open>*buf\<close>. The buffer with its length is the list.
\<close>

definition simpletlv_read_tag :: "bytes \<Rightarrow> (byte \<times> nat \<times> bytes) option" where
  "simpletlv_read_tag buf =
     (if length buf < 2 then None
      else (let tag_out = buf ! 0; len = unat (buf ! 1) in
            if len = 0xff then
              (if length buf < 4 then None
               else Some (tag_out, unat (lebytes2ushort (buf ! 2) (buf ! 3)), drop 4 buf))
            else Some (tag_out, len, drop 2 buf)))"

lemma simpletlv_read_tag_shorter:
  "simpletlv_read_tag buf = Some (t, l, rest) \<Longrightarrow> length rest + 2 \<le> length buf"
  by (auto simp: simpletlv_read_tag_def Let_def split: if_splits)

text \<open>
  \<open>simpletlv_parse\<close> stops at the first header it cannot read and at the first value that is
  longer than what is left, and returns the members read so far, all of them leaves.
\<close>

function simpletlv_parse :: "bytes \<Rightarrow> simpletlv_member list" where
  "simpletlv_parse data =
     (if data = [] then []
      else (case simpletlv_read_tag data of
              None \<Rightarrow> []
            | Some (tag, vlen, p) \<Rightarrow>
                (if vlen > length p then []
                 else TLV_LEAF tag (take vlen p) # simpletlv_parse (drop vlen p))))"
  by pat_completeness auto
termination
  by (relation "measure length") (auto dest: simpletlv_read_tag_shorter)

declare simpletlv_parse.simps [simp del]

definition simpletlv_merge ::
  "simpletlv_member list \<Rightarrow> simpletlv_member list \<Rightarrow> simpletlv_member list" where
  "simpletlv_merge a b = a @ b"

text \<open>
  \<open>simpletlv_clone\<close>: \<open>g_new\<close> of no elements is the null pointer, so the copy of an empty array
  is \<open>None\<close>, and a compound without children makes the whole copy fail. The other branch
  copies the value bytes.
\<close>

function (sequential) simpletlv_clone ::
    "simpletlv_member list \<Rightarrow> simpletlv_member list option"
  and simpletlv_clone_loop ::
    "simpletlv_member list \<Rightarrow> simpletlv_member list \<Rightarrow> simpletlv_member list option" where
  "simpletlv_clone tlv = (if tlv = [] then None else simpletlv_clone_loop tlv [])"
| "simpletlv_clone_loop [] new = Some new"
| "simpletlv_clone_loop (TLV_COMPOUND t cs # ms) new =
     (case simpletlv_clone cs of
        None \<Rightarrow> None
      | Some child \<Rightarrow> simpletlv_clone_loop ms (new @ [TLV_COMPOUND t child]))"
| "simpletlv_clone_loop (m # ms) new = simpletlv_clone_loop ms (new @ [m])"
  by pat_completeness auto
termination
  by (relation "measures
        [\<lambda>x. case x of Inl ms \<Rightarrow> size_list size ms | Inr (ms, _) \<Rightarrow> size_list size ms,
         \<lambda>x. case x of Inl _ \<Rightarrow> 1 | Inr _ \<Rightarrow> 0]") auto

section \<open>The specification of the encoding\<close>

text \<open>
  \<open>tlv_header t n\<close> is the tag and the length of a value of \<open>n\<close> bytes, \<open>tlv_image\<close> the whole
  encoding, with no buffer, no bookkeeping and no failure in sight. \<open>tlv_encodable\<close> is the
  domain on which the code promises it: tags from \<open>0x01\<close> to \<open>0xfe\<close>, lengths below \<open>0xffff\<close>.
\<close>

definition tlv_header :: "byte \<Rightarrow> nat \<Rightarrow> bytes" where
  "tlv_header t n = (if n < 255 then [t, of_nat n] else [t, 255, of_nat n, of_nat (n div 256)])"

fun tlv_image :: "simpletlv_member list \<Rightarrow> bytes" where
  "tlv_image [] = []"
| "tlv_image (TLV_NONE t v # ms) = tlv_image ms"
| "tlv_image (TLV_LEAF t v # ms) = tlv_header t (length v) @ v @ tlv_image ms"
| "tlv_image (TLV_COMPOUND t cs # ms) =
     tlv_header t (length (tlv_image cs)) @ tlv_image cs @ tlv_image ms"

definition tag_ok :: "byte \<Rightarrow> bool" where
  "tag_ok t \<longleftrightarrow> t \<noteq> 0x00 \<and> t \<noteq> 0xff"

fun tlv_encodable :: "simpletlv_member list \<Rightarrow> bool" where
  "tlv_encodable [] = True"
| "tlv_encodable (TLV_NONE t v # ms) = tlv_encodable ms"
| "tlv_encodable (TLV_LEAF t v # ms) = (tag_ok t \<and> length v < 0xffff \<and> tlv_encodable ms)"
| "tlv_encodable (TLV_COMPOUND t cs # ms) =
     (tag_ok t \<and> length (tlv_image cs) < 0xffff \<and> tlv_encodable cs \<and> tlv_encodable ms)"

text \<open>What the split files hold: the headers alone, and the values alone.\<close>

fun tlv_tl_image :: "simpletlv_member list \<Rightarrow> bytes" where
  "tlv_tl_image [] = []"
| "tlv_tl_image (TLV_LEAF t v # ms) = tlv_header t (length v) @ tlv_tl_image ms"
| "tlv_tl_image (_ # ms) = tlv_tl_image ms"

fun tlv_val_image :: "simpletlv_member list \<Rightarrow> bytes" where
  "tlv_val_image [] = []"
| "tlv_val_image (TLV_LEAF t v # ms) = v @ tlv_val_image ms"
| "tlv_val_image (_ # ms) = tlv_val_image ms"

fun no_compound :: "simpletlv_member list \<Rightarrow> bool" where
  "no_compound [] = True"
| "no_compound (TLV_COMPOUND t cs # ms) = False"
| "no_compound (_ # ms) = no_compound ms"

section \<open>Length is the length of the image\<close>

lemma length_tlv_header: "length (tlv_header t n) = (if n < 255 then 2 else 4)"
  by (simp add: tlv_header_def)

lemma length_tlv_header_bounds [simp]:
  "2 \<le> length (tlv_header t n)" "tlv_header t n \<noteq> []"
  by (simp_all add: tlv_header_def)

lemma get_length_loop_both:
  "simpletlv_get_length_loop ms SIMPLETLV_BOTH len = len + int (length (tlv_image ms))"
  by (induction ms SIMPLETLV_BOTH len rule: simpletlv_get_length_loop.induct)
    (simp_all add: Let_def length_tlv_header)

lemma get_length_both: "simpletlv_get_length ms SIMPLETLV_BOTH = int (length (tlv_image ms))"
  by (simp add: simpletlv_get_length_def get_length_loop_both)

lemma get_length_loop_split:
  "bt \<noteq> SIMPLETLV_BOTH \<Longrightarrow>
   simpletlv_get_length_loop ms bt len =
     (if no_compound ms
      then len + int (length (if bt = SIMPLETLV_TL then tlv_tl_image ms else tlv_val_image ms))
      else -1)"
  by (induction ms bt len rule: simpletlv_get_length_loop.induct)
    (auto simp: Let_def length_tlv_header has_TL.simps split: simpletlv_buffer_type.splits
      elim!: has_TL.elims has_VALUE.elims)

lemma get_length_tl:
  "simpletlv_get_length ms SIMPLETLV_TL =
     (if no_compound ms then int (length (tlv_tl_image ms)) else -1)"
  by (simp add: simpletlv_get_length_def get_length_loop_split)

lemma get_length_val:
  "simpletlv_get_length ms SIMPLETLV_VALUE =
     (if no_compound ms then int (length (tlv_val_image ms)) else -1)"
  by (simp add: simpletlv_get_length_def get_length_loop_split)

lemmas get_length_simps = get_length_both get_length_tl get_length_val

section \<open>The encoder computes the image\<close>

lemma byte_and_255 [simp]: "(b :: byte) AND 255 = b"
  by (rule bit_word_eqI) (simp add: bit_simps bit_255_simps)

lemma put_tag_room:
  "length (tlv_header t n) \<le> outlen \<Longrightarrow>
   simpletlv_put_tag t n outlen =
     (if tag_ok t \<and> n < 0xffff then Some (tlv_header t n) else None)"
  by (auto simp: simpletlv_put_tag_def tag_ok_def tlv_header_def split: if_splits)

lemma encode_both_aux:
  "bt = SIMPLETLV_BOTH \<Longrightarrow>
   simpletlv_encode_internal ms outlen bt =
     (if outlen \<noteq> 0 \<and> outlen < length (tlv_image ms) then None
      else if tlv_encodable ms then Some (tlv_image ms) else None)"
  "bt = SIMPLETLV_BOTH \<Longrightarrow> p_len = tmp_len - length acc \<Longrightarrow>
   length acc + length (tlv_image ms) \<le> tmp_len \<Longrightarrow>
   simpletlv_encode_loop ms bt tmp_len p_len acc =
     (if tlv_encodable ms then Some (acc @ tlv_image ms) else None)"
proof (induction ms outlen bt and ms bt tmp_len p_len acc
    rule: simpletlv_encode_internal_simpletlv_encode_loop.induct)
  case (1 tlv outlen bt)
  have empty: "tlv_image tlv = [] \<Longrightarrow> tlv_encodable tlv"
    by (induction tlv rule: tlv_image.induct) auto
  show ?case
    using 1 empty by (auto simp: simpletlv_encode_internal.simps get_length_both Let_def)
next
  case (4 t v ms bt tmp_len p_len acc)
  have room: "length (tlv_header t (length v)) \<le> p_len"
    using 4 by simp
  show ?case
    using 4 room by (auto simp: put_tag_room Let_def add.assoc)
next
  case (5 t cs ms bt tmp_len p_len acc)
  have total: "length acc + length (tlv_header t (length (tlv_image cs))) +
      length (tlv_image cs) + length (tlv_image ms) \<le> tmp_len"
    using 5 by simp
  have p_len: "p_len = tmp_len - length acc"
    using 5 by blast
  have room: "length (tlv_header t (length (tlv_image cs))) \<le> p_len"
    "length (tlv_image cs) \<le> p_len" "p_len \<noteq> 0"
    using total p_len length_tlv_header_bounds(1) [of t "length (tlv_image cs)"] by linarith+
  show ?case
    using 5 room by (auto simp: put_tag_room Let_def get_length_both)
qed auto

lemma encode_both:
  "simpletlv_encode ms outlen =
     (if outlen \<noteq> 0 \<and> outlen < length (tlv_image ms) then None
      else if tlv_encodable ms then Some (tlv_image ms) else None)"
  by (simp add: simpletlv_encode_def encode_both_aux)

section \<open>The split files: headers alone and values alone\<close>

lemma encode_tl_loop:
  "bt = SIMPLETLV_TL \<Longrightarrow> no_compound ms \<Longrightarrow> p_len = tmp_len - length acc \<Longrightarrow>
   length acc + length (tlv_tl_image ms) \<le> tmp_len \<Longrightarrow>
   simpletlv_encode_loop ms bt tmp_len p_len acc =
     (if tlv_encodable ms then Some (acc @ tlv_tl_image ms) else None)"
proof (induction ms arbitrary: p_len acc)
  case (Cons m ms)
  show ?case
  proof (cases m)
    case (TLV_LEAF t v)
    have "length (tlv_header t (length v)) \<le> p_len"
      using Cons.prems TLV_LEAF by simp
    then show ?thesis
      using Cons.prems TLV_LEAF
        Cons.IH [of "tmp_len - length (acc @ tlv_header t (length v))"
          "acc @ tlv_header t (length v)"]
      by (auto simp: put_tag_room Let_def)
  qed (use Cons in auto)
qed simp

lemma encode_val_loop:
  "bt = SIMPLETLV_VALUE \<Longrightarrow> no_compound ms \<Longrightarrow>
   simpletlv_encode_loop ms bt tmp_len p_len acc = Some (acc @ tlv_val_image ms)"
  by (induction ms arbitrary: p_len acc rule: no_compound.induct) (simp_all add: Let_def)

lemma tl_image_empty: "tlv_tl_image ms = [] \<Longrightarrow> no_compound ms \<Longrightarrow> tlv_encodable ms"
  by (induction ms rule: no_compound.induct) simp_all

lemma encode_tl:
  "simpletlv_encode_tl ms outlen =
     (if \<not> no_compound ms \<or> outlen \<noteq> 0 \<and> outlen < length (tlv_tl_image ms) then None
      else if tlv_encodable ms then Some (tlv_tl_image ms) else None)"
  using tl_image_empty [of ms]
  by (auto simp: simpletlv_encode_tl_def simpletlv_encode_internal.simps get_length_tl
      encode_tl_loop Let_def)

lemma encode_val:
  "simpletlv_encode_val ms outlen =
     (if \<not> no_compound ms \<or> outlen \<noteq> 0 \<and> outlen < length (tlv_val_image ms) then None
      else Some (tlv_val_image ms))"
  by (auto simp: simpletlv_encode_val_def simpletlv_encode_internal.simps get_length_val
      encode_val_loop Let_def)

lemmas encode_simps = encode_both encode_tl encode_val

section \<open>Reading back what was written\<close>

text \<open>
  A codec whose decoder peels one item off the front of the input. From the law for one item
  the locale gives the law for a sequence, whatever follows it.
\<close>

locale prefix_codec =
  fixes enc :: "'a \<Rightarrow> 'b list"
    and dec :: "'b list \<Rightarrow> ('a \<times> 'b list) option"
    and okay :: "'a \<Rightarrow> bool"
  assumes dec_enc: "okay x \<Longrightarrow> dec (enc x @ rest) = Some (x, rest)"
    and enc_nonempty: "okay x \<Longrightarrow> enc x \<noteq> []"
    and dec_shorter: "dec bs = Some (x, rest) \<Longrightarrow> length rest < length bs"
begin

lemma enc_injective: "okay x \<Longrightarrow> okay y \<Longrightarrow> enc x @ r = enc y @ s \<Longrightarrow> x = y \<and> r = s"
  by (metis dec_enc option.inject prod.inject)

lemma concat_injective:
  "list_all okay xs \<Longrightarrow> list_all okay ys \<Longrightarrow>
   concat (map enc xs) = concat (map enc ys) \<Longrightarrow> xs = ys"
proof (induction xs arbitrary: ys)
  case Nil
  then show ?case
    using enc_nonempty by (cases ys) auto
next
  case (Cons x xs)
  then obtain y ys' where "ys = y # ys'"
    using enc_nonempty by (cases ys) auto
  with Cons.prems enc_injective [of x y "concat (map enc xs)" "concat (map enc ys')"]
  have "x = y" "concat (map enc xs) = concat (map enc ys')" by simp_all
  with Cons.IH [of ys'] Cons.prems \<open>ys = y # ys'\<close> show ?case by simp
qed

end

text \<open>One leaf, as the loop body of \<open>simpletlv_parse\<close> reads it.\<close>

definition leaf_image :: "simpletlv_member \<Rightarrow> bytes" where
  "leaf_image m = tlv_header (tlv_tag m) (tlv_length m) @ tlv_value m"

definition parse_leaf :: "bytes \<Rightarrow> (simpletlv_member \<times> bytes) option" where
  "parse_leaf data =
     (case simpletlv_read_tag data of
        None \<Rightarrow> None
      | Some (tag, vlen, p) \<Rightarrow>
          (if vlen > length p then None else Some (TLV_LEAF tag (take vlen p), drop vlen p)))"

definition leaf_ok :: "simpletlv_member \<Rightarrow> bool" where
  "leaf_ok m \<longleftrightarrow> (\<exists>t v. m = TLV_LEAF t v) \<and> tlv_length m < 0x10000"

lemma lebytes_of_nat:
  "n < 0x10000 \<Longrightarrow> unat (lebytes2ushort (of_nat n) (of_nat (n div 256))) = n"
  by (simp add: unat_lebytes2ushort unsigned_of_nat take_bit_eq_mod)

lemma read_tag_header:
  assumes "n < 0x10000"
  shows "simpletlv_read_tag (tlv_header t n @ rest) = Some (t, n, rest)"
proof (cases "n < 255")
  case True
  then have "unat (of_nat n :: byte) = n" "unat (of_nat n :: byte) \<noteq> 255"
    by (simp_all add: of_nat_byte_inverse)
  with True show ?thesis
    by (simp add: simpletlv_read_tag_def tlv_header_def)
next
  case False
  with False assms show ?thesis
    using lebytes_of_nat [OF assms] by (simp add: simpletlv_read_tag_def tlv_header_def)
qed

lemma parse_unfold:
  "simpletlv_parse data =
     (case parse_leaf data of None \<Rightarrow> [] | Some (m, rest) \<Rightarrow> m # simpletlv_parse rest)"
proof (cases "data = []")
  case True
  then show ?thesis
    by (simp add: simpletlv_parse.simps [of "[]"] parse_leaf_def simpletlv_read_tag_def)
next
  case False
  then show ?thesis
    by (simp add: simpletlv_parse.simps [of data] parse_leaf_def split: option.split prod.split)
qed

interpretation leaf: prefix_codec leaf_image parse_leaf leaf_ok
proof
  show "leaf_ok x \<Longrightarrow> parse_leaf (leaf_image x @ rest) = Some (x, rest)" for x rest
    by (auto simp: leaf_ok_def leaf_image_def parse_leaf_def read_tag_header)
  show "leaf_ok x \<Longrightarrow> leaf_image x \<noteq> []" for x
    by (simp add: leaf_image_def)
  show "parse_leaf bs = Some (x, rest) \<Longrightarrow> length rest < length bs" for bs x rest
    by (auto simp: parse_leaf_def split: option.splits if_splits
        dest!: simpletlv_read_tag_shorter)
qed

lemma parse_leaves:
  "list_all leaf_ok ms \<Longrightarrow>
   simpletlv_parse (concat (map leaf_image ms) @ rest) = ms @ simpletlv_parse rest"
  by (induction ms) (simp_all add: parse_unfold [of "_ @ _"] leaf.dec_enc)

lemma image_of_leaves: "list_all leaf_ok ms \<Longrightarrow> tlv_image ms = concat (map leaf_image ms)"
  by (induction ms) (auto simp: leaf_ok_def leaf_image_def)

text \<open>
  The client of a VM card reads the headers and the values from two files and puts them back
  together; \<open>read_split\<close> is that client, reading one header at a time.
\<close>

function read_split :: "bytes \<Rightarrow> bytes \<Rightarrow> simpletlv_member list option" where
  "read_split tls vals =
     (if tls = [] then (if vals = [] then Some [] else None)
      else (case simpletlv_read_tag tls of
              None \<Rightarrow> None
            | Some (t, n, rest) \<Rightarrow>
                (if n > length vals then None
                 else map_option ((#) (TLV_LEAF t (take n vals)))
                        (read_split rest (drop n vals)))))"
  by pat_completeness auto
termination
  by (relation "measure (\<lambda>(tls, vals). length tls)") (auto dest: simpletlv_read_tag_shorter)

declare read_split.simps [simp del]

lemma read_split_leaves:
  "list_all leaf_ok ms \<Longrightarrow> read_split (tlv_tl_image ms) (tlv_val_image ms) = Some ms"
proof (induction ms)
  case Nil
  then show ?case by (simp add: read_split.simps)
next
  case (Cons m ms)
  then obtain t v where m: "m = TLV_LEAF t v" "length v < 0x10000"
    by (auto simp: leaf_ok_def)
  with Cons show ?case
    by (simp add: read_split.simps [of "tlv_header t (length v) @ tlv_tl_image ms"]
        read_tag_header)
qed

fun is_leaf :: "simpletlv_member \<Rightarrow> bool" where
  "is_leaf (TLV_LEAF t v) = True"
| "is_leaf _ = False"

lemma encodable_leaf_ok: "list_all is_leaf ms \<Longrightarrow> tlv_encodable ms \<Longrightarrow> list_all leaf_ok ms"
  by (induction ms rule: tlv_encodable.induct) (auto simp: leaf_ok_def)

lemma leaves_no_compound: "list_all is_leaf ms \<Longrightarrow> no_compound ms"
  by (induction ms rule: no_compound.induct) simp_all

text \<open>How much of the input the parsed members account for.\<close>

lemma parse_bound:
  "sum_list (map (\<lambda>m. tlv_length m + 2) (simpletlv_parse data)) \<le> length data"
proof (induction data rule: length_induct)
  case (1 data)
  show ?case
  proof (cases "parse_leaf data")
    case None
    then show ?thesis by (simp add: parse_unfold [of data])
  next
    case (Some mr)
    obtain m rest where mr: "mr = (m, rest)" by fastforce
    have "tlv_length m + 2 + length rest \<le> length data"
      using Some mr by (auto simp: parse_leaf_def split: option.splits if_splits
          dest!: simpletlv_read_tag_shorter)
    moreover from this 1
    have "sum_list (map (\<lambda>m. tlv_length m + 2) (simpletlv_parse rest)) \<le> length rest"
      by simp
    ultimately show ?thesis
      using Some mr by (simp add: parse_unfold [of data])
  qed
qed

text \<open>The copy: every compound of the input has at least one child.\<close>

fun no_empty_compound :: "simpletlv_member list \<Rightarrow> bool" where
  "no_empty_compound [] = True"
| "no_empty_compound (TLV_COMPOUND t cs # ms) =
     (cs \<noteq> [] \<and> no_empty_compound cs \<and> no_empty_compound ms)"
| "no_empty_compound (_ # ms) = no_empty_compound ms"

declare simpletlv_clone.simps [simp del]

lemma clone_aux:
  "simpletlv_clone ms = (if ms \<noteq> [] \<and> no_empty_compound ms then Some ms else None)"
  "simpletlv_clone_loop ms new = (if no_empty_compound ms then Some (new @ ms) else None)"
  by (induction ms and ms new rule: simpletlv_clone_simpletlv_clone_loop.induct)
    (auto simp: simpletlv_clone.simps)

lemmas clone_eq = clone_aux(1)

text \<open>The comment of \<open>simpletlv_put_tag\<close> promises values up to 65535 bytes; the longest one it
  writes is one byte shorter, although \<open>simpletlv_read_tag\<close> reads the header of 65535.\<close>

lemma put_tag_65535: "simpletlv_put_tag t 65535 outlen = None"
  by (simp add: simpletlv_put_tag_def)

lemma read_tag_65535: "simpletlv_read_tag ([t, 255, 255, 255] @ rest) = Some (t, 65535, rest)"
  by (simp add: simpletlv_read_tag_def unat_lebytes2ushort)

section \<open>Properties\<close>


text \<open>C28: Parsing an encoding gives the members back, and garbage behind it does not disturb
  them: \<open>simpletlv_parse\<close> of the encoded leaves followed by any bytes starts with those leaves,
  and what follows is what the garbage alone parses to.\<close>

theorem simpletlv_parse_encode:
  assumes "list_all is_leaf ms" and "simpletlv_encode ms 0 = Some bs"
  shows "simpletlv_parse (bs @ junk) = ms @ simpletlv_parse junk"
proof -
  have "tlv_encodable ms" "bs = tlv_image ms"
    using assms(2) by (auto simp: encode_both split: if_splits)
  then show ?thesis
    using assms(1) encodable_leaf_ok parse_leaves image_of_leaves by metis
qed

theorem simpletlv_parse_encode_witness:
  "simpletlv_parse ([0x13, 2, 0x14, 0x18] @ [0x28, 0x13, 0x64]) =
     [TLV_LEAF 0x13 [0x14, 0x18]] @ simpletlv_parse [0x28, 0x13, 0x64]"
  by (rule simpletlv_parse_encode)
    (simp_all add: encode_both tlv_header_def tag_ok_def)

text \<open>The two files of a VM card hold together what the members hold: a client that reads
  one header at a time from the tag file and as many bytes from the value file gets every leaf
  back, and ends both files at the same time.\<close>

theorem tl_val_files_roundtrip:
  assumes "list_all is_leaf ms"
    and "simpletlv_encode_tl ms 0 = Some tls" and "simpletlv_encode_val ms 0 = Some vals"
  shows "read_split tls vals = Some ms"
proof -
  have "tlv_encodable ms" "tls = tlv_tl_image ms" "vals = tlv_val_image ms"
    using assms by (auto simp: encode_simps split: if_splits)
  then show ?thesis
    using assms(1) encodable_leaf_ok read_split_leaves by metis
qed

theorem tl_val_files_roundtrip_witness:
  "read_split [0x71, 1, 0x70, 3] [0, 0xaa, 0xbb, 0xcc] =
     Some [TLV_LEAF 0x71 [0], TLV_LEAF 0x70 [0xaa, 0xbb, 0xcc]]"
  by (rule tl_val_files_roundtrip)
    (simp_all add: encode_simps tlv_header_def tag_ok_def)


text \<open>\<open>simpletlv_clone\<close> is a faithful deep copy or fails: it returns the same tree, and the
  null pointer exactly when the array, or some compound inside it, is empty.\<close>

theorem simpletlv_clone_exact:
  "simpletlv_clone ms = (if ms \<noteq> [] \<and> no_empty_compound ms then Some ms else None)"
  by (rule clone_eq)

end
