(* ===== verification/Apdu.thy ===== *)
theory Apdu
  imports Card_Prelude
begin

text \<open>
  The command APDU: \<open>VCardAPDU\<close> of \<open>src/card_7816t.h\<close> and its decoder \<open>vcard_apdu_new\<close>,
  \<open>vcard_apdu_set_class\<close>, \<open>vcard_apdu_set_length\<close> of \<open>src/card_7816.c\<close>. The body pointer
  \<open>a_body\<close> points into the raw bytes, so it is an offset here. The decoder is proved against
  the table of ISO 7816-4 command cases, written as an encoder (\<open>build_apdu\<close>).
\<close>

section \<open>Status words and instruction codes\<close>

abbreviation "VCARD7816_STATUS_SUCCESS \<equiv> (0x9000 :: sw16)"
abbreviation "VCARD7816_STATUS_WARNING \<equiv> (0x6200 :: sw16)"
abbreviation "VCARD7816_STATUS_WARNING_RET_CORUPT \<equiv> (0x6281 :: sw16)"
abbreviation "VCARD7816_STATUS_WARNING_BUF_END_BEFORE_LE \<equiv> (0x6282 :: sw16)"
abbreviation "VCARD7816_STATUS_WARNING_INVALID_FILE_SELECTED \<equiv> (0x6283 :: sw16)"
abbreviation "VCARD7816_STATUS_WARNING_FCI_FORMAT_INVALID \<equiv> (0x6284 :: sw16)"
abbreviation "VCARD7816_STATUS_WARNING_CHANGE \<equiv> (0x6300 :: sw16)"
abbreviation "VCARD7816_STATUS_WARNING_FILE_FILLED \<equiv> (0x6381 :: sw16)"
abbreviation "VCARD7816_STATUS_EXC_ERROR \<equiv> (0x6400 :: sw16)"
abbreviation "VCARD7816_STATUS_EXC_ERROR_CHANGE \<equiv> (0x6500 :: sw16)"
abbreviation "VCARD7816_STATUS_EXC_ERROR_MEMORY_FAILURE \<equiv> (0x6581 :: sw16)"
abbreviation "VCARD7816_STATUS_ERROR_WRONG_LENGTH \<equiv> (0x6700 :: sw16)"
abbreviation "VCARD7816_STATUS_ERROR_CLA_NOT_SUPPORTED \<equiv> (0x6800 :: sw16)"
abbreviation "VCARD7816_STATUS_ERROR_CHANNEL_NOT_SUPPORTED \<equiv> (0x6881 :: sw16)"
abbreviation "VCARD7816_STATUS_ERROR_SECURE_NOT_SUPPORTED \<equiv> (0x6882 :: sw16)"
abbreviation "VCARD7816_STATUS_ERROR_COMMAND_NOT_SUPPORTED \<equiv> (0x6900 :: sw16)"
abbreviation "VCARD7816_STATUS_ERROR_COMMAND_INCOMPATIBLE_WITH_FILE \<equiv> (0x6981 :: sw16)"
abbreviation "VCARD7816_STATUS_ERROR_SECURITY_NOT_SATISFIED \<equiv> (0x6982 :: sw16)"
abbreviation "VCARD7816_STATUS_ERROR_AUTHENTICATION_BLOCKED \<equiv> (0x6983 :: sw16)"
abbreviation "VCARD7816_STATUS_ERROR_DATA_INVALID \<equiv> (0x6984 :: sw16)"
abbreviation "VCARD7816_STATUS_ERROR_CONDITION_NOT_SATISFIED \<equiv> (0x6985 :: sw16)"
abbreviation "VCARD7816_STATUS_ERROR_DATA_NO_EF \<equiv> (0x6986 :: sw16)"
abbreviation "VCARD7816_STATUS_ERROR_SM_OBJECT_MISSING \<equiv> (0x6987 :: sw16)"
abbreviation "VCARD7816_STATUS_ERROR_SM_OBJECT_INCORRECT \<equiv> (0x6988 :: sw16)"
abbreviation "VCARD7816_STATUS_ERROR_WRONG_PARAMETERS \<equiv> (0x6a00 :: sw16)"
abbreviation "VCARD7816_STATUS_ERROR_WRONG_PARAMETERS_IN_DATA \<equiv> (0x6a80 :: sw16)"
abbreviation "VCARD7816_STATUS_ERROR_FUNCTION_NOT_SUPPORTED \<equiv> (0x6a81 :: sw16)"
abbreviation "VCARD7816_STATUS_ERROR_FILE_NOT_FOUND \<equiv> (0x6a82 :: sw16)"
abbreviation "VCARD7816_STATUS_ERROR_RECORD_NOT_FOUND \<equiv> (0x6a83 :: sw16)"
abbreviation "VCARD7816_STATUS_ERROR_NO_SPACE_FOR_FILE \<equiv> (0x6a84 :: sw16)"
abbreviation "VCARD7816_STATUS_ERROR_LC_TLV_INCONSISTENT \<equiv> (0x6a85 :: sw16)"
abbreviation "VCARD7816_STATUS_ERROR_P1_P2_INCORRECT \<equiv> (0x6a86 :: sw16)"
abbreviation "VCARD7816_STATUS_ERROR_LC_P1_P2_INCONSISTENT \<equiv> (0x6a87 :: sw16)"
abbreviation "VCARD7816_STATUS_ERROR_DATA_NOT_FOUND \<equiv> (0x6a88 :: sw16)"
abbreviation "VCARD7816_STATUS_ERROR_WRONG_PARAMETERS_2 \<equiv> (0x6b00 :: sw16)"
abbreviation "VCARD7816_STATUS_ERROR_INS_CODE_INVALID \<equiv> (0x6d00 :: sw16)"
abbreviation "VCARD7816_STATUS_ERROR_CLA_INVALID \<equiv> (0x6e00 :: sw16)"
abbreviation "VCARD7816_STATUS_ERROR_GENERAL \<equiv> (0x6f00 :: sw16)"

abbreviation "VCARD7816_SW1_SUCCESS \<equiv> (0x90 :: byte)"
abbreviation "VCARD7816_SW1_RESPONSE_BYTES \<equiv> (0x61 :: byte)"
abbreviation "VCARD7816_SW1_WARNING_CHANGE \<equiv> (0x63 :: byte)"
abbreviation "VCARD7816_SW1_LE_ERROR \<equiv> (0x6c :: byte)"

abbreviation "VCARD7816_INS_MANAGE_CHANNEL \<equiv> (0x70 :: byte)"
abbreviation "VCARD7816_INS_EXTERNAL_AUTHENTICATE \<equiv> (0x82 :: byte)"
abbreviation "VCARD7816_INS_GET_CHALLENGE \<equiv> (0x84 :: byte)"
abbreviation "VCARD7816_INS_INTERNAL_AUTHENTICATE \<equiv> (0x88 :: byte)"
abbreviation "VCARD7816_INS_ERASE_BINARY \<equiv> (0x0e :: byte)"
abbreviation "VCARD7816_INS_READ_BINARY \<equiv> (0xb0 :: byte)"
abbreviation "VCARD7816_INS_WRITE_BINARY \<equiv> (0xd0 :: byte)"
abbreviation "VCARD7816_INS_UPDATE_BINARY \<equiv> (0xd6 :: byte)"
abbreviation "VCARD7816_INS_READ_RECORD \<equiv> (0xb2 :: byte)"
abbreviation "VCARD7816_INS_WRITE_RECORD \<equiv> (0xd2 :: byte)"
abbreviation "VCARD7816_INS_UPDATE_RECORD \<equiv> (0xdc :: byte)"
abbreviation "VCARD7816_INS_APPEND_RECORD \<equiv> (0xe2 :: byte)"
abbreviation "VCARD7816_INS_ENVELOPE \<equiv> (0xc2 :: byte)"
abbreviation "VCARD7816_INS_PUT_DATA \<equiv> (0xda :: byte)"
abbreviation "VCARD7816_INS_GET_DATA \<equiv> (0xca :: byte)"
abbreviation "VCARD7816_INS_SELECT_FILE \<equiv> (0xa4 :: byte)"
abbreviation "VCARD7816_INS_VERIFY \<equiv> (0x20 :: byte)"
abbreviation "VCARD7816_INS_GET_RESPONSE \<equiv> (0xc0 :: byte)"

section \<open>The APDU\<close>

datatype VCardAPDUType = VCARD_7816_ISO | VCARD_7816_RFU | VCARD_7816_PTS | VCARD_7816_PROPRIETARY

text \<open>The value the C enumeration gives each type.\<close>

fun apdu_type_value :: "VCardAPDUType \<Rightarrow> nat" where
  "apdu_type_value VCARD_7816_ISO = 0"
| "apdu_type_value VCARD_7816_RFU = 1"
| "apdu_type_value VCARD_7816_PTS = 2"
| "apdu_type_value VCARD_7816_PROPRIETARY = 3"

record VCardAPDU =
  a_len :: nat
  a_Lc :: nat
  a_Le :: nat
  a_body :: "nat option"
  a_channel :: nat
  a_secure_messaging :: byte
  a_type :: byte
  a_gen_type :: VCardAPDUType
  a_data :: bytes

text \<open>The fields of the header, through the union of \<open>VCardAPDUStruct\<close>, and the \<open>a_Lc\<close> bytes
  at \<open>a_body\<close>.\<close>

definition a_cla :: "VCardAPDU \<Rightarrow> byte" where "a_cla apdu = a_data apdu ! 0"
definition a_ins :: "VCardAPDU \<Rightarrow> byte" where "a_ins apdu = a_data apdu ! 1"
definition a_p1 :: "VCardAPDU \<Rightarrow> byte" where "a_p1 apdu = a_data apdu ! 2"
definition a_p2 :: "VCardAPDU \<Rightarrow> byte" where "a_p2 apdu = a_data apdu ! 3"
definition ah_Le :: "VCardAPDU \<Rightarrow> byte" where "ah_Le apdu = a_data apdu ! 4"
definition ah_body :: "VCardAPDU \<Rightarrow> nat \<Rightarrow> byte" where "ah_body apdu i = a_data apdu ! (5 + i)"

definition apdu_body :: "VCardAPDU \<Rightarrow> bytes" where
  "apdu_body apdu =
     (case a_body apdu of None \<Rightarrow> [] | Some off \<Rightarrow> take (a_Lc apdu) (drop off (a_data apdu)))"

text \<open>The header bytes do not depend on the decoded fields.\<close>

lemma header_frame [simp]:
  "a_cla (apdu\<lparr>a_Lc := x_a_Lc\<rparr>) = a_cla apdu"
  "a_cla (apdu\<lparr>a_Le := x_a_Le\<rparr>) = a_cla apdu"
  "a_cla (apdu\<lparr>a_body := x_a_body\<rparr>) = a_cla apdu"
  "a_cla (apdu\<lparr>a_channel := x_a_channel\<rparr>) = a_cla apdu"
  "a_cla (apdu\<lparr>a_secure_messaging := x_a_secure_messaging\<rparr>) = a_cla apdu"
  "a_cla (apdu\<lparr>a_type := x_a_type\<rparr>) = a_cla apdu"
  "a_cla (apdu\<lparr>a_gen_type := x_a_gen_type\<rparr>) = a_cla apdu"
  "a_ins (apdu\<lparr>a_Lc := x_a_Lc\<rparr>) = a_ins apdu"
  "a_ins (apdu\<lparr>a_Le := x_a_Le\<rparr>) = a_ins apdu"
  "a_ins (apdu\<lparr>a_body := x_a_body\<rparr>) = a_ins apdu"
  "a_ins (apdu\<lparr>a_channel := x_a_channel\<rparr>) = a_ins apdu"
  "a_ins (apdu\<lparr>a_secure_messaging := x_a_secure_messaging\<rparr>) = a_ins apdu"
  "a_ins (apdu\<lparr>a_type := x_a_type\<rparr>) = a_ins apdu"
  "a_ins (apdu\<lparr>a_gen_type := x_a_gen_type\<rparr>) = a_ins apdu"
  "a_p1 (apdu\<lparr>a_Lc := x_a_Lc\<rparr>) = a_p1 apdu"
  "a_p1 (apdu\<lparr>a_Le := x_a_Le\<rparr>) = a_p1 apdu"
  "a_p1 (apdu\<lparr>a_body := x_a_body\<rparr>) = a_p1 apdu"
  "a_p1 (apdu\<lparr>a_channel := x_a_channel\<rparr>) = a_p1 apdu"
  "a_p1 (apdu\<lparr>a_secure_messaging := x_a_secure_messaging\<rparr>) = a_p1 apdu"
  "a_p1 (apdu\<lparr>a_type := x_a_type\<rparr>) = a_p1 apdu"
  "a_p1 (apdu\<lparr>a_gen_type := x_a_gen_type\<rparr>) = a_p1 apdu"
  "a_p2 (apdu\<lparr>a_Lc := x_a_Lc\<rparr>) = a_p2 apdu"
  "a_p2 (apdu\<lparr>a_Le := x_a_Le\<rparr>) = a_p2 apdu"
  "a_p2 (apdu\<lparr>a_body := x_a_body\<rparr>) = a_p2 apdu"
  "a_p2 (apdu\<lparr>a_channel := x_a_channel\<rparr>) = a_p2 apdu"
  "a_p2 (apdu\<lparr>a_secure_messaging := x_a_secure_messaging\<rparr>) = a_p2 apdu"
  "a_p2 (apdu\<lparr>a_type := x_a_type\<rparr>) = a_p2 apdu"
  "a_p2 (apdu\<lparr>a_gen_type := x_a_gen_type\<rparr>) = a_p2 apdu"
  "ah_Le (apdu\<lparr>a_Lc := x_a_Lc\<rparr>) = ah_Le apdu"
  "ah_Le (apdu\<lparr>a_Le := x_a_Le\<rparr>) = ah_Le apdu"
  "ah_Le (apdu\<lparr>a_body := x_a_body\<rparr>) = ah_Le apdu"
  "ah_Le (apdu\<lparr>a_channel := x_a_channel\<rparr>) = ah_Le apdu"
  "ah_Le (apdu\<lparr>a_secure_messaging := x_a_secure_messaging\<rparr>) = ah_Le apdu"
  "ah_Le (apdu\<lparr>a_type := x_a_type\<rparr>) = ah_Le apdu"
  "ah_Le (apdu\<lparr>a_gen_type := x_a_gen_type\<rparr>) = ah_Le apdu"
  "ah_body (apdu\<lparr>a_Lc := x_a_Lc\<rparr>) i = ah_body apdu i"
  "ah_body (apdu\<lparr>a_Le := x_a_Le\<rparr>) i = ah_body apdu i"
  "ah_body (apdu\<lparr>a_body := x_a_body\<rparr>) i = ah_body apdu i"
  "ah_body (apdu\<lparr>a_channel := x_a_channel\<rparr>) i = ah_body apdu i"
  "ah_body (apdu\<lparr>a_secure_messaging := x_a_secure_messaging\<rparr>) i = ah_body apdu i"
  "ah_body (apdu\<lparr>a_type := x_a_type\<rparr>) i = ah_body apdu i"
  "ah_body (apdu\<lparr>a_gen_type := x_a_gen_type\<rparr>) i = ah_body apdu i"
  by (simp_all add: a_cla_def a_ins_def a_p1_def a_p2_def ah_Le_def ah_body_def)

section \<open>The decoder\<close>

text \<open>
  \<open>vcard_apdu_set_class\<close>, tables 8 and 9 of ISO 7816-4 Part 4: the channel and the secure
  messaging indicator from the class byte.
\<close>

definition vcard_apdu_set_class :: "VCardAPDU \<Rightarrow> sw16 \<times> VCardAPDU" where
  "vcard_apdu_set_class apdu =
     (let t = a_cla apdu AND 0xf0;
          apdu = apdu\<lparr>a_channel := 0, a_secure_messaging := 0, a_type := t,
                      a_gen_type := VCARD_7816_ISO\<rparr>;
          apdu =
            (if t \<in> {0x00, 0x80, 0x90, 0xa0} then
               apdu\<lparr>a_channel := unat (a_cla apdu AND 3),
                    a_secure_messaging := a_cla apdu AND 0xe\<rparr>
             else if t \<in> {0xb0, 0xc0} then apdu
             else if t \<in> {0x10, 0x20, 0x30, 0x40, 0x50, 0x60, 0x70} then
               apdu\<lparr>a_gen_type := VCARD_7816_RFU\<rparr>
             else
               apdu\<lparr>a_gen_type := (if a_cla apdu = 0xff then VCARD_7816_PTS
                                    else VCARD_7816_PROPRIETARY)\<rparr>)
      in (VCARD7816_STATUS_SUCCESS, apdu))"

text \<open>Two bytes of an extended length, most significant first.\<close>

definition be16 :: "byte \<Rightarrow> byte \<Rightarrow> nat" where
  "be16 hi lo = unat hi * 256 + unat lo"

text \<open>\<open>vcard_apdu_set_length\<close>, table 5: \<open>a_Lc\<close>, \<open>a_Le\<close> and the body. Its only caller has checked
  that there are four bytes of header, so \<open>L\<close> does not go below 0.\<close>

definition vcard_apdu_set_length :: "VCardAPDU \<Rightarrow> sw16 \<times> VCardAPDU" where
  "vcard_apdu_set_length apdu =
     (let L = a_len apdu - 4;
          apdu = apdu\<lparr>a_Lc := 0, a_Le := 0, a_body := None\<rparr> in
      if L = 0 then (VCARD7816_STATUS_SUCCESS, apdu)
      else if L = 1 then
        (VCARD7816_STATUS_SUCCESS,
         apdu\<lparr>a_Le := (if ah_Le apdu \<noteq> 0 then unat (ah_Le apdu) else 256)\<rparr>)
      else if ah_Le apdu = 0 then
        (if L < 3 then (VCARD7816_STATUS_ERROR_WRONG_LENGTH, apdu)
         else (let Le = be16 (ah_body apdu 0) (ah_body apdu 1) in
           if L = 3 then
             (VCARD7816_STATUS_SUCCESS, apdu\<lparr>a_Le := (if Le \<noteq> 0 then Le else 65536)\<rparr>)
           else if Le = 0 then (VCARD7816_STATUS_ERROR_WRONG_LENGTH, apdu)
           else (let apdu = apdu\<lparr>a_Lc := Le, a_body := Some 7\<rparr> in
             if L = Le + 3 then (VCARD7816_STATUS_SUCCESS, apdu)
             else if L = Le + 5 then
               (let Le = be16 (a_data apdu ! (a_len apdu - 2)) (a_data apdu ! (a_len apdu - 1))
                in (VCARD7816_STATUS_SUCCESS, apdu\<lparr>a_Le := (if Le \<noteq> 0 then Le else 65536)\<rparr>))
             else (VCARD7816_STATUS_ERROR_WRONG_LENGTH, apdu))))
      else (let apdu = apdu\<lparr>a_Lc := unat (ah_Le apdu), a_body := Some 5\<rparr> in
        if L = a_Lc apdu + 1 then (VCARD7816_STATUS_SUCCESS, apdu)
        else if L = a_Lc apdu + 2 then
          (let Le = unat (a_data apdu ! (a_len apdu - 1))
           in (VCARD7816_STATUS_SUCCESS, apdu\<lparr>a_Le := (if Le \<noteq> 0 then Le else 256)\<rparr>))
        else (VCARD7816_STATUS_ERROR_WRONG_LENGTH, apdu)))"

text \<open>
  \<open>vcard_apdu_new\<close>: the decoded APDU, or the status of the error. The fields of the fresh
  structure are set by the two decoders before they are read.
\<close>

definition raw_apdu_struct :: "bytes \<Rightarrow> VCardAPDU" where
  "raw_apdu_struct raw =
     \<lparr>a_len = length raw, a_Lc = 0, a_Le = 0, a_body = None, a_channel = 0,
      a_secure_messaging = 0, a_type = 0, a_gen_type = VCARD_7816_ISO, a_data = raw\<rparr>"

definition vcard_apdu_new :: "bytes \<Rightarrow> sw16 + VCardAPDU" where
  "vcard_apdu_new raw_apdu =
     (if length raw_apdu < 4 then Inl VCARD7816_STATUS_ERROR_WRONG_LENGTH
      else (case vcard_apdu_set_class (raw_apdu_struct raw_apdu) of
        (status, new_apdu) \<Rightarrow>
          if status \<noteq> VCARD7816_STATUS_SUCCESS then Inl status
          else (case vcard_apdu_set_length new_apdu of
            (status, new_apdu) \<Rightarrow>
              if status \<noteq> VCARD7816_STATUS_SUCCESS then Inl status else Inr new_apdu)))"

section \<open>The class byte\<close>

lemma set_class_status [simp]: "fst (vcard_apdu_set_class apdu) = VCARD7816_STATUS_SUCCESS"
  by (simp add: vcard_apdu_set_class_def Let_def)

definition classify :: "VCardAPDU \<Rightarrow> VCardAPDU" where
  "classify apdu = snd (vcard_apdu_set_class apdu)"

lemma set_class_eq: "vcard_apdu_set_class apdu = (VCARD7816_STATUS_SUCCESS, classify apdu)"
  by (simp add: classify_def vcard_apdu_set_class_def Let_def)

lemma classify_frame [frame_simps]:
  "a_len (classify apdu) = a_len apdu" "a_data (classify apdu) = a_data apdu"
  "a_Lc (classify apdu) = a_Lc apdu" "a_Le (classify apdu) = a_Le apdu"
  "a_body (classify apdu) = a_body apdu"
  by (simp_all add: classify_def vcard_apdu_set_class_def Let_def)

lemma and3_le3: "unat ((c :: byte) AND 3) \<le> 3"
  using word_and_le1 [of c 3] by (simp add: word_le_nat_alt)

lemma classify_channel: "a_channel (classify apdu) < 4"
  using and3_le3 [of "a_cla apdu"]
  by (auto simp: classify_def vcard_apdu_set_class_def Let_def a_cla_def)

lemma high_nibble_not_two: "(c :: byte) AND 0xf0 \<noteq> 2"
proof
  assume "c AND 0xf0 = 2"
  then have "(c AND 0xf0) AND 2 = 2" by simp
  then show False by (simp add: and.assoc)
qed

lemma classify_type [simp]: "a_type (classify apdu) = a_cla apdu AND 0xf0"
  by (simp add: classify_def vcard_apdu_set_class_def Let_def)

text \<open>The secure-messaging mask is \<open>0xe\<close>, which overlaps the two channel bits.\<close>

lemma and_e_zero_channel: "(c :: byte) AND 0xe = 0 \<Longrightarrow> unat (c AND 3) < 2"
proof -
  assume "c AND 0xe = 0"
  then have "(c AND 0xe) AND 2 = 0" by simp
  then have two: "(c AND 3) AND 2 = 0" by (simp add: and.assoc)
  obtain n where n: "c AND 3 = of_nat n" "n \<le> 3"
    using and3_le3 [of c] by (metis of_nat_unat ucast_id)
  then have "n = 0 \<or> n = 1 \<or> n = 2 \<or> n = 3" by arith
  then have "c AND 3 = 0 \<or> c AND 3 = 1 \<or> c AND 3 = 2 \<or> c AND 3 = 3"
    using n(1) by auto
  with two show ?thesis by auto
qed

lemma classify_no_secure_messaging:
  "a_secure_messaging (classify apdu) = 0 \<Longrightarrow> a_channel (classify apdu) < 2"
  using and_e_zero_channel [of "a_cla apdu"]
  by (auto simp: classify_def vcard_apdu_set_class_def Let_def a_cla_def split: if_splits)

section \<open>Well-formed APDUs\<close>

text \<open>What every decoded APDU satisfies: the body lies inside the raw bytes, the lengths are in
  the ranges of the extended format, the channel is one of the four of \<open>MAX_CHANNEL\<close>.\<close>

definition apdu_ok :: "VCardAPDU \<Rightarrow> bool" where
  "apdu_ok apdu \<longleftrightarrow>
     4 \<le> length (a_data apdu) \<and> a_len apdu = length (a_data apdu) \<and>
     (case a_body apdu of None \<Rightarrow> a_Lc apdu = 0
      | Some off \<Rightarrow> 0 < a_Lc apdu \<and> off + a_Lc apdu \<le> a_len apdu) \<and>
     a_Lc apdu \<le> 65535 \<and> a_Le apdu \<le> 65536 \<and> a_channel apdu < 4 \<and>
     (a_secure_messaging apdu = 0 \<longrightarrow> a_channel apdu < 2) \<and>
     a_type apdu \<noteq> 2"

lemma be16_le [simp]: "be16 hi lo \<le> 65535" "be16 hi lo \<le> 65536"
  using unat_byte_le [of hi] unat_byte_le [of lo] unfolding be16_def by linarith+

lemma byte_le_lengths [simp]: "unat (b :: byte) \<le> 65535" "unat (b :: byte) \<le> 65536"
  using unat_byte_le [of b] by linarith+

lemma apdu_okD:
  assumes "apdu_ok apdu"
  shows "a_channel apdu < 4" "a_len apdu = length (a_data apdu)"
    "length (apdu_body apdu) = a_Lc apdu" "a_Le apdu \<le> 65536" "a_Lc apdu \<le> 65535"
    "a_secure_messaging apdu = 0 \<Longrightarrow> a_channel apdu < 2" "a_type apdu \<noteq> 2"
  using assms by (auto simp: apdu_ok_def apdu_body_def split: option.splits)

lemma set_length_ok:
  assumes "vcard_apdu_set_length apdu = (VCARD7816_STATUS_SUCCESS, r)"
    and "a_len apdu = length (a_data apdu)" and "4 \<le> a_len apdu" and "a_channel apdu < 4"
    and "a_secure_messaging apdu = 0 \<longrightarrow> a_channel apdu < 2" and "a_type apdu \<noteq> 2"
  shows "apdu_ok r"
  using assms
  by (simp add: vcard_apdu_set_length_def apdu_ok_def Let_def ah_Le_def ah_body_def
      split: if_splits; clarsimp simp: unat_gt_0; linarith?)

lemma apdu_new_cases:
  "vcard_apdu_new raw = Inr apdu \<Longrightarrow>
   4 \<le> length raw \<and>
   vcard_apdu_set_length (classify (raw_apdu_struct raw)) = (VCARD7816_STATUS_SUCCESS, apdu)"
  by (auto simp: vcard_apdu_new_def set_class_eq split: if_splits prod.splits)

lemma apdu_new_ok: "vcard_apdu_new raw = Inr apdu \<Longrightarrow> apdu_ok apdu"
proof -
  assume "vcard_apdu_new raw = Inr apdu"
  note new = apdu_new_cases [OF this]
  show ?thesis
  proof (rule set_length_ok)
    show "vcard_apdu_set_length (classify (raw_apdu_struct raw)) = (VCARD7816_STATUS_SUCCESS, apdu)"
      using new by simp
  qed (use new in \<open>simp_all add: frame_simps raw_apdu_struct_def classify_channel
        classify_no_secure_messaging high_nibble_not_two\<close>)
qed

section \<open>The command cases of ISO 7816-4\<close>

text \<open>
  The table the decoder implements, as an encoder: a header, an optional body with its length
  \<open>Lc\<close>, an optional expected length \<open>Le\<close>, both lengths in the short or in the extended format.
\<close>

datatype apdu_format = Short | Extended

fun lc_bytes :: "apdu_format \<Rightarrow> nat \<Rightarrow> bytes" where
  "lc_bytes Short n = [of_nat n]"
| "lc_bytes Extended n = [0, of_nat (n div 256), of_nat n]"

fun le_bytes :: "apdu_format \<Rightarrow> bool \<Rightarrow> nat \<Rightarrow> bytes" where
  "le_bytes Short first n = [of_nat n]"
| "le_bytes Extended first n = (if first then [0] else []) @ [of_nat (n div 256), of_nat n]"

fun max_lc :: "apdu_format \<Rightarrow> nat" where
  "max_lc Short = 255"
| "max_lc Extended = 65535"

definition apdu_tail :: "apdu_format \<Rightarrow> bytes \<Rightarrow> nat option \<Rightarrow> bytes" where
  "apdu_tail f body le =
     (if body = [] then [] else lc_bytes f (length body) @ body) @
     (case le of None \<Rightarrow> [] | Some n \<Rightarrow> le_bytes f (body = []) n)"

definition build_apdu ::
  "apdu_format \<Rightarrow> byte \<Rightarrow> byte \<Rightarrow> byte \<Rightarrow> byte \<Rightarrow> bytes \<Rightarrow> nat option \<Rightarrow> bytes" where
  "build_apdu f c i p q body le = c # i # p # q # apdu_tail f body le"

definition apdu_args_ok :: "apdu_format \<Rightarrow> bytes \<Rightarrow> nat option \<Rightarrow> bool" where
  "apdu_args_ok f body le \<longleftrightarrow> length body \<le> max_lc f \<and>
     (case le of None \<Rightarrow> True | Some n \<Rightarrow> 1 \<le> n \<and> n \<le> max_lc f + 1)"

text \<open>The length decoder on what follows the four header bytes: \<open>a_Le\<close> and the body.\<close>

definition decode_tail :: "bytes \<Rightarrow> (nat \<times> bytes) option" where
  "decode_tail r =
     (let L = length r; wrap = (\<lambda>n m. if n \<noteq> 0 then n else m) in
      if L = 0 then Some (0, [])
      else if L = 1 then Some (wrap (unat (r ! 0)) 256, [])
      else if r ! 0 = 0 then
        (if L < 3 then None
         else (let n = be16 (r ! 1) (r ! 2) in
           if L = 3 then Some (wrap n 65536, [])
           else if n = 0 then None
           else if L = n + 3 then Some (0, drop 3 r)
           else if L = n + 5 then
             Some (wrap (be16 (r ! (n + 3)) (r ! (n + 4))) 65536, take n (drop 3 r))
           else None))
      else (let n = unat (r ! 0) in
        if L = n + 1 then Some (0, drop 1 r)
        else if L = n + 2 then Some (wrap (unat (r ! (n + 1))) 256, take n (drop 1 r))
        else None))"

lemma set_length_decode_tail:
  assumes "a_data apdu = c # i # p # q # r" and "a_len apdu = length (a_data apdu)"
  shows "(case vcard_apdu_set_length apdu of (st, a) \<Rightarrow>
            if st = VCARD7816_STATUS_SUCCESS
            then Some (a_Le a, apdu_body a) else None) = decode_tail r"
proof -
  have L: "a_len apdu - 4 = length r"
    and hdr: "ah_Le apdu = r ! 0" "ah_body apdu 0 = r ! 1" "ah_body apdu 1 = r ! 2"
      "ah_body apdu (Suc 0) = r ! 2"
    and off: "drop 7 (a_data apdu) = drop 3 r" "drop 5 (a_data apdu) = drop 1 r"
    using assms by (simp_all add: ah_Le_def ah_body_def)
  have at_end: "a_data apdu ! (a_len apdu - k) = r ! (length r - k)"
    if "1 \<le> k" "k \<le> length r" for k
  proof -
    have "a_len apdu - k = Suc (Suc (Suc (Suc (length r - k))))"
      using assms that by simp
    then show ?thesis using assms by simp
  qed
  consider "r = []" | "length r = 1" | "2 \<le> length r" "r ! 0 = 0" "length r < 3"
    | "r ! 0 = 0" "3 \<le> length r" | "2 \<le> length r" "r ! 0 \<noteq> 0"
    by (metis One_nat_def Suc_1 length_0_conv less_2_cases not_less)
  then show ?thesis
  proof cases
    case 4
    then have "length r \<noteq> 0" "length r \<noteq> 1" "\<not> length r < 3" by auto
    note base = 4 this vcard_apdu_set_length_def decode_tail_def apdu_body_def Let_def L hdr off
    define n where "n = be16 (r ! 1) (r ! 2)"
    have n: "be16 (r ! 1) (r ! 2) = n" "be16 (r ! Suc 0) (r ! 2) = n"
      by (simp_all add: n_def)
    consider "length r = 3" | "length r \<noteq> 3" "n = 0" | "length r \<noteq> 3" "0 < n" "length r = n + 3"
      | "length r = n + 5" "0 < n"
      | "length r \<noteq> 3" "0 < n" "length r \<noteq> n + 3" "length r \<noteq> n + 5"
      by blast
    then show ?thesis
    proof cases
      case 4
      then have "a_data apdu ! (a_len apdu - 1) = r ! (n + 4)"
        "a_data apdu ! (a_len apdu - 2) = r ! (n + 3)"
        using at_end [of 1] at_end [of 2] by (simp_all add: add.commute)
      with 4 show ?thesis by (simp add: base n)
    qed (simp_all add: base n)
  next
    case 5
    then have "length r \<noteq> 0" "length r \<noteq> 1" by auto
    with 5 show ?thesis
      using at_end [of 1]
      by (simp add: vcard_apdu_set_length_def decode_tail_def apdu_body_def Let_def L hdr off)
  qed (simp_all add: vcard_apdu_set_length_def decode_tail_def apdu_body_def Let_def unat_gt_0
      L hdr off)
qed

lemma set_length_data:
  "vcard_apdu_set_length apdu = (st, a) \<Longrightarrow> a_data a = a_data apdu"
  by (auto simp: vcard_apdu_set_length_def Let_def split: if_splits)

lemma set_length_class:
  "vcard_apdu_set_length apdu = (st, a) \<Longrightarrow>
   a_channel a = a_channel apdu \<and> a_gen_type a = a_gen_type apdu \<and> a_type a = a_type apdu
   \<and> a_secure_messaging a = a_secure_messaging apdu"
  by (auto simp: vcard_apdu_set_length_def Let_def split: if_splits)

lemma apdu_new_decode:
  "vcard_apdu_new (c # i # p # q # r) = Inr a \<longleftrightarrow>
   vcard_apdu_set_length (classify (raw_apdu_struct (c # i # p # q # r)))
     = (VCARD7816_STATUS_SUCCESS, a)"
  by (auto simp: vcard_apdu_new_def set_class_eq split: prod.splits)

lemma apdu_new_iff:
  "(\<exists>a. vcard_apdu_new (c # i # p # q # r) = Inr a \<and> a_Le a = le \<and> apdu_body a = body)
     \<longleftrightarrow> decode_tail r = Some (le, body)"
  using set_length_decode_tail [of "classify (raw_apdu_struct (c # i # p # q # r))" c i p q r]
  by (force simp: apdu_new_decode frame_simps raw_apdu_struct_def split: prod.splits if_splits)

lemma apdu_new_header:
  "vcard_apdu_new raw = Inr a \<Longrightarrow> a_data a = raw"
  using apdu_new_cases [of raw a] set_length_data
  by (fastforce simp: frame_simps raw_apdu_struct_def)

lemma be16_of_nat: "n \<le> 65536 \<Longrightarrow> be16 (of_nat (n div 256)) (of_nat n) = n mod 65536"
proof -
  assume n: "n \<le> 65536"
  have "(n div 256) mod 256 * 256 + n mod 256 = n mod 65536"
    using n by (simp add: mod_mult2_eq [of n 256 256, simplified])
  then show ?thesis
    by (simp add: be16_def unsigned_of_nat take_bit_eq_mod)
qed

lemma decode_tail_build:
  assumes "apdu_args_ok f body le"
  shows "decode_tail (apdu_tail f body le) = Some (case le of None \<Rightarrow> 0 | Some n \<Rightarrow> n, body)"
proof (cases f)
  case Short
  have len: "body \<noteq> [] \<Longrightarrow> unat (of_nat (length body) :: byte) = length body"
    "body \<noteq> [] \<Longrightarrow> (of_nat (length body) :: byte) \<noteq> 0"
    using assms Short of_nat_byte_inverse [of "length body"]
    by (auto simp: apdu_args_ok_def)
  have le: "unat (of_nat n :: byte) = n mod 256" for n
    by (simp add: unsigned_of_nat take_bit_eq_mod)
  have wrap: "1 \<le> n \<Longrightarrow> n \<le> 256 \<Longrightarrow> 0 < n mod 256 \<Longrightarrow> n mod 256 = n"
    "1 \<le> n \<Longrightarrow> n \<le> 256 \<Longrightarrow> 256 dvd n \<Longrightarrow> n = 256" for n :: nat
    by (cases "n = 256"; auto dest: nat_dvd_not_less)+
  have shift: "(a # xs) ! (k + 1) = xs ! k" for a :: byte and xs k
    by simp
  note rules = apdu_tail_def decode_tail_def len le Let_def
  show ?thesis
  proof (cases le)
    case None
    then show ?thesis
      using assms Short by (cases "body = []") (simp_all add: rules apdu_args_ok_def)
  next
    case (Some n)
    then have n: "1 \<le> n" "n \<le> 256" "length body \<le> 255"
      using assms Short by (simp_all add: apdu_args_ok_def)
    show ?thesis
    proof (cases "body = []")
      case True
      then show ?thesis
        using n Some Short wrap [of n] by (auto simp: rules)
    next
      case False
      then show ?thesis
        using n Some Short wrap [of n] by (auto simp: rules shift nth_append)
    qed
  qed
next
  case Extended
  have be: "be16 (of_nat (n div 256)) (of_nat n) = n mod 65536" if "n \<le> 65536" for n
    using that by (rule be16_of_nat)
  have wrap: "1 \<le> n \<Longrightarrow> n \<le> 65536 \<Longrightarrow> 0 < n mod 65536 \<Longrightarrow> n mod 65536 = n"
    "1 \<le> n \<Longrightarrow> n \<le> 65536 \<Longrightarrow> 65536 dvd n \<Longrightarrow> n = 65536" for n :: nat
    by (cases "n = 65536"; auto dest: nat_dvd_not_less)+
  have shift: "(a # b # c # xs) ! (k + 3) = xs ! k" "(a # b # c # xs) ! (k + 4) = xs ! Suc k"
    for a b c :: byte and xs k
    by (simp_all add: numeral_eq_Suc)
  note rules = apdu_tail_def decode_tail_def be Let_def
  show ?thesis
  proof (cases le)
    case None
    then show ?thesis
      using assms Extended by (cases "body = []") (simp_all add: rules apdu_args_ok_def)
  next
    case (Some n)
    then have n: "1 \<le> n" "n \<le> 65536" "length body \<le> 65535"
      using assms Extended by (simp_all add: apdu_args_ok_def)
    show ?thesis
    proof (cases "body = []")
      case True
      then show ?thesis
        using n Some Extended wrap [of n] by (auto simp: rules)
    next
      case False
      then show ?thesis
        using n Some Extended wrap [of n]
        by (auto simp: rules shift nth_append)
    qed
  qed
qed

text \<open>And back: whatever the decoder accepts is an encoding of what it decoded.\<close>

lemma byte_cases_len: "unat (b :: byte) = n \<Longrightarrow> b = of_nat n"
  by auto

lemma be16_bytes: "be16 h l = n \<Longrightarrow> h = of_nat (n div 256) \<and> l = of_nat n"
proof -
  assume n: "be16 h l = n"
  have "n div 256 = unat h" "n mod 256 = unat l"
    using n unat_byte_lt [of l] by (auto simp: be16_def)
  moreover have "(of_nat n :: byte) = of_nat (n mod 256)"
    by (rule word_unat_eq_iff [THEN iffD2]) (simp add: unsigned_of_nat take_bit_eq_mod)
  ultimately show ?thesis by simp
qed

lemma split_at: "length xs = n + length ys \<Longrightarrow> xs = take n xs @ drop n xs"
  by simp

lemma wrap_byte: "of_nat (if unat (b :: byte) \<noteq> 0 then unat b else 256) = b"
  by (auto simp: unat_eq_zero)

lemma wrap_be16:
  "of_nat ((if be16 h l \<noteq> 0 then be16 h l else 65536) div 256) = h"
  "of_nat (if be16 h l \<noteq> 0 then be16 h l else 65536) = l"
  using be16_bytes [of h l "be16 h l"] by (auto simp: be16_def unat_eq_zero)

lemma decode_tail_short:
  assumes "decode_tail r = Some (le, body)" and "r \<noteq> []" and "length r = 1 \<or> r ! 0 \<noteq> 0"
  shows "apdu_args_ok Short body (if le = 0 then None else Some le) \<and>
    r = apdu_tail Short body (if le = 0 then None else Some le)"
proof -
  obtain x b where r: "r = x # b"
    using assms(2) by (cases r) auto
  have le: "1 \<le> (if unat (y :: byte) \<noteq> 0 then unat y else 256)"
    "(if unat y \<noteq> 0 then unat y else 256) \<le> 256" for y
    by (auto intro: order_trans [OF unat_byte_le])
  consider "b = []" | "b \<noteq> []" "x \<noteq> 0" "length b = unat x"
    | "b \<noteq> []" "x \<noteq> 0" "length b = unat x + 1"
    using assms r by (auto simp: decode_tail_def Let_def split: if_splits)
  then show ?thesis
  proof cases
    case 1
    then have "decode_tail r = Some (if unat x \<noteq> 0 then unat x else 256, [])"
      by (simp add: decode_tail_def r)
    then have "le = (if unat x \<noteq> 0 then unat x else 256)" "body = []"
      using assms(1) by simp_all
    then show ?thesis
      using 1 r wrap_byte [of x] le [of x]
      by (simp add: apdu_tail_def apdu_args_ok_def)
  next
    case 2
    then have "unat x \<noteq> 0" by (simp add: unat_eq_zero)
    with 2 have "decode_tail r = Some (0, b)"
      by (simp add: decode_tail_def r Let_def)
    then show ?thesis
      using 2 r assms(1) by (simp add: apdu_tail_def apdu_args_ok_def)
  next
    case 3
    then have x: "unat x \<noteq> 0" by (simp add: unat_eq_zero)
    obtain b' y where b': "b = b' @ [y]"
      using 3(1) by (cases b rule: rev_cases) auto
    with 3(3) have len: "length b' = unat x" by simp
    with x have "b' \<noteq> []" by auto
    note b = b' len this
    with 3 x have "decode_tail r = Some (if unat y \<noteq> 0 then unat y else 256, b')"
      by (simp add: decode_tail_def r Let_def nth_append)
    then have "le = (if unat y \<noteq> 0 then unat y else 256)" "body = b'"
      using assms(1) by simp_all
    then show ?thesis
      using 3 b r wrap_byte [of y] le [of y]
      by (simp add: apdu_tail_def apdu_args_ok_def)
  qed
qed

lemma decode_tail_extended:
  assumes "decode_tail r = Some (le, body)" and "1 < length r" and "r ! 0 = 0"
  shows "apdu_args_ok Extended body (if le = 0 then None else Some le) \<and>
    r = apdu_tail Extended body (if le = 0 then None else Some le)"
proof -
  have "3 \<le> length r"
    using assms by (auto simp: decode_tail_def Let_def split: if_splits)
  then obtain h l b where r: "r = 0 # h # l # b"
    using assms(3) by (auto simp: numeral_eq_Suc Suc_le_length_iff)
  define n where "n = be16 h l"
  have n: "n \<le> 65535" "of_nat (n div 256) = h" "of_nat n = l"
    using be16_bytes [of h l n] by (simp_all add: n_def)
  have le: "1 \<le> (if be16 x y \<noteq> 0 then be16 x y else 65536)"
    "(if be16 x y \<noteq> 0 then be16 x y else 65536) \<le> 65536" for x y
    by auto
  consider "b = []" | "b \<noteq> []" "0 < n" "length b = n" | "b \<noteq> []" "0 < n" "length b = n + 2"
    using assms r by (auto simp: decode_tail_def Let_def n_def split: if_splits)
  then show ?thesis
  proof cases
    case 1
    then have "decode_tail r = Some (if be16 h l \<noteq> 0 then be16 h l else 65536, [])"
      by (simp add: decode_tail_def r)
    then have "le = (if be16 h l \<noteq> 0 then be16 h l else 65536)" "body = []"
      using assms(1) by simp_all
    then show ?thesis
      using 1 r wrap_be16 [of h l] le [of h l]
      by (simp add: apdu_tail_def apdu_args_ok_def)
  next
    case 2
    then have "decode_tail r = Some (0, b)"
      by (simp add: decode_tail_def r Let_def flip: n_def)
    then show ?thesis
      using 2 r n assms(1) by (simp add: apdu_tail_def apdu_args_ok_def)
  next
    case 3
    then have "b = take n b @ [b ! n, b ! Suc n]"
      by (simp add: list_eq_iff_nth_eq nth_append nth_Cons' less_Suc_eq)
    then obtain b' x y where b: "b = b' @ [x, y]" "length b' = n" "b' \<noteq> []"
      using 3 that [of "take n b" "b ! n" "b ! Suc n"] by fastforce
    have nth: "(a # c # d # xs) ! (k + 3) = xs ! k" "(a # c # d # xs) ! (k + 4) = xs ! Suc k"
      for a c d :: byte and xs k
      by (simp_all add: numeral_eq_Suc)
    from 3 b have "decode_tail r = Some (if be16 x y \<noteq> 0 then be16 x y else 65536, b')"
      by (simp add: decode_tail_def r Let_def nth nth_append flip: n_def)
    then have "le = (if be16 x y \<noteq> 0 then be16 x y else 65536)" "body = b'"
      using assms(1) by simp_all
    then show ?thesis
      using 3 b r n wrap_be16 [of x y] le [of x y]
      by (simp add: apdu_tail_def apdu_args_ok_def)
  qed
qed

lemma decode_tail_complete:
  assumes "decode_tail r = Some (le, body)"
  shows "\<exists>f. apdu_args_ok f body (if le = 0 then None else Some le) \<and>
    r = apdu_tail f body (if le = 0 then None else Some le)"
proof (cases "r = []")
  case True
  then have "apdu_args_ok Short body (if le = 0 then None else Some le) \<and>
      r = apdu_tail Short body (if le = 0 then None else Some le)"
    using assms by (auto simp: decode_tail_def apdu_tail_def apdu_args_ok_def)
  then show ?thesis by blast
next
  case False
  then show ?thesis
    using decode_tail_short [OF assms] decode_tail_extended [OF assms]
    by (metis One_nat_def length_0_conv less_one linorder_neqE_nat)
qed

section \<open>Decoding what was built\<close>

lemma build_decodes:
  assumes "apdu_args_ok f body le"
  shows "\<exists>apdu. vcard_apdu_new (build_apdu f c i p q body le) = Inr apdu \<and>
    a_cla apdu = c \<and> a_ins apdu = i \<and> a_p1 apdu = p \<and> a_p2 apdu = q \<and>
    apdu_body apdu = body \<and> a_Lc apdu = length body \<and>
    a_Le apdu = (case le of None \<Rightarrow> 0 | Some n \<Rightarrow> n)"
proof -
  obtain apdu where new: "vcard_apdu_new (build_apdu f c i p q body le) = Inr apdu"
    and "a_Le apdu = (case le of None \<Rightarrow> 0 | Some n \<Rightarrow> n)" and "apdu_body apdu = body"
    using decode_tail_build [OF assms] unfolding build_apdu_def
    by (metis (no_types, lifting) apdu_new_iff)
  moreover have "a_data apdu = build_apdu f c i p q body le"
    using new by (rule apdu_new_header)
  moreover have "length (apdu_body apdu) = a_Lc apdu"
    using new apdu_new_ok apdu_okD(3) by blast
  ultimately show ?thesis
    by (auto simp: a_cla_def a_ins_def a_p1_def a_p2_def build_apdu_def numeral_eq_Suc)
qed

text \<open>The class byte 0: an interindustry command on channel 0, without secure messaging.\<close>

lemma apdu_new_plain:
  assumes "vcard_apdu_new raw = Inr apdu" and "a_cla apdu = 0"
  shows "a_gen_type apdu = VCARD_7816_ISO" "a_secure_messaging apdu = 0" "a_channel apdu = 0"
proof -
  note new = set_length_class [OF apdu_new_cases [OF assms(1), THEN conjunct2]]
  have "a_cla (raw_apdu_struct raw) = 0"
    using assms(2) apdu_new_header [OF assms(1)] by (simp add: a_cla_def raw_apdu_struct_def)
  then show "a_gen_type apdu = VCARD_7816_ISO" "a_secure_messaging apdu = 0" "a_channel apdu = 0"
    using new by (simp_all add: classify_def vcard_apdu_set_class_def Let_def a_cla_def)
qed

section \<open>Properties\<close>



text \<open>C30: Every APDU the decoder lets through is well formed: its body lies inside the raw bytes,
  \<open>a_Lc\<close> and \<open>a_Le\<close> are in range, the channel indexes the four entries of \<open>current_applet\<close>, so no
  handler reads outside the buffer or the array.\<close>

theorem vcard_apdu_new_ok: "vcard_apdu_new raw = Inr apdu \<Longrightarrow> apdu_ok apdu"
  by (rule apdu_new_ok)

theorem vcard_apdu_new_ok_witness:
  "apdu_ok \<lparr>a_len = 5, a_Lc = 0, a_Le = 16, a_body = None, a_channel = 0, a_secure_messaging = 0,
     a_type = 0, a_gen_type = VCARD_7816_ISO, a_data = [0, 0xc0, 0, 0, 16]\<rparr>"
  by (rule vcard_apdu_new_ok [of "[0, 0xc0, 0, 0, 16]"])
    (simp add: vcard_apdu_new_def vcard_apdu_set_class_def vcard_apdu_set_length_def
      raw_apdu_struct_def Let_def a_cla_def ah_Le_def)

end
