(* ===== verification/Response.thy ===== *)
theory Response
  imports Apdu
begin

text \<open>
  The response APDU: \<open>VCardResponse\<close> of \<open>src/card_7816t.h\<close>, its constructors in
  \<open>src/card_7816.c\<close>, and the buffer of a response that is fetched in pieces
  (\<open>VCardBufferResponse\<close> of \<open>src/vcardt.h\<close>, constructor in \<open>src/vcard.c\<close>).
\<close>

section \<open>Responses\<close>

datatype VCardResponseBufferType = VCARD_MALLOC | VCARD_MALLOC_DATA | VCARD_MALLOC_STRUCT | VCARD_STATIC

text \<open>
  \<open>b_data\<close> is the memory the pointer \<open>b_data\<close> gives access to: \<open>b_len + 2\<close> bytes of the heap, or
  the two adjacent fields \<open>b_sw1\<close>, \<open>b_sw2\<close> of the structure itself for a bare status.
\<close>

record VCardResponse =
  b_data :: bytes
  b_status :: sw16
  b_sw1 :: byte
  b_sw2 :: byte
  b_len :: nat
  b_total_len :: nat
  b_type :: VCardResponseBufferType

text \<open>The writes to \<open>b_data[b_len]\<close> and \<open>b_data[b_len + 1]\<close> of the two functions that set the
  status.\<close>

definition vcard_response_set_status :: "VCardResponse \<Rightarrow> sw16 \<Rightarrow> VCardResponse" where
  "vcard_response_set_status response status =
     (let sw1 = ucast (drop_bit 8 status AND 0xff); sw2 = ucast (status AND 0xff) in
      response\<lparr>b_status := status, b_sw1 := sw1, b_sw2 := sw2,
               b_data := (b_data response)[b_len response := sw1, b_len response + 1 := sw2]\<rparr>)"

definition vcard_response_set_status_bytes ::
  "VCardResponse \<Rightarrow> byte \<Rightarrow> byte \<Rightarrow> VCardResponse" where
  "vcard_response_set_status_bytes response sw1 sw2 =
     response\<lparr>b_status := push_bit 8 (ucast sw1) OR ucast sw2, b_sw1 := sw1, b_sw2 := sw2,
              b_data := (b_data response)[b_len response := sw1, b_len response + 1 := sw2]\<rparr>"

text \<open>
  \<open>vcard_response_new_data\<close> leaves the status and the last two bytes of the buffer
  uninitialised; the model has zeros there. Every caller but the one for PTS sets them next, and
  that one cuts them off.
\<close>

definition vcard_response_new_data :: "bytes \<Rightarrow> VCardResponse" where
  "vcard_response_new_data buf =
     \<lparr>b_data = buf @ [0, 0], b_status = 0, b_sw1 = 0, b_sw2 = 0, b_len = length buf,
      b_total_len = length buf + 2, b_type = VCARD_MALLOC\<rparr>"

definition bare_response :: VCardResponse where
  "bare_response =
     \<lparr>b_data = [0, 0], b_status = 0, b_sw1 = 0, b_sw2 = 0, b_len = 0, b_total_len = 2,
      b_type = VCARD_MALLOC_STRUCT\<rparr>"

definition vcard_response_new_status :: "sw16 \<Rightarrow> VCardResponse" where
  "vcard_response_new_status status = vcard_response_set_status bare_response status"

definition vcard_response_new_status_bytes :: "byte \<Rightarrow> byte \<Rightarrow> VCardResponse" where
  "vcard_response_new_status_bytes sw1 sw2 = vcard_response_set_status_bytes bare_response sw1 sw2"

text \<open>The statuses \<open>vcard_make_response\<close> has a static response for; any other status gets a fresh
  structure.\<close>

definition static_statuses :: "sw16 list" where
  "static_statuses =
     [VCARD7816_STATUS_SUCCESS, VCARD7816_STATUS_WARNING, VCARD7816_STATUS_WARNING_RET_CORUPT,
      VCARD7816_STATUS_WARNING_BUF_END_BEFORE_LE, VCARD7816_STATUS_WARNING_INVALID_FILE_SELECTED,
      VCARD7816_STATUS_WARNING_FCI_FORMAT_INVALID, VCARD7816_STATUS_WARNING_CHANGE,
      VCARD7816_STATUS_WARNING_FILE_FILLED, VCARD7816_STATUS_EXC_ERROR,
      VCARD7816_STATUS_EXC_ERROR_CHANGE, VCARD7816_STATUS_EXC_ERROR_MEMORY_FAILURE,
      VCARD7816_STATUS_ERROR_WRONG_LENGTH, VCARD7816_STATUS_ERROR_CLA_NOT_SUPPORTED,
      VCARD7816_STATUS_ERROR_CHANNEL_NOT_SUPPORTED, VCARD7816_STATUS_ERROR_SECURE_NOT_SUPPORTED,
      VCARD7816_STATUS_ERROR_COMMAND_NOT_SUPPORTED,
      VCARD7816_STATUS_ERROR_COMMAND_INCOMPATIBLE_WITH_FILE,
      VCARD7816_STATUS_ERROR_SECURITY_NOT_SATISFIED,
      VCARD7816_STATUS_ERROR_AUTHENTICATION_BLOCKED, VCARD7816_STATUS_ERROR_DATA_INVALID,
      VCARD7816_STATUS_ERROR_CONDITION_NOT_SATISFIED, VCARD7816_STATUS_ERROR_DATA_NO_EF,
      VCARD7816_STATUS_ERROR_SM_OBJECT_MISSING, VCARD7816_STATUS_ERROR_SM_OBJECT_INCORRECT,
      VCARD7816_STATUS_ERROR_WRONG_PARAMETERS, VCARD7816_STATUS_ERROR_WRONG_PARAMETERS_IN_DATA,
      VCARD7816_STATUS_ERROR_FUNCTION_NOT_SUPPORTED, VCARD7816_STATUS_ERROR_FILE_NOT_FOUND,
      VCARD7816_STATUS_ERROR_RECORD_NOT_FOUND, VCARD7816_STATUS_ERROR_NO_SPACE_FOR_FILE,
      VCARD7816_STATUS_ERROR_LC_TLV_INCONSISTENT, VCARD7816_STATUS_ERROR_P1_P2_INCORRECT,
      VCARD7816_STATUS_ERROR_LC_P1_P2_INCONSISTENT, VCARD7816_STATUS_ERROR_DATA_NOT_FOUND,
      VCARD7816_STATUS_ERROR_WRONG_PARAMETERS_2, VCARD7816_STATUS_ERROR_INS_CODE_INVALID,
      VCARD7816_STATUS_ERROR_CLA_INVALID, VCARD7816_STATUS_ERROR_GENERAL]"

text \<open>The macro \<open>VCARD_RESPONSE_NEW_STATIC_STATUS\<close>.\<close>

definition static_response :: "sw16 \<Rightarrow> VCardResponse" where
  "static_response stat =
     \<lparr>b_data = [ucast (drop_bit 8 stat), ucast (stat AND 0xff)], b_status = stat,
      b_sw1 = ucast (drop_bit 8 stat), b_sw2 = ucast (stat AND 0xff), b_len = 0, b_total_len = 2,
      b_type = VCARD_STATIC\<rparr>"

definition vcard_make_response :: "sw16 \<Rightarrow> VCardResponse" where
  "vcard_make_response status =
     (if status \<in> set static_statuses then static_response status
      else vcard_response_new_status status)"

text \<open>What goes over the wire, as \<open>vreader_xfr_bytes\<close> copies it.\<close>

definition response_bytes :: "VCardResponse \<Rightarrow> bytes" where
  "response_bytes r = take (b_total_len r) (b_data r)"

section \<open>The buffered response\<close>

text \<open>\<open>current\<close> points into \<open>buffer\<close>, so it is an offset.\<close>

record VCardBufferResponse =
  buffer :: bytes
  buffer_len :: nat
  current :: nat
  len :: nat

definition vcard_buffer_response_new :: "bytes \<Rightarrow> VCardBufferResponse" where
  "vcard_buffer_response_new buf =
     \<lparr>buffer = buf, buffer_len = length buf, current = 0, len = length buf\<rparr>"

text \<open>What is left to fetch.\<close>

definition pending :: "VCardBufferResponse \<Rightarrow> bytes" where
  "pending b = take (len b) (drop (current b) (buffer b))"

definition buffer_response_ok :: "VCardBufferResponse \<Rightarrow> bool" where
  "buffer_response_ok b \<longleftrightarrow>
     buffer_len b = length (buffer b) \<and> current b + len b = buffer_len b \<and> 0 < len b"

lemma length_pending: "buffer_response_ok b \<Longrightarrow> length (pending b) = len b"
  by (auto simp: buffer_response_ok_def pending_def)

section \<open>Well-formed responses\<close>

text \<open>Every response a handler returns ends in its status bytes, agrees with its status word and
  has room for both.\<close>

definition response_ok :: "VCardResponse \<Rightarrow> bool" where
  "response_ok r \<longleftrightarrow>
     length (b_data r) = b_len r + 2 \<and> b_total_len r = b_len r + 2 \<and>
     b_data r ! b_len r = b_sw1 r \<and> b_data r ! (b_len r + 1) = b_sw2 r \<and>
     b_status r = push_bit 8 (ucast (b_sw1 r)) OR ucast (b_sw2 r)"

text \<open>The data and the status word a response carries.\<close>

definition response_data :: "VCardResponse \<Rightarrow> bytes" where
  "response_data r = take (b_len r) (b_data r)"

lemma response_bytes_split:
  assumes "response_ok r"
  shows "response_bytes r = response_data r @ [b_sw1 r, b_sw2 r]"
proof -
  have "b_data r = take (b_len r) (b_data r) @ [b_data r ! b_len r, b_data r ! (b_len r + 1)]"
    using assms
    by (simp add: response_ok_def list_eq_iff_nth_eq nth_append nth_Cons' less_Suc_eq)
  then show ?thesis
    using assms by (simp add: response_ok_def response_bytes_def response_data_def)
qed

lemma sw_bytes:
  "(push_bit 8 (ucast (ucast (drop_bit 8 st) :: byte)) OR ucast (ucast (st AND 0xff) :: byte) :: sw16) = st"
proof (rule bit_word_eqI)
  fix n :: nat
  assume "n < LENGTH(16)"
  then show "bit (push_bit 8 (ucast (ucast (drop_bit 8 st) :: byte)) OR
      ucast (ucast (st AND 0xff) :: byte) :: sw16) n = bit st n"
    by (cases "n < 8") (auto simp: bit_simps bit_255_simps dest: bit_imp_le_length)
qed

lemma byte_high: "(ucast (drop_bit 8 (st :: sw16) AND 0xff) :: byte) = ucast (drop_bit 8 st)"
  by (rule bit_word_eqI) (auto simp: bit_simps bit_255_simps)

lemma make_response_simps [resp_simps]:
  "response_ok (vcard_make_response st)" "response_data (vcard_make_response st) = []"
  "b_status (vcard_make_response st) = st" "b_len (vcard_make_response st) = 0"
  "b_sw1 (vcard_make_response st) = ucast (drop_bit 8 st)"
  "b_sw2 (vcard_make_response st) = ucast (st AND 0xff)"
  by (simp_all add: vcard_make_response_def static_response_def vcard_response_new_status_def
      vcard_response_set_status_def bare_response_def response_ok_def response_data_def
      byte_high sw_bytes Let_def)

lemma new_status_bytes_simps [resp_simps]:
  "response_ok (vcard_response_new_status_bytes s1 s2)"
  "response_data (vcard_response_new_status_bytes s1 s2) = []"
  "b_sw1 (vcard_response_new_status_bytes s1 s2) = s1"
  "b_sw2 (vcard_response_new_status_bytes s1 s2) = s2"
  "b_len (vcard_response_new_status_bytes s1 s2) = 0"
  by (simp_all add: vcard_response_new_status_bytes_def vcard_response_set_status_bytes_def
      bare_response_def response_ok_def response_data_def)

lemma set_status_data_simps [resp_simps]:
  "response_ok (vcard_response_set_status (vcard_response_new_data buf) st)"
  "response_data (vcard_response_set_status (vcard_response_new_data buf) st) = buf"
  "b_status (vcard_response_set_status (vcard_response_new_data buf) st) = st"
  "b_len (vcard_response_set_status (vcard_response_new_data buf) st) = length buf"
  by (simp_all add: vcard_response_set_status_def vcard_response_new_data_def response_ok_def
      response_data_def byte_high sw_bytes Let_def nth_append)

lemma set_status_bytes_data_simps [resp_simps]:
  "response_ok (vcard_response_set_status_bytes (vcard_response_new_data buf) s1 s2)"
  "response_data (vcard_response_set_status_bytes (vcard_response_new_data buf) s1 s2) = buf"
  "b_sw1 (vcard_response_set_status_bytes (vcard_response_new_data buf) s1 s2) = s1"
  "b_sw2 (vcard_response_set_status_bytes (vcard_response_new_data buf) s1 s2) = s2"
  "b_len (vcard_response_set_status_bytes (vcard_response_new_data buf) s1 s2) = length buf"
  by (simp_all add: vcard_response_set_status_bytes_def vcard_response_new_data_def
      response_ok_def response_data_def nth_append)

section \<open>Properties\<close>

text \<open>A bare status response carries exactly the two bytes of its status word, most significant
  first, whichever of the static responses or the fresh structure \<open>vcard_make_response\<close> picks.\<close>

theorem vcard_make_response_wire:
  "response_bytes (vcard_make_response status) =
     [ucast (drop_bit 8 status), ucast (status AND 0xff)] \<and>
   b_status (vcard_make_response status) = status"
  by (simp add: response_bytes_split resp_simps)

end
