(* ===== verification/VCard.thy ===== *)
theory VCard
  imports Response
begin

text \<open>
  The card and its applets, \<open>src/vcard.c\<close>: the structures, the list of applets, the applet
  selected on each channel, the buffered response, the accessors; and the two constructors of
  \<open>src/card_7816.c\<close> that put a long response into the buffer of the card.

  The card is polymorphic in what its opaque pointers point to: \<open>'p\<close> is the private data of an
  applet (\<open>VCardAppletPrivate\<close>), \<open>'s\<close> the state behind \<open>VCardEmul\<close>, the token in its slot.
\<close>

section \<open>Types\<close>

datatype VCardStatus = VCARD_DONE | VCARD_NEXT | VCARD_FAIL

datatype VCardType = VCARD_FILE_SYSTEM | VCARD_VM | VCARD_DIRECT

datatype VCardPower = VCARD_POWER_ON | VCARD_POWER_OFF

definition MAX_CHANNEL :: nat where
  "MAX_CHANNEL = 4"

text \<open>The functions whose addresses the code stores in \<open>process_apdu\<close>, \<open>reset_applet\<close> and
  \<open>vcard_get_atr\<close>.\<close>

datatype VCardProcessAPDU =
  Cac_common_process_apdu_read | Cac_applet_pki_process_apdu | Cac_applet_aca_process_apdu
| Cac_passthrough_container_process_apdu | Gp_applet_container_process_apdu
| Msft_applet_container_process_apdu | Capcsc_apdu_cb

datatype VCardResetApplet = Cac_applet_pki_reset | Cac_applet_passthrough_reset | Capcsc_reset_cb

datatype VCardGetAtr = Cac_get_atr

record 'p VCardApplet =
  process_apdu :: VCardProcessAPDU
  reset_applet :: "VCardResetApplet option"
  aid :: bytes
  applet_private :: "'p option"

text \<open>
  An applet is known by its address, the index of its structure in \<open>applet_store\<close>.
  \<open>applet_list\<close> are the addresses in the order of the \<open>next\<close> pointers.
\<close>

record ('p, 's) VCard =
  reference_count :: nat
  applet_store :: "'p VCardApplet list"
  applet_list :: "nat list"
  current_applet :: "nat option list"
  vcard_buffer_response :: "VCardBufferResponse option"
  card_type :: VCardType
  vcard_private :: 's
  vcard_get_atr_func :: "VCardGetAtr option"
  compat :: "32 word"
  serial :: bytes
  serial_len :: nat

definition VCARD_COMPAT_WINDOWS :: "32 word" where
  "VCARD_COMPAT_WINDOWS = 1"

text \<open>What a call of a \<open>process_apdu\<close> function ends in: a fault, or the status, the response it
  stored (if it stored one) and the card.\<close>

type_synonym 'c handled = "fault + VCardStatus \<times> VCardResponse option \<times> 'c"

section \<open>Constructors and accessors\<close>

definition vcard_new_applet ::
  "VCardProcessAPDU \<Rightarrow> VCardResetApplet option \<Rightarrow> bytes \<Rightarrow> 'p VCardApplet" where
  "vcard_new_applet process_fn reset_fn wanted =
     \<lparr>process_apdu = process_fn, reset_applet = reset_fn, aid = wanted, applet_private = None\<rparr>"

definition vcard_set_applet_private :: "'p VCardApplet \<Rightarrow> 'p \<Rightarrow> 'p VCardApplet" where
  "vcard_set_applet_private applet private = applet\<lparr>applet_private := Some private\<rparr>"

definition vcard_new :: "'s \<Rightarrow> ('p, 's) VCard" where
  "vcard_new private =
     \<lparr>reference_count = 1, applet_store = [], applet_list = [],
      current_applet = replicate MAX_CHANNEL None, vcard_buffer_response = None,
      card_type = VCARD_VM, vcard_private = private, vcard_get_atr_func = None, compat = 0,
      serial = replicate 32 0, serial_len = 0\<rparr>"

definition vcard_set_atr_func :: "('p, 's) VCard \<Rightarrow> VCardGetAtr \<Rightarrow> ('p, 's) VCard" where
  "vcard_set_atr_func vcard get_atr = vcard\<lparr>vcard_get_atr_func := Some get_atr\<rparr>"

definition vcard_set_type :: "('p, 's) VCard \<Rightarrow> VCardType \<Rightarrow> ('p, 's) VCard" where
  "vcard_set_type vcard t = vcard\<lparr>card_type := t\<rparr>"

definition vcard_set_compat :: "('p, 's) VCard \<Rightarrow> 32 word \<Rightarrow> ('p, 's) VCard" where
  "vcard_set_compat vcard bits = vcard\<lparr>compat := compat vcard OR bits\<rparr>"

text \<open>At most the 32 bytes of the array are overwritten.\<close>

definition vcard_set_serial :: "('p, 's) VCard \<Rightarrow> bytes \<Rightarrow> ('p, 's) VCard" where
  "vcard_set_serial vcard new_serial =
     (let n = min 32 (length new_serial) in
      vcard\<lparr>serial := take n new_serial @ drop n (serial vcard), serial_len := n\<rparr>)"

text \<open>The serial and its length.\<close>

definition vcard_get_serial :: "('p, 's) VCard \<Rightarrow> bytes \<times> nat" where
  "vcard_get_serial vcard = (serial vcard, serial_len vcard)"

section \<open>Applets\<close>

text \<open>\<open>vcard_add_applet\<close> allocates the applet's structure at the next address and puts it in front
  of the list; a direct card has it selected on every channel.\<close>

definition vcard_add_applet :: "('p, 's) VCard \<Rightarrow> 'p VCardApplet \<Rightarrow> ('p, 's) VCard" where
  "vcard_add_applet vcard applet =
     (let addr = length (applet_store vcard);
          vcard = vcard\<lparr>applet_store := applet_store vcard @ [applet],
                      applet_list := addr # applet_list vcard\<rparr> in
      if card_type vcard = VCARD_DIRECT
      then vcard\<lparr>current_applet := replicate MAX_CHANNEL (Some addr)\<rparr> else vcard)"

fun find_applet_loop :: "'p VCardApplet list \<Rightarrow> nat list \<Rightarrow> bytes \<Rightarrow> nat option" where
  "find_applet_loop store [] wanted = None"
| "find_applet_loop store (a # rest) wanted =
     (if length (aid (store ! a)) \<noteq> length wanted then find_applet_loop store rest wanted
      else if aid (store ! a) = wanted then Some a
      else find_applet_loop store rest wanted)"

definition vcard_find_applet :: "('p, 's) VCard \<Rightarrow> bytes \<Rightarrow> nat option" where
  "vcard_find_applet vcard wanted = find_applet_loop (applet_store vcard) (applet_list vcard) wanted"

text \<open>
  \<open>vcard_select_applet\<close>, with the call through the function pointer \<open>reset_applet\<close> as the
  argument \<open>call_reset\<close>.
\<close>

definition vcard_select_applet ::
  "(VCardResetApplet \<Rightarrow> nat \<Rightarrow> ('p, 's) VCard \<Rightarrow> fault + ('p, 's) VCard) \<Rightarrow>
   ('p, 's) VCard \<Rightarrow> nat \<Rightarrow> nat option \<Rightarrow> fault + ('p, 's) VCard" where
  "vcard_select_applet call_reset vcard channel applet =
     (if \<not> channel < MAX_CHANNEL then Inl Assertion_Failure
      else (let vcard = vcard\<lparr>current_applet := (current_applet vcard)[channel := applet]\<rparr> in
        case applet of None \<Rightarrow> Inr vcard
        | Some a \<Rightarrow> (case reset_applet (applet_store vcard ! a) of
            None \<Rightarrow> Inr vcard | Some f \<Rightarrow> call_reset f channel vcard)))"

text \<open>The private data of the applet selected on the channel; \<open>None\<close> is the null pointer.\<close>

definition vcard_get_current_applet_private :: "('p, 's) VCard \<Rightarrow> nat \<Rightarrow> 'p option" where
  "vcard_get_current_applet_private vcard channel =
     (case current_applet vcard ! channel of None \<Rightarrow> None
      | Some a \<Rightarrow> applet_private (applet_store vcard ! a))"

text \<open>Assigning through the pointer that \<open>vcard_get_current_applet_private\<close> returned.\<close>

definition update_private :: "('p, 's) VCard \<Rightarrow> nat \<Rightarrow> 'p \<Rightarrow> ('p, 's) VCard" where
  "update_private vcard channel private =
     (case current_applet vcard ! channel of None \<Rightarrow> vcard
      | Some a \<Rightarrow> vcard\<lparr>applet_store := (applet_store vcard)
          [a := (applet_store vcard ! a)\<lparr>applet_private := Some private\<rparr>]\<rparr>)"

definition vcard_process_applet_apdu ::
  "(VCardProcessAPDU \<Rightarrow> VCardAPDU \<Rightarrow> ('p, 's) VCard \<Rightarrow> ('p, 's) VCard handled) \<Rightarrow>
   ('p, 's) VCard \<Rightarrow> VCardAPDU \<Rightarrow> ('p, 's) VCard handled" where
  "vcard_process_applet_apdu call_process vcard apdu =
     (case current_applet vcard ! a_channel apdu of
        Some a \<Rightarrow> call_process (process_apdu (applet_store vcard ! a)) apdu vcard
      | None \<Rightarrow> Inr (VCARD_NEXT, None, vcard))"

section \<open>Responses that may go to the buffer\<close>

text \<open>\<open>vcard_init_buffer_response\<close>: the buffer of the card is replaced, the response tells how much
  there is to fetch (0 for more than 255 bytes).\<close>

definition vcard_init_buffer_response ::
  "('p, 's) VCard \<Rightarrow> bytes \<Rightarrow> VCardResponse \<times> ('p, 's) VCard" where
  "vcard_init_buffer_response vcard buf =
     (let vcard = (case vcard_buffer_response vcard of None \<Rightarrow> vcard
                  | Some _ \<Rightarrow> vcard\<lparr>vcard_buffer_response := None\<rparr>);
          buffer_response = vcard_buffer_response_new buf;
          response = vcard_response_new_status_bytes VCARD7816_SW1_RESPONSE_BYTES
                       (if length buf > 255 then 0 else of_nat (length buf))
      in (response, vcard\<lparr>vcard_buffer_response := Some buffer_response\<rparr>))"

definition vcard_response_new ::
  "('p, 's) VCard \<Rightarrow> bytes \<Rightarrow> nat \<Rightarrow> sw16 \<Rightarrow> VCardResponse \<times> ('p, 's) VCard" where
  "vcard_response_new vcard buf Le status =
     (if length buf > Le then vcard_init_buffer_response vcard buf
      else (vcard_response_set_status (vcard_response_new_data buf) status, vcard))"

definition vcard_response_new_bytes ::
  "('p, 's) VCard \<Rightarrow> bytes \<Rightarrow> nat \<Rightarrow> byte \<Rightarrow> byte \<Rightarrow> VCardResponse \<times> ('p, 's) VCard" where
  "vcard_response_new_bytes vcard buf Le sw1 sw2 =
     (if length buf > Le then vcard_init_buffer_response vcard buf
      else (vcard_response_set_status_bytes (vcard_response_new_data buf) sw1 sw2, vcard))"

section \<open>Lookup\<close>

lemma find_applet_loop_Some:
  "find_applet_loop store as wanted = Some a \<Longrightarrow> a \<in> set as \<and> aid (store ! a) = wanted"
  by (induction as) (auto split: if_splits)

lemma find_applet_loop_None:
  "find_applet_loop store as wanted = None \<Longrightarrow> \<forall>a \<in> set as. aid (store ! a) \<noteq> wanted"
  by (induction as) (auto split: if_splits)

text \<open>The addresses are handed out in order and never taken off the list.\<close>

definition applets_linked :: "('p, 's) VCard \<Rightarrow> bool" where
  "applets_linked vcard \<longleftrightarrow> applet_list vcard = rev [0..<length (applet_store vcard)]"

lemma new_linked [wf_intros]: "applets_linked (vcard_new s)"
  by (simp add: applets_linked_def vcard_new_def)

lemma add_linked [wf_intros]: "applets_linked vcard \<Longrightarrow> applets_linked (vcard_add_applet vcard applet)"
  by (simp add: applets_linked_def vcard_add_applet_def Let_def)

lemma find_applet_bound:
  "applets_linked vcard \<Longrightarrow> vcard_find_applet vcard wanted = Some a \<Longrightarrow>
   a < length (applet_store vcard) \<and> aid (applet_store vcard ! a) = wanted"
  by (auto simp: vcard_find_applet_def applets_linked_def dest: find_applet_loop_Some)

lemma find_loop_cong:
  "(\<And>a. a \<in> set as \<Longrightarrow> aid (s ! a) = aid (t ! a)) \<Longrightarrow>
   find_applet_loop s as wanted = find_applet_loop t as wanted"
  by (induction as) auto

lemma find_after_add:
  assumes "applets_linked vcard"
  shows "vcard_find_applet (vcard_add_applet vcard applet) wanted =
    (if aid applet = wanted then Some (length (applet_store vcard))
     else vcard_find_applet vcard wanted)"
proof -
  have "find_applet_loop (applet_store vcard @ [applet]) (applet_list vcard) wanted =
      find_applet_loop (applet_store vcard) (applet_list vcard) wanted"
    using assms by (intro find_loop_cong) (auto simp: applets_linked_def nth_append)
  then show ?thesis
    by (simp add: vcard_find_applet_def vcard_add_applet_def Let_def)
qed

text \<open>With all AIDs different, every applet is found at its own address.\<close>

lemma find_loop_unique:
  "a \<in> set as \<Longrightarrow> (\<And>b. b \<in> set as \<Longrightarrow> aid (store ! b) = wanted \<Longrightarrow> b = a) \<Longrightarrow>
   aid (store ! a) = wanted \<Longrightarrow> find_applet_loop store as wanted = Some a"
proof (induction as)
  case (Cons b as)
  show ?case
  proof (cases "aid (store ! b) = wanted")
    case True
    have "b = a" by (rule Cons.prems(2) [OF _ True]) simp
    with True show ?thesis by simp
  next
    case False
    then have "a \<in> set as" using Cons.prems(1,3) by auto
    then have "find_applet_loop store as wanted = Some a"
      by (rule Cons.IH) (auto intro: Cons.prems(2,3))
    then show ?thesis using False by simp
  qed
qed simp

lemma find_distinct:
  assumes "applets_linked vcard" and "distinct (map aid (applet_store vcard))"
    and "a < length (applet_store vcard)"
  shows "vcard_find_applet vcard (aid (applet_store vcard ! a)) = Some a"
  unfolding vcard_find_applet_def
proof (rule find_loop_unique)
  show "a \<in> set (applet_list vcard)" using assms(1,3) by (simp add: applets_linked_def)
next
  fix b
  assume b: "b \<in> set (applet_list vcard)" "aid (applet_store vcard ! b) = aid (applet_store vcard ! a)"
  then have "b < length (applet_store vcard)" using assms(1) by (simp add: applets_linked_def)
  then show "b = a"
    using b(2) assms(3) nth_eq_iff_index_eq [OF assms(2)] by (metis length_map nth_map)
qed simp

section \<open>The well-formed card\<close>

text \<open>
  \<open>card_wf A card\<close>: the card is linked, every applet satisfies \<open>A\<close>, the selected applets exist,
  a buffered response has something left to fetch. \<open>A\<close> is the invariant of the applet code.
\<close>

definition card_wf :: "('p VCardApplet \<Rightarrow> bool) \<Rightarrow> ('p, 's) VCard \<Rightarrow> bool" where
  "card_wf A vcard \<longleftrightarrow>
     applets_linked vcard \<and> list_all A (applet_store vcard) \<and>
     length (current_applet vcard) = MAX_CHANNEL \<and>
     (\<forall>a. Some a \<in> set (current_applet vcard) \<longrightarrow> a < length (applet_store vcard)) \<and>
     (\<forall>b. vcard_buffer_response vcard = Some b \<longrightarrow> buffer_response_ok b) \<and>
     length (serial vcard) = 32 \<and> serial_len vcard \<le> 32"

lemma card_wf_new [wf_intros]: "card_wf A (vcard_new s)"
  by (auto simp: card_wf_def vcard_new_def applets_linked_def)

lemma card_wf_add [wf_intros]:
  "card_wf A vcard \<Longrightarrow> A applet \<Longrightarrow> card_wf A (vcard_add_applet vcard applet)"
  by (auto simp: card_wf_def vcard_add_applet_def applets_linked_def Let_def less_Suc_eq)

lemma card_wf_frame [wf_intros]:
  "card_wf A vcard \<Longrightarrow> card_wf A (vcard_set_type vcard t)"
  "card_wf A vcard \<Longrightarrow> card_wf A (vcard_set_compat vcard c)"
  "card_wf A vcard \<Longrightarrow> card_wf A (vcard_set_atr_func vcard f)"
  "card_wf A vcard \<Longrightarrow> card_wf A (vcard\<lparr>vcard_private := s\<rparr>)"
  "card_wf A vcard \<Longrightarrow> card_wf A (vcard\<lparr>vcard_buffer_response := None\<rparr>)"
  by (auto simp: card_wf_def vcard_set_type_def vcard_set_compat_def vcard_set_atr_func_def
      applets_linked_def)

lemma card_wf_serial [wf_intros]: "card_wf A vcard \<Longrightarrow> card_wf A (vcard_set_serial vcard bs)"
  by (auto simp: card_wf_def vcard_set_serial_def applets_linked_def Let_def)

lemma card_wf_private:
  assumes "card_wf A vcard" and "vcard_get_current_applet_private vcard ch = Some p"
    and "ch < MAX_CHANNEL"
  obtains a where "current_applet vcard ! ch = Some a" "a < length (applet_store vcard)"
    "A (applet_store vcard ! a)" "applet_private (applet_store vcard ! a) = Some p"
proof -
  obtain a where a: "current_applet vcard ! ch = Some a"
      "applet_private (applet_store vcard ! a) = Some p"
    using assms(2) by (auto simp: vcard_get_current_applet_private_def split: option.splits)
  then have "Some a \<in> set (current_applet vcard)"
    using assms(1,3) by (metis card_wf_def nth_mem)
  then have "a < length (applet_store vcard)" using assms(1) by (simp add: card_wf_def)
  then show thesis
    using a assms(1) that by (simp add: card_wf_def list_all_length)
qed

lemma card_wf_update:
  assumes "card_wf A vcard"
    and "\<And>a. current_applet vcard ! ch = Some a \<Longrightarrow> a < length (applet_store vcard) \<Longrightarrow>
      A ((applet_store vcard ! a)\<lparr>applet_private := Some p\<rparr>)"
  shows "card_wf A (update_private vcard ch p)"
  using assms
  by (cases "current_applet vcard ! ch")
    (auto simp: card_wf_def update_private_def applets_linked_def list_all_length nth_update_any)

lemma card_wf_select [wf_intros]:
  "card_wf A vcard \<Longrightarrow> (\<And>a. applet = Some a \<Longrightarrow> a < length (applet_store vcard)) \<Longrightarrow>
   card_wf A (vcard\<lparr>current_applet := (current_applet vcard)[ch := applet]\<rparr>)"
  by (auto simp: card_wf_def applets_linked_def dest!: set_update_subset_insert [THEN subsetD])

section \<open>The response constructors\<close>

text \<open>What \<open>vcard_response_new\<close> returns and leaves in the card, as a specification: the data at
  once when it fits \<open>Le\<close>, else a request to fetch it.\<close>

definition responds_with ::
  "('p, 's) VCard \<Rightarrow> bytes \<Rightarrow> nat \<Rightarrow> VCardResponse \<Rightarrow> ('p, 's) VCard \<Rightarrow> bool" where
  "responds_with vcard buf Le r vcard' \<longleftrightarrow> response_ok r \<and>
     (if length buf \<le> Le then response_data r = buf \<and> vcard' = vcard
      else response_data r = [] \<and> b_sw1 r = VCARD7816_SW1_RESPONSE_BYTES \<and>
        vcard' = vcard\<lparr>vcard_buffer_response := Some (vcard_buffer_response_new buf)\<rparr>)"

lemma init_buffer_simps [resp_simps]:
  "vcard_init_buffer_response vcard buf =
     (vcard_response_new_status_bytes VCARD7816_SW1_RESPONSE_BYTES
        (if length buf > 255 then 0 else of_nat (length buf)),
      vcard\<lparr>vcard_buffer_response := Some (vcard_buffer_response_new buf)\<rparr>)"
  by (simp add: vcard_init_buffer_response_def Let_def split: option.split)

lemma response_new_responds:
  "vcard_response_new vcard buf Le st = (r, vcard') \<Longrightarrow> responds_with vcard buf Le r vcard'"
  by (auto simp: vcard_response_new_def responds_with_def resp_simps split: if_splits)

lemma response_new_bytes_responds:
  "vcard_response_new_bytes vcard buf Le s1 s2 = (r, vcard') \<Longrightarrow> responds_with vcard buf Le r vcard'"
  by (auto simp: vcard_response_new_bytes_def responds_with_def resp_simps split: if_splits)

lemma new_buffer_ok: "buf \<noteq> [] \<Longrightarrow> buffer_response_ok (vcard_buffer_response_new buf)"
  by (simp add: buffer_response_ok_def vcard_buffer_response_new_def)

lemma pending_new [simp]: "pending (vcard_buffer_response_new buf) = buf"
  by (simp add: pending_def vcard_buffer_response_new_def)

lemma responds_wf:
  "responds_with vcard buf Le r vcard' \<Longrightarrow> card_wf A vcard \<Longrightarrow> card_wf A vcard'"
  by (auto simp: responds_with_def card_wf_def applets_linked_def buffer_response_ok_def
      vcard_buffer_response_new_def split: if_splits)

lemma responds_ok: "responds_with vcard buf Le r vcard' \<Longrightarrow> response_ok r"
  by (simp add: responds_with_def)

lemma responds_length: "responds_with vcard buf Le r vcard' \<Longrightarrow> length (response_data r) \<le> Le"
  by (auto simp: responds_with_def split: if_splits)

lemma responds_frame:
  "responds_with vcard buf Le r vcard' \<Longrightarrow>
   applet_store vcard' = applet_store vcard \<and> applet_list vcard' = applet_list vcard \<and>
   current_applet vcard' = current_applet vcard \<and> card_type vcard' = card_type vcard \<and>
   vcard_private vcard' = vcard_private vcard"
  by (auto simp: responds_with_def split: if_splits)

text \<open>What every handler promises of the response it makes for an APDU with expected length
  \<open>Le\<close>: some data, at once or in the buffer.\<close>

definition replies :: "('p, 's) VCard \<Rightarrow> nat \<Rightarrow> VCardResponse \<Rightarrow> ('p, 's) VCard \<Rightarrow> bool" where
  "replies vcard Le r vcard' \<longleftrightarrow> (\<exists>buf. responds_with vcard buf Le r vcard')"

lemma replies_make [wf_intros]: "replies vcard Le (vcard_make_response st) vcard"
  unfolding replies_def by (rule exI [of _ "[]"]) (simp add: responds_with_def resp_simps)

lemma replies_status_bytes [wf_intros]: "replies vcard Le (vcard_response_new_status_bytes a b) vcard"
  unfolding replies_def by (rule exI [of _ "[]"]) (simp add: responds_with_def resp_simps)

lemma replies_new [wf_intros]:
  "vcard_response_new vcard buf Le st = (r, vcard') \<Longrightarrow> replies vcard Le r vcard'"
  "vcard_response_new_bytes vcard buf Le a b = (r, vcard') \<Longrightarrow> replies vcard Le r vcard'"
  unfolding replies_def by (blast dest: response_new_responds response_new_bytes_responds)+

lemma repliesD:
  assumes "replies vcard Le r vcard'"
  shows "response_ok r" "length (response_data r) \<le> Le"
    "card_wf A vcard \<Longrightarrow> card_wf A vcard'" "card_type vcard' = card_type vcard"
    "vcard_private vcard' = vcard_private vcard" "applet_store vcard' = applet_store vcard"
  using assms
  by (auto simp: replies_def dest: responds_ok responds_length responds_wf responds_frame)

lemmas responds_facts = responds_wf responds_ok responds_length responds_frame

section \<open>Properties\<close>

text \<open>The applet a SELECT finds is the one most recently added under exactly that AID: adding an
  applet makes its AID resolve to it and leaves the lookup of every other AID alone.\<close>

theorem vcard_find_applet_after_add:
  "applets_linked vcard \<Longrightarrow>
   vcard_find_applet (vcard_add_applet vcard applet) wanted =
     (if aid applet = wanted then Some (length (applet_store vcard))
      else vcard_find_applet vcard wanted)"
  by (rule find_after_add)

theorem vcard_find_applet_after_add_witness:
  "vcard_find_applet (vcard_add_applet (vcard_new ())
     (vcard_new_applet Gp_applet_container_process_apdu None [1, 2] :: unit VCardApplet)) [1, 2] =
   Some 0"
  using vcard_find_applet_after_add [of "vcard_new ()"
      "vcard_new_applet Gp_applet_container_process_apdu None [1, 2] :: unit VCardApplet" "[1, 2]"]
  by (simp add: applets_linked_def vcard_new_def vcard_new_applet_def)

end
