(* ===== verification/Cac_Aca.thy ===== *)
theory Cac_Aca
  imports Simple_TLV VCard
begin

text \<open>
  The access control applet, \<open>src/cac-aca.c\<close>: its constant tables (access control rules, service
  applets, access control of the objects of each applet, access method providers) and the
  functions that build the response to GET ACR from them, in SimpleTLV and in the extended form.

  Some responses copy a C structure instead of the field that is meant, so the model has the bytes
  of those structures in memory: \<open>unsigned int\<close> is four bytes, little-endian, on a multiple of
  four, and the padding of a constant is zero.
\<close>

section \<open>Instructions, tags and formats of \<open>src/cac.h\<close>\<close>

abbreviation "CAC_GET_PROPERTIES \<equiv> (0x56 :: byte)"
abbreviation "CAC_GET_ACR \<equiv> (0x4c :: byte)"
abbreviation "CAC_READ_BUFFER \<equiv> (0x52 :: byte)"
abbreviation "CAC_UPDATE_BUFFER \<equiv> (0x58 :: byte)"
abbreviation "CAC_SIGN_DECRYPT \<equiv> (0x42 :: byte)"
abbreviation "CAC_FILE_TAG \<equiv> (0x01 :: byte)"
abbreviation "CAC_FILE_VALUE \<equiv> (0x02 :: byte)"
abbreviation "CAC_ACR_NUM_ENTRIES \<equiv> (0xa1 :: byte)"
abbreviation "CAC_ACR_ENTRY \<equiv> (0xa0 :: byte)"
abbreviation "CAC_ACR_NUM_APPLETS \<equiv> (0x81 :: byte)"
abbreviation "CAC_ACR_APPLET_ACR \<equiv> (0x80 :: byte)"
abbreviation "CAC_ACR_OBJECT_ACR \<equiv> (0x82 :: byte)"
abbreviation "CAC_ACR_AMP_NUM_ENTRIES \<equiv> (0x91 :: byte)"
abbreviation "CAC_ACR_AMP_ENTRY \<equiv> (0x90 :: byte)"
abbreviation "CAC_ACR_AID \<equiv> (0x92 :: byte)"
abbreviation "CAC_ACR_SERVICE_NUM_ENTRIES \<equiv> (0x94 :: byte)"
abbreviation "CAC_ACR_SERVICE_ENTRY \<equiv> (0x93 :: byte)"
abbreviation "CAC_PROPERTIES_APPLET_INFORMATION \<equiv> (0x01 :: byte)"

datatype cac_format = CAC_FORMAT_SIMPLETLV | CAC_FORMAT_EXTENDED

text \<open>An \<open>unsigned int\<close> in memory.\<close>

definition uint_bytes :: "nat \<Rightarrow> bytes" where
  "uint_bytes n = [of_nat n, of_nat (n div 256), of_nat (n div 65536), of_nat (n div 16777216)]"

section \<open>The tables\<close>

record acr_access_method =
  provider_id :: byte
  keyIDOrReference :: byte

record acr_entry =
  acrid :: byte
  acrtype :: byte
  acr_applet_id :: byte
  access_methods :: "acr_access_method list"

abbreviation am :: "byte \<Rightarrow> byte \<Rightarrow> acr_access_method" where
  "am p k \<equiv> \<lparr>provider_id = p, keyIDOrReference = k\<rparr>"

definition acr :: "byte \<Rightarrow> byte \<Rightarrow> byte \<Rightarrow> acr_access_method list \<Rightarrow> acr_entry" where
  "acr i t a ms = \<lparr>acrid = i, acrtype = t, acr_applet_id = a, access_methods = ms\<rparr>"

definition acr_table :: "acr_entry list" where
  "acr_table =
     [acr 0x00 0x00 0x00 [], acr 0x01 0x01 0x00 [], acr 0x02 0x00 0x1f [],
      acr 0x06 0x06 0x00 [am 0x1e 0x00], acr 0x04 0x04 0x1f [am 0x1f 0x21],
      acr 0x08 0x03 0x00 [am 0x1d 0x01, am 0x1e 0x01], acr 0x09 0x02 0x00 [am 0x1d 0x01],
      acr 0x0a 0x03 0x00 [am 0x1d 0x03, am 0x1e 0x01], acr 0x0b 0x02 0x00 [am 0x1d 0x00],
      acr 0x10 0x00 0x1e [], acr 0x11 0x00 0x1d []]"

text \<open>The entry in memory: the number of methods is aligned, and there is room for
  \<open>MAX_ACCESS_METHODS\<close>, two.\<close>

definition MAX_ACCESS_METHODS :: nat where
  "MAX_ACCESS_METHODS = 2"

definition acr_entry_bytes :: "acr_entry \<Rightarrow> bytes" where
  "acr_entry_bytes e =
     [acrid e, acrtype e, acr_applet_id e, 0] @ uint_bytes (length (access_methods e)) @
     take 4 (concat (map (\<lambda>m. [provider_id m, keyIDOrReference m]) (access_methods e)) @
             replicate 4 0)"

record applet_entry =
  applet_id :: byte
  applet_aid :: bytes

abbreviation ae :: "byte \<Rightarrow> bytes \<Rightarrow> applet_entry" where
  "ae i a \<equiv> \<lparr>applet_id = i, applet_aid = a\<rparr>"

definition service_entries :: "applet_entry list" where
  "service_entries =
     [ae 0x61 [0xa0, 0, 0, 0, 0x79, 0x01, 0x00], ae 0x62 [0xa0, 0, 0, 0, 0x79, 0x01, 0x01],
      ae 0x63 [0xa0, 0, 0, 0, 0x79, 0x01, 0x02], ae 0x64 [0xa0, 0, 0, 0, 0x79, 0x01, 0x03],
      ae 0x65 [0xa0, 0, 0, 0, 0x79, 0x01, 0x04], ae 0x66 [0xa0, 0, 0, 0, 0x79, 0x01, 0x05],
      ae 0x67 [0xa0, 0, 0, 0, 0x79, 0x01, 0x06], ae 0x68 [0xa0, 0, 0, 0, 0x79, 0x01, 0x07],
      ae 0x69 [0xa0, 0, 0, 0, 0x79, 0x01, 0x08], ae 0x6a [0xa0, 0, 0, 0, 0x79, 0x01, 0x09],
      ae 0x40 [0xa0, 0, 0, 0x01, 0x16, 0x30, 0x00], ae 0x4f [0xa0, 0, 0, 0x01, 0x16, 0xdb, 0x00],
      ae 0x4b [0xa0, 0, 0, 0, 0x79, 0x02, 0xfb], ae 0x41 [0xa0, 0, 0, 0, 0x79, 0x02, 0x00],
      ae 0x42 [0xa0, 0, 0, 0, 0x79, 0x02, 0x01], ae 0x4e [0xa0, 0, 0, 0, 0x79, 0x02, 0xfe],
      ae 0x4d [0xa0, 0, 0, 0, 0x79, 0x02, 0xfd], ae 0x50 [0xa0, 0, 0, 0, 0x79, 0x02, 0xf2],
      ae 0x51 [0xa0, 0, 0, 0, 0x79, 0x02, 0xf0], ae 0x52 [0xa0, 0, 0, 0, 0x79, 0x02, 0xf1],
      ae 0x44 [0xa0, 0, 0, 0, 0x79, 0x12, 0x01], ae 0x45 [0xa0, 0, 0, 0, 0x79, 0x12, 0x02]]"

definition service_num_static_entries :: nat where
  "service_num_static_entries = 12"

definition applet_entry_bytes :: "applet_entry \<Rightarrow> bytes" where
  "applet_entry_bytes e = [applet_id e, 0, 0, 0] @ uint_bytes (length (applet_aid e)) @ applet_aid e"

text \<open>Instructions of an object, with the parameters the rule depends on.\<close>

record cac_ins =
  ins_code :: byte
  ins_acrid :: byte
  ins_config :: byte
  ins_p1 :: byte
  ins_p2 :: byte
  ins_data1 :: byte

abbreviation "ACR_INS_CONFIG_NONE \<equiv> (0x00 :: byte)"
abbreviation "ACR_INS_CONFIG_P1 \<equiv> (0x01 :: byte)"
abbreviation "ACR_INS_CONFIG_P2 \<equiv> (0x02 :: byte)"
abbreviation "ACR_INS_CONFIG_DATA1 \<equiv> (0x04 :: byte)"

abbreviation ACR_MAX_INSTRUCTIONS :: nat where "ACR_MAX_INSTRUCTIONS \<equiv> 5"
abbreviation ACR_MAX_APPLET_OBJECTS :: nat where "ACR_MAX_APPLET_OBJECTS \<equiv> 5"

record acr_object =
  obj_id :: "byte \<times> byte"
  obj_ins :: "cac_ins list"

record acr_applet =
  app_id :: byte
  app_objects :: "acr_object list"

definition plain_ins :: "byte \<Rightarrow> byte \<Rightarrow> cac_ins" where
  "plain_ins c a = \<lparr>ins_code = c, ins_acrid = a, ins_config = ACR_INS_CONFIG_NONE, ins_p1 = 0,
     ins_p2 = 0, ins_data1 = 0\<rparr>"

definition p1_ins :: "byte \<Rightarrow> byte \<Rightarrow> byte \<Rightarrow> cac_ins" where
  "p1_ins c a p = (plain_ins c a)\<lparr>ins_config := ACR_INS_CONFIG_P1, ins_p1 := p\<rparr>"

definition data1_ins :: "byte \<Rightarrow> byte \<Rightarrow> byte \<Rightarrow> cac_ins" where
  "data1_ins c a d = (plain_ins c a)\<lparr>ins_config := ACR_INS_CONFIG_DATA1, ins_data1 := d\<rparr>"

abbreviation obj :: "byte \<Rightarrow> byte \<Rightarrow> cac_ins list \<Rightarrow> acr_object" where
  "obj a b is \<equiv> \<lparr>obj_id = (a, b), obj_ins = is\<rparr>"

abbreviation app :: "byte \<Rightarrow> acr_object list \<Rightarrow> acr_applet" where
  "app i os \<equiv> \<lparr>app_id = i, app_objects = os\<rparr>"

text \<open>The ten entries of PKI applets differ in their identifiers only.\<close>

definition pki_acr_applet :: "nat \<Rightarrow> acr_applet" where
  "pki_acr_applet n =
     app (0x61 + of_nat n)
       [obj 0x01 (of_nat n)
          [plain_ins CAC_UPDATE_BUFFER 0x04, plain_ins CAC_READ_BUFFER 0x00,
           plain_ins CAC_SIGN_DECRYPT 0x06],
        obj 0xff 0xff [plain_ins VCARD7816_INS_VERIFY 0x10]]"

definition pki_acr_applets :: "acr_applet list" where
  "pki_acr_applets =
     [pki_acr_applet 0, pki_acr_applet 1, pki_acr_applet 2, pki_acr_applet 3, pki_acr_applet 4,
      pki_acr_applet 5, pki_acr_applet 6, pki_acr_applet 7, pki_acr_applet 8, pki_acr_applet 9]"

text \<open>The object every applet with an administrator has.\<close>

definition common_object :: acr_object where
  "common_object =
     obj 0xff 0xff
       [p1_ins VCARD7816_INS_EXTERNAL_AUTHENTICATE 0x11 0x00,
        plain_ins VCARD7816_INS_GET_CHALLENGE 0x11, plain_ins VCARD7816_INS_VERIFY 0x10]"

definition buffers_object :: acr_object where
  "buffers_object =
     obj 0xff 0xff
       [plain_ins CAC_UPDATE_BUFFER 0x04, plain_ins CAC_READ_BUFFER 0x00,
        p1_ins VCARD7816_INS_EXTERNAL_AUTHENTICATE 0x11 0x00,
        plain_ins VCARD7816_INS_GET_CHALLENGE 0x11, plain_ins VCARD7816_INS_VERIFY 0x10]"

text \<open>Updating needs rule \<open>u\<close>; reading the tags is free, reading the values needs rule \<open>r\<close>.\<close>

abbreviation guarded :: "byte \<Rightarrow> byte \<Rightarrow> cac_ins list" where
  "guarded u r \<equiv>
     [plain_ins CAC_UPDATE_BUFFER u, data1_ins CAC_READ_BUFFER 0x00 0x01,
      plain_ins CAC_READ_BUFFER r]"

abbreviation free_read :: "byte \<Rightarrow> cac_ins list" where
  "free_read u \<equiv> [plain_ins CAC_UPDATE_BUFFER u, plain_ins CAC_READ_BUFFER 0x00]"

definition static_acr_applets :: "acr_applet list" where
  "static_acr_applets =
     [app 0x1f [obj 0xff 0xff [plain_ins VCARD7816_INS_VERIFY 0x00]],
      app 0xf4 [obj 0xdb 0x00 (free_read 0x04), common_object],
      app 0x4b [obj 0x02 0xfb (free_read 0x06), common_object],
      app 0x41 [obj 0x02 0x00 (guarded 0x09 0x08), common_object],
      app 0x42 [obj 0x02 0x01 (guarded 0x0b 0x0a), common_object],
      app 0x40 [obj 0x30 0x00 (free_read 0x04 @ [plain_ins VCARD7816_INS_READ_BINARY 0x00]),
                obj 0x60 0x10 (guarded 0x04 0x06), obj 0x60 0x30 (guarded 0x04 0x06),
                obj 0x90 0x00 (free_read 0x04), common_object],
      app 0x4e [obj 0x02 0xfe (free_read 0x04), common_object],
      app 0x4d [obj 0x02 0xfd (guarded 0x06 0x06), common_object],
      app 0x50 [buffers_object], app 0x51 [buffers_object], app 0x52 [buffers_object],
      app 0x44 [obj 0x12 0x01 (guarded 0x06 0x06), common_object],
      app 0x45 [obj 0x12 0x02 (guarded 0x06 0x06), common_object]]"

definition acr_applets :: "acr_applet list" where
  "acr_applets = pki_acr_applets @ static_acr_applets"

definition num_static_applets :: nat where
  "num_static_applets = 13"

text \<open>The access method providers; the array has five elements, the last two zero.\<close>

definition amp_num_entries :: nat where
  "amp_num_entries = 3"

definition amp_entries :: "applet_entry list" where
  "amp_entries =
     [ae 0x1f [0xa0, 0, 0, 0, 0x79, 0x03, 0x00], ae 0x1e [0xa0, 0, 0, 0, 0x79, 0x03, 0x00],
      ae 0x1d [0xa0, 0, 0, 0, 0x79, 0x03, 0x00], ae 0 [], ae 0 []]"

definition amp_table_extended :: bytes where
  "amp_table_extended =
     [0x1f, 0x00, 0x07, 0xa0, 0x00, 0x00, 0x00, 0x79, 0x03, 0x00, 0x12, 0x00, 0x00, 0x00,
      0x1e, 0x00, 0x07, 0xa0, 0x00, 0x00, 0x00, 0x79, 0x03, 0x00, 0x10, 0x01, 0x00, 0x00,
      0x1d, 0x00, 0x07, 0xa0, 0x00, 0x00, 0x00, 0x79, 0x03, 0x00, 0x01, 0x00, 0x00, 0x00]"

section \<open>Selecting entries\<close>

text \<open>The loops skip the entries of PKI applets the card does not have.\<close>

fun skip_unused :: "nat \<Rightarrow> nat \<Rightarrow> 'a list \<Rightarrow> 'a list" where
  "skip_unused pki i [] = []"
| "skip_unused pki i (x # xs) =
     (if pki \<le> i \<and> i < 10 then skip_unused pki (i + 1) xs else x # skip_unused pki (i + 1) xs)"

fun acr_members :: "acr_entry list \<Rightarrow> byte option \<Rightarrow> simpletlv_member list" where
  "acr_members [] wanted = []"
| "acr_members (e # es) wanted =
     (if wanted \<noteq> None \<and> wanted \<noteq> Some (acrid e) then acr_members es wanted
      else TLV_LEAF CAC_ACR_ENTRY
             (take (2 * length (access_methods e) + 3) (acr_entry_bytes e))
           # acr_members es wanted)"

text \<open>\<open>cac_aca_get_acr\<close>: \<open>None\<close> when the requested rule does not exist.\<close>

definition cac_aca_get_acr :: "byte option \<Rightarrow> simpletlv_member list option" where
  "cac_aca_get_acr wanted =
     (let r = (if wanted \<noteq> None then []
               else [TLV_LEAF CAC_ACR_NUM_ENTRIES [of_nat (length acr_table)]]) @
              acr_members acr_table wanted
      in if r = [] then None else Some r)"

definition service_member :: "byte \<Rightarrow> applet_entry \<Rightarrow> simpletlv_member" where
  "service_member tag e =
     TLV_LEAF tag
       ([applet_id e, CAC_ACR_AID, of_nat (length (applet_aid e))] @
        take (length (applet_aid e)) (applet_entry_bytes e))"

definition cac_aca_get_service_table :: "nat \<Rightarrow> fault + simpletlv_member list" where
  "cac_aca_get_service_table pki_applets =
     (let num_entries = service_num_static_entries + pki_applets;
          r = TLV_LEAF CAC_ACR_SERVICE_NUM_ENTRIES [of_nat num_entries]
              # map (service_member CAC_ACR_SERVICE_ENTRY)
                  (skip_unused pki_applets 0 service_entries)
      in if length r \<noteq> num_entries + 1 then Inl Assertion_Failure else Inr r)"

definition cac_aca_get_amp :: "simpletlv_member list" where
  "cac_aca_get_amp =
     TLV_LEAF CAC_ACR_AMP_NUM_ENTRIES [of_nat amp_num_entries]
     # map (\<lambda>i. service_member CAC_ACR_AMP_ENTRY (amp_entries ! i)) [1..<amp_num_entries + 1]"

section \<open>Encoding objects and applets\<close>

text \<open>
  \<open>acr_applet_object_encode\<close> writes into a buffer of \<open>outlen\<close> bytes and returns the null pointer
  when it is too small. The loop over the instructions carries what is left and what was written.
\<close>

definition ins_encode :: "cac_ins \<Rightarrow> nat \<Rightarrow> bytes \<Rightarrow> (nat \<times> bytes) option" where
  "ins_encode x outlen p =
     (if outlen < 2 then None
      else (let p = p @ [ins_code x, ins_config x]; outlen = outlen - 2 in
       if ins_config x AND ACR_INS_CONFIG_P1 \<noteq> 0 \<and> outlen < 1 then None
       else (let (p, outlen) = (if ins_config x AND ACR_INS_CONFIG_P1 \<noteq> 0
                                then (p @ [ins_p1 x], outlen - 1) else (p, outlen)) in
        if ins_config x AND ACR_INS_CONFIG_P2 \<noteq> 0 \<and> outlen < 1 then None
        else (let (p, outlen) = (if ins_config x AND ACR_INS_CONFIG_P2 \<noteq> 0
                                 then (p @ [ins_p2 x], outlen - 1) else (p, outlen)) in
         if ins_config x AND ACR_INS_CONFIG_DATA1 \<noteq> 0 \<and> outlen < 1 then None
         else (let (p, outlen) = (if ins_config x AND ACR_INS_CONFIG_DATA1 \<noteq> 0
                                  then (p @ [ins_data1 x], outlen - 1) else (p, outlen)) in
          if outlen < 1 then None else Some (outlen - 1, p @ [ins_acrid x]))))))"

fun object_encode_loop :: "cac_ins list \<Rightarrow> nat \<Rightarrow> bytes \<Rightarrow> bytes option" where
  "object_encode_loop [] outlen p = Some p"
| "object_encode_loop (x # xs) outlen p =
     (case ins_encode x outlen p of
        None \<Rightarrow> None | Some (outlen, p) \<Rightarrow> object_encode_loop xs outlen p)"

definition acr_applet_object_encode :: "acr_object \<Rightarrow> nat \<Rightarrow> bytes option" where
  "acr_applet_object_encode ob outlen =
     (if outlen < 2 then None
      else object_encode_loop (obj_ins ob) (outlen - 2) [fst (obj_id ob), snd (obj_id ob)])"

text \<open>The length \<open>acr_applet_encode\<close> computes before it allocates.\<close>

definition ins_length :: "cac_ins \<Rightarrow> nat" where
  "ins_length x = 3 + (if ins_config x AND ACR_INS_CONFIG_P1 \<noteq> 0 then 1 else 0)
     + (if ins_config x AND ACR_INS_CONFIG_P2 \<noteq> 0 then 1 else 0)
     + (if ins_config x AND ACR_INS_CONFIG_DATA1 \<noteq> 0 then 1 else 0)"

definition applet_buffer_len :: "acr_applet \<Rightarrow> nat" where
  "applet_buffer_len a =
     2 + sum_list (map (\<lambda>ob. 4 + sum_list (map ins_length (obj_ins ob))) (app_objects a))"

fun applet_encode_loop :: "acr_object list \<Rightarrow> nat \<Rightarrow> bytes \<Rightarrow> bytes option" where
  "applet_encode_loop [] plen p = Some p"
| "applet_encode_loop (ob # obs) plen p =
     (case acr_applet_object_encode ob (plen - 2) of
        None \<Rightarrow> None
      | Some enc \<Rightarrow> applet_encode_loop obs (plen - 2 - length enc)
          (p @ [CAC_ACR_OBJECT_ACR, of_nat (length enc)] @ enc))"

definition acr_applet_encode :: "acr_applet \<Rightarrow> fault + bytes option" where
  "acr_applet_encode a =
     (case applet_encode_loop (app_objects a) (applet_buffer_len a - 2)
             [app_id a, of_nat (length (app_objects a))] of
        None \<Rightarrow> Inr None
      | Some p \<Rightarrow> if length p \<noteq> applet_buffer_len a then Inl Assertion_Failure else Inr (Some p))"

section \<open>Lookup by object and by applet\<close>

fun find_object :: "acr_object list \<Rightarrow> bytes \<Rightarrow> simpletlv_member option" where
  "find_object [] coid = None"
| "find_object (ob # obs) coid =
     (if [fst (obj_id ob), snd (obj_id ob)] = take 2 coid then
        (case acr_applet_object_encode ob (ACR_MAX_INSTRUCTIONS * 6 + 2) of
           Some v \<Rightarrow> Some (TLV_LEAF CAC_ACR_OBJECT_ACR v)
         | None \<Rightarrow> find_object obs coid)
      else find_object obs coid)"

definition cac_aca_get_applet_acr_coid :: "nat \<Rightarrow> bytes \<Rightarrow> simpletlv_member option" where
  "cac_aca_get_applet_acr_coid pki_applets coid =
     find_object (concat (map app_objects (skip_unused pki_applets 0 acr_applets))) coid"

fun find_applet_id :: "applet_entry list \<Rightarrow> bytes \<Rightarrow> byte" where
  "find_applet_id [] wanted = 0x00"
| "find_applet_id (e # es) wanted =
     (if length wanted = length (applet_aid e) \<and> wanted = applet_aid e then applet_id e
      else find_applet_id es wanted)"

definition aid_to_applet_id :: "nat \<Rightarrow> bytes \<Rightarrow> byte" where
  "aid_to_applet_id pki_applets wanted =
     find_applet_id (skip_unused pki_applets 0 service_entries) wanted"

fun applet_members :: "acr_applet list \<Rightarrow> byte \<Rightarrow> fault + simpletlv_member list option" where
  "applet_members [] applet = Inr (Some [])"
| "applet_members (a # as) applet =
     (if applet \<noteq> 0 \<and> applet \<noteq> app_id a then applet_members as applet
      else (case acr_applet_encode a of
          Inl f \<Rightarrow> Inl f
        | Inr None \<Rightarrow> Inr None
        | Inr (Some v) \<Rightarrow> (case applet_members as applet of
            Inr (Some r) \<Rightarrow> Inr (Some (TLV_LEAF CAC_ACR_APPLET_ACR v # r)) | other \<Rightarrow> other)))"

text \<open>\<open>cac_aca_get_applet_acr\<close> for one applet, or for all of them when no AID is given.\<close>

definition cac_aca_get_applet_acr ::
  "nat \<Rightarrow> bytes option \<Rightarrow> fault + simpletlv_member list option" where
  "cac_aca_get_applet_acr pki_applets wanted =
     (let num_applets = num_static_applets + pki_applets;
          applet = (case wanted of None \<Rightarrow> 0
                    | Some a \<Rightarrow> if a = [] then 0 else aid_to_applet_id pki_applets a) in
      if wanted \<noteq> None \<and> wanted \<noteq> Some [] \<and> applet = 0 then Inr None
      else (case applet_members (skip_unused pki_applets 0 acr_applets) applet of
          Inl f \<Rightarrow> Inl f
        | Inr None \<Rightarrow> Inr None
        | Inr (Some r) \<Rightarrow>
            Inr (Some ((if applet = 0 then [TLV_LEAF CAC_ACR_NUM_APPLETS [of_nat num_applets]]
                        else []) @ r))))"

section \<open>The responses\<close>

definition aca_properties :: "simpletlv_member list" where
  "aca_properties = [TLV_LEAF CAC_PROPERTIES_APPLET_INFORMATION [0x10, 0x02, 0x06, 0x02, 0x02]]"

text \<open>What the SimpleTLV responses have in common: the applet information in front, the encoding, and
  the general error when it fails.\<close>

definition aca_respond ::
  "('p, 's) VCard \<Rightarrow> nat \<Rightarrow> simpletlv_member list \<Rightarrow> VCardResponse \<times> ('p, 's) VCard" where
  "aca_respond vcard Le members =
     (case simpletlv_encode (simpletlv_merge aca_properties members) 0 of
        None \<Rightarrow> (vcard_make_response VCARD7816_STATUS_ERROR_GENERAL, vcard)
      | Some buf \<Rightarrow> vcard_response_new vcard buf Le VCARD7816_STATUS_SUCCESS)"

text \<open>The compressed forms. A buffer that is written past its end is \<open>Out_Of_Bounds\<close>.\<close>

definition acr_extended_entry :: "acr_entry \<Rightarrow> bytes" where
  "acr_extended_entry a =
     [if length (access_methods a) = 2 then 0x08 else 0x06, acrid a, acrtype a, acr_applet_id a] @
     concat (map (\<lambda>m. [provider_id m, keyIDOrReference m]) (access_methods a)) @
     (if length (access_methods a) = 0 then [0x00, 0x00] else []) @ [0x00]"

definition cac_aca_get_acr_response_extended ::
  "('p, 's) VCard \<Rightarrow> nat \<Rightarrow> fault + VCardResponse \<times> ('p, 's) VCard" where
  "cac_aca_get_acr_response_extended vcard Le =
     (let buffer_len = length acr_table * (7 + 2 * (MAX_ACCESS_METHODS - 1));
          buf = concat (map acr_extended_entry acr_table) in
      if list_ex (\<lambda>a. MAX_ACCESS_METHODS < length (access_methods a)) acr_table
      then Inl Assertion_Failure
      else if length buf > buffer_len then Inl Out_Of_Bounds
      else Inr (vcard_response_new vcard buf Le VCARD7816_STATUS_SUCCESS))"

definition cac_aca_get_acr_response_simpletlv ::
  "('p, 's) VCard \<Rightarrow> nat \<Rightarrow> byte option \<Rightarrow> VCardResponse \<times> ('p, 's) VCard" where
  "cac_aca_get_acr_response_simpletlv vcard Le wanted =
     (case cac_aca_get_acr wanted of
        None \<Rightarrow> (vcard_make_response VCARD7816_STATUS_ERROR_DATA_NOT_FOUND, vcard)
      | Some members \<Rightarrow> aca_respond vcard Le members)"

definition cac_aca_get_acr_response ::
  "('p, 's) VCard \<Rightarrow> nat \<Rightarrow> byte option \<Rightarrow> cac_format \<Rightarrow> fault + VCardResponse \<times> ('p, 's) VCard" where
  "cac_aca_get_acr_response vcard Le wanted fmt =
     (if fmt = CAC_FORMAT_SIMPLETLV
      then Inr (cac_aca_get_acr_response_simpletlv vcard Le wanted)
      else cac_aca_get_acr_response_extended vcard Le)"

definition cac_aca_get_applet_acr_response_simpletlv ::
  "('p, 's) VCard \<Rightarrow> nat \<Rightarrow> nat \<Rightarrow> bytes option \<Rightarrow> bytes option \<Rightarrow>
   fault + VCardResponse \<times> ('p, 's) VCard" where
  "cac_aca_get_applet_acr_response_simpletlv vcard Le pki_applets wanted coid =
     (case coid of
        Some c \<Rightarrow> (case cac_aca_get_applet_acr_coid pki_applets c of
            None \<Rightarrow> Inr (vcard_make_response VCARD7816_STATUS_ERROR_WRONG_PARAMETERS_IN_DATA, vcard)
          | Some m \<Rightarrow> Inr (aca_respond vcard Le [m]))
      | None \<Rightarrow> (case cac_aca_get_applet_acr pki_applets wanted of
            Inl f \<Rightarrow> Inl f
          | Inr None \<Rightarrow>
              (if wanted \<noteq> None \<and> wanted \<noteq> Some []
               then Inr (vcard_make_response VCARD7816_STATUS_ERROR_DATA_NOT_FOUND, vcard)
               else Inr (vcard_make_response VCARD7816_STATUS_ERROR_GENERAL, vcard))
          | Inr (Some members) \<Rightarrow> Inr (aca_respond vcard Le members)))"

text \<open>The loops of the compressed Applet/Object table. \<open>plen\<close> is not decremented for the length byte
  of an object, as in the code.\<close>

fun extended_objects :: "acr_object list \<Rightarrow> nat \<Rightarrow> bytes \<Rightarrow> (bytes \<times> nat) option" where
  "extended_objects [] plen p = Some (p, plen)"
| "extended_objects (ob # obs) plen p =
     (case acr_applet_object_encode ob plen of
        None \<Rightarrow> None
      | Some enc \<Rightarrow> extended_objects obs (plen - length enc) (p @ of_nat (length enc) # enc))"

fun extended_applets :: "acr_applet list \<Rightarrow> nat \<Rightarrow> bytes \<Rightarrow> bytes option" where
  "extended_applets [] plen p = Some p"
| "extended_applets (a # as) plen p =
     (if plen < 3 then None
      else (case extended_objects (app_objects a) (plen - 3)
                   [app_id a, of_nat (length (app_objects a))] of
          None \<Rightarrow> None
        | Some (enc, plen) \<Rightarrow> extended_applets as plen (p @ of_nat (length enc) # enc)))"

text \<open>The null response of the failure branch is \<open>None\<close>.\<close>

definition cac_aca_get_applet_acr_response_extended ::
  "('p, 's) VCard \<Rightarrow> nat \<Rightarrow> nat \<Rightarrow> fault + VCardResponse option \<times> ('p, 's) VCard" where
  "cac_aca_get_applet_acr_response_extended vcard Le pki_applets =
     (let num_applets = num_static_applets + pki_applets;
          buffer_len = num_applets * (3 + ACR_MAX_APPLET_OBJECTS * (3 + ACR_MAX_INSTRUCTIONS * 6)) in
      case extended_applets (skip_unused pki_applets 0 acr_applets) buffer_len [] of
        None \<Rightarrow> Inr (None, vcard)
      | Some buf \<Rightarrow>
          if length buf > buffer_len then Inl Out_Of_Bounds
          else (case vcard_response_new vcard buf Le VCARD7816_STATUS_SUCCESS of
                  (r, vcard) \<Rightarrow> Inr (Some r, vcard)))"

definition cac_aca_get_applet_acr_response ::
  "('p, 's) VCard \<Rightarrow> nat \<Rightarrow> nat \<Rightarrow> bytes option \<Rightarrow> bytes option \<Rightarrow> cac_format \<Rightarrow>
   fault + VCardResponse option \<times> ('p, 's) VCard" where
  "cac_aca_get_applet_acr_response vcard Le pki_applets wanted coid fmt =
     (if fmt = CAC_FORMAT_SIMPLETLV then
        (case cac_aca_get_applet_acr_response_simpletlv vcard Le pki_applets wanted coid of
           Inl f \<Rightarrow> Inl f | Inr (r, vcard) \<Rightarrow> Inr (Some r, vcard))
      else cac_aca_get_applet_acr_response_extended vcard Le pki_applets)"

definition cac_aca_get_amp_response_simpletlv ::
  "('p, 's) VCard \<Rightarrow> nat \<Rightarrow> VCardResponse \<times> ('p, 's) VCard" where
  "cac_aca_get_amp_response_simpletlv vcard Le = aca_respond vcard Le cac_aca_get_amp"

definition cac_aca_get_amp_response ::
  "('p, 's) VCard \<Rightarrow> nat \<Rightarrow> cac_format \<Rightarrow> VCardResponse \<times> ('p, 's) VCard" where
  "cac_aca_get_amp_response vcard Le fmt =
     (if fmt = CAC_FORMAT_SIMPLETLV then cac_aca_get_amp_response_simpletlv vcard Le
      else vcard_response_new vcard amp_table_extended Le VCARD7816_STATUS_SUCCESS)"

definition MAX_AID_LEN :: nat where
  "MAX_AID_LEN = 7"

definition cac_aca_get_service_response_extended ::
  "('p, 's) VCard \<Rightarrow> nat \<Rightarrow> nat \<Rightarrow> fault + VCardResponse \<times> ('p, 's) VCard" where
  "cac_aca_get_service_response_extended vcard Le pki_applets =
     (let buffer_len = (service_num_static_entries + pki_applets) * (3 + MAX_AID_LEN);
          buf = concat (map (\<lambda>e. [applet_id e, 0, of_nat (length (applet_aid e))] @ applet_aid e)
                         (skip_unused pki_applets 0 service_entries)) in
      if length buf > buffer_len then Inl Out_Of_Bounds
      else Inr (vcard_response_new vcard buf Le VCARD7816_STATUS_SUCCESS))"

definition cac_aca_get_service_response_simpletlv ::
  "('p, 's) VCard \<Rightarrow> nat \<Rightarrow> nat \<Rightarrow> fault + VCardResponse \<times> ('p, 's) VCard" where
  "cac_aca_get_service_response_simpletlv vcard Le pki_applets =
     (case cac_aca_get_service_table pki_applets of
        Inl f \<Rightarrow> Inl f | Inr service \<Rightarrow> Inr (aca_respond vcard Le service))"

definition cac_aca_get_service_response ::
  "('p, 's) VCard \<Rightarrow> nat \<Rightarrow> nat \<Rightarrow> cac_format \<Rightarrow> fault + VCardResponse \<times> ('p, 's) VCard" where
  "cac_aca_get_service_response vcard Le pki_applets fmt =
     (if fmt = CAC_FORMAT_SIMPLETLV
      then cac_aca_get_service_response_simpletlv vcard Le pki_applets
      else cac_aca_get_service_response_extended vcard Le pki_applets)"

section \<open>The encoding of objects and applets\<close>

text \<open>The images without buffers: an instruction, an object, an applet.\<close>

definition ins_image :: "cac_ins \<Rightarrow> bytes" where
  "ins_image x = [ins_code x, ins_config x] @
     (if ins_config x AND ACR_INS_CONFIG_P1 \<noteq> 0 then [ins_p1 x] else []) @
     (if ins_config x AND ACR_INS_CONFIG_P2 \<noteq> 0 then [ins_p2 x] else []) @
     (if ins_config x AND ACR_INS_CONFIG_DATA1 \<noteq> 0 then [ins_data1 x] else []) @ [ins_acrid x]"

definition object_image :: "acr_object \<Rightarrow> bytes" where
  "object_image ob = [fst (obj_id ob), snd (obj_id ob)] @ concat (map ins_image (obj_ins ob))"

definition applet_image :: "acr_applet \<Rightarrow> bytes" where
  "applet_image a = [app_id a, of_nat (length (app_objects a))] @
     concat (map (\<lambda>ob. [CAC_ACR_OBJECT_ACR, of_nat (length (object_image ob))] @ object_image ob)
              (app_objects a))"

lemma length_ins_image: "length (ins_image x) = ins_length x"
  by (simp add: ins_image_def ins_length_def)

lemma ins_length_bounds: "3 \<le> ins_length x" "ins_length x \<le> 6"
  by (simp_all add: ins_length_def)

lemma length_object_image: "length (object_image ob) = 2 + sum_list (map ins_length (obj_ins ob))"
  by (simp add: object_image_def length_concat comp_def length_ins_image)

lemma ins_encode_eq:
  "ins_encode x outlen p =
     (if outlen < ins_length x then None else Some (outlen - ins_length x, p @ ins_image x))"
  by (auto simp: ins_encode_def ins_length_def ins_image_def Let_def)

lemma object_encode_loop_eq:
  "object_encode_loop xs outlen p =
     (if sum_list (map ins_length xs) \<le> outlen then Some (p @ concat (map ins_image xs)) else None)"
  by (induction xs arbitrary: outlen p) (auto simp: ins_encode_eq)

lemma object_encode_eq:
  "acr_applet_object_encode ob outlen =
     (if length (object_image ob) \<le> outlen then Some (object_image ob) else None)"
  unfolding acr_applet_object_encode_def object_encode_loop_eq length_object_image
  by (auto simp: object_image_def)

lemma applet_encode_loop_eq:
  "(\<Sum>ob\<leftarrow>obs. 2 + length (object_image ob)) \<le> plen \<Longrightarrow>
   applet_encode_loop obs plen p =
     Some (p @ concat (map (\<lambda>ob. [CAC_ACR_OBJECT_ACR, of_nat (length (object_image ob))] @
                              object_image ob) obs))"
proof (induction obs arbitrary: plen p)
  case (Cons ob obs)
  then show ?case
    using Cons.IH [of "plen - 2 - length (object_image ob)"] by (simp add: object_encode_eq)
qed simp

lemma applet_buffer_len_eq:
  "applet_buffer_len a = 2 + (\<Sum>ob\<leftarrow>app_objects a. 2 + length (object_image ob))"
  by (simp add: applet_buffer_len_def length_object_image numeral_eq_Suc)

lemma length_applet_image: "length (applet_image a) = applet_buffer_len a"
  by (simp add: applet_image_def applet_buffer_len_eq length_concat comp_def)

lemma applet_encode_eq: "acr_applet_encode a = Inr (Some (applet_image a))"
  using length_applet_image [of a]
  by (simp add: acr_applet_encode_def applet_encode_loop_eq applet_buffer_len_eq applet_image_def)

lemma applet_members_eq:
  "applet_members as i =
     Inr (Some (map (\<lambda>a. TLV_LEAF CAC_ACR_APPLET_ACR (applet_image a))
                 (filter (\<lambda>a. i = 0 \<or> i = app_id a) as)))"
  by (induction as) (auto simp: applet_encode_eq)

section \<open>Bounds of the tables\<close>

text \<open>Every applet has at most five objects of at most five instructions.\<close>

definition small_applet :: "acr_applet \<Rightarrow> bool" where
  "small_applet a \<longleftrightarrow> length (app_objects a) \<le> ACR_MAX_APPLET_OBJECTS \<and>
     list_all (\<lambda>ob. length (obj_ins ob) \<le> ACR_MAX_INSTRUCTIONS) (app_objects a)"

lemma acr_applets_small: "list_all small_applet acr_applets"
  by (simp add: acr_applets_def pki_acr_applets_def pki_acr_applet_def static_acr_applets_def
      small_applet_def common_object_def buffers_object_def)

lemma sum_list_le: "(\<And>x. x \<in> set xs \<Longrightarrow> f x \<le> b) \<Longrightarrow> sum_list (map f xs) \<le> length xs * (b :: nat)"
  by (induction xs) (auto intro: add_mono)

lemma small_object_image:
  "length (obj_ins ob) \<le> ACR_MAX_INSTRUCTIONS \<Longrightarrow> length (object_image ob) \<le> 32"
  using sum_list_le [of "obj_ins ob" ins_length 6] ins_length_bounds
  by (simp add: length_object_image)

lemma small_applet_sum:
  assumes "small_applet a"
  shows "(\<Sum>ob\<leftarrow>app_objects a. 1 + length (object_image ob)) \<le> 165"
proof -
  have "(\<Sum>ob\<leftarrow>app_objects a. 1 + length (object_image ob)) \<le> length (app_objects a) * 33"
    using assms small_object_image
    by (intro sum_list_le) (fastforce simp: small_applet_def list_all_iff)
  also have "\<dots> \<le> 5 * 33" using assms by (simp add: small_applet_def)
  finally show ?thesis by simp
qed

lemma set_skip_unused: "set (skip_unused pki i xs) \<subseteq> set xs"
  by (induction xs arbitrary: i) auto

lemma skip_unused_all: "list_all P xs \<Longrightarrow> list_all P (skip_unused pki i xs)"
  using set_skip_unused [of pki i xs] by (auto simp: list_all_iff)

lemma upto_ten: "(n :: nat) \<le> 10 \<Longrightarrow> n \<in> {0, 1, 2, 3, 4, 5, 6, 7, 8, 9, 10}"
  unfolding insert_iff empty_iff by arith

text \<open>The identifiers in the two tables, to count with.\<close>

lemma skip_unused_map: "map f (skip_unused pki i xs) = skip_unused pki i (map f xs)"
  by (induction xs arbitrary: i) auto

lemma table_ids:
  "map app_id acr_applets =
     [0x61, 0x62, 0x63, 0x64, 0x65, 0x66, 0x67, 0x68, 0x69, 0x6a, 0x1f, 0xf4, 0x4b, 0x41, 0x42,
      0x40, 0x4e, 0x4d, 0x50, 0x51, 0x52, 0x44, 0x45]"
  "map applet_id service_entries =
     [0x61, 0x62, 0x63, 0x64, 0x65, 0x66, 0x67, 0x68, 0x69, 0x6a, 0x40, 0x4f, 0x4b, 0x41, 0x42,
      0x4e, 0x4d, 0x50, 0x51, 0x52, 0x44, 0x45]"
  by (simp_all add: acr_applets_def pki_acr_applets_def pki_acr_applet_def static_acr_applets_def
      service_entries_def)

lemma length_skip_ids:
  "length (skip_unused pki 0 acr_applets) = length (skip_unused pki 0 (map app_id acr_applets))"
  "length (skip_unused pki 0 service_entries) = length (skip_unused pki 0 (map applet_id service_entries))"
  by (simp_all flip: skip_unused_map)

lemma length_skip_tables:
  assumes "pki \<le> 10"
  shows "length (skip_unused pki 0 acr_applets) = num_static_applets + pki"
    "length (skip_unused pki 0 service_entries) = service_num_static_entries + pki"
  unfolding length_skip_ids table_ids
  using upto_ten [OF assms]
  by (elim insertE emptyE, simp_all add: num_static_applets_def service_num_static_entries_def)+

lemma extended_objects_eq:
  "(\<Sum>ob\<leftarrow>obs. length (object_image ob)) \<le> plen \<Longrightarrow>
   extended_objects obs plen p =
     Some (p @ concat (map (\<lambda>ob. of_nat (length (object_image ob)) # object_image ob) obs),
           plen - (\<Sum>ob\<leftarrow>obs. length (object_image ob)))"
proof (induction obs arbitrary: plen p)
  case (Cons ob obs)
  then show ?case
    using Cons.IH [of "plen - length (object_image ob)"] by (simp add: object_encode_eq)
qed simp

definition extended_applet_image :: "acr_applet \<Rightarrow> bytes" where
  "extended_applet_image a =
     (let body = [app_id a, of_nat (length (app_objects a))] @
        concat (map (\<lambda>ob. of_nat (length (object_image ob)) # object_image ob) (app_objects a))
      in of_nat (length body) # body)"

lemma sum_list_mono_fun:
  "(\<And>x. f x \<le> (g x :: nat)) \<Longrightarrow> sum_list (map f xs) \<le> sum_list (map g xs)"
  by (induction xs) (auto intro: add_mono)

lemma length_extended_applet_image:
  "small_applet a \<Longrightarrow> length (extended_applet_image a) \<le> 168"
  using small_applet_sum [of a]
  by (simp add: extended_applet_image_def Let_def length_concat comp_def)

lemma extended_applets_eq:
  "list_all small_applet as \<Longrightarrow> length as * 168 \<le> plen \<Longrightarrow>
   extended_applets as plen p = Some (p @ concat (map extended_applet_image as))"
proof (induction as arbitrary: plen p)
  case (Cons a as)
  let ?s = "\<Sum>ob\<leftarrow>app_objects a. length (object_image ob)"
  have s: "?s \<le> 165"
    using small_applet_sum [of a] Cons.prems(1)
      sum_list_mono_fun [of "\<lambda>ob. length (object_image ob)" "\<lambda>ob. 1 + length (object_image ob)"
        "app_objects a"]
    by simp
  then have "length as * 168 \<le> plen - 3 - ?s" using Cons.prems(2) by simp
  with Cons s show ?case
    by (simp add: extended_objects_eq extended_applet_image_def Let_def)
qed simp

section \<open>The responses keep the contract\<close>

lemma aca_respond_replies:
  "aca_respond vcard Le ms = (r, vcard') \<Longrightarrow> replies vcard Le r vcard'"
  by (auto simp: aca_respond_def intro: wf_intros split: option.splits)

lemma acr_response_replies:
  "\<exists>r vcard'. cac_aca_get_acr_response vcard Le wanted fmt = Inr (r, vcard') \<and>
    replies vcard Le r vcard'"
proof (cases "fmt = CAC_FORMAT_SIMPLETLV")
  case True
  obtain r vcard' where
    r: "cac_aca_get_acr_response_simpletlv vcard Le wanted = (r, vcard')" by fastforce
  then have "replies vcard Le r vcard'"
    by (auto simp: cac_aca_get_acr_response_simpletlv_def intro: wf_intros aca_respond_replies
        split: option.splits)
  with r True show ?thesis by (simp add: cac_aca_get_acr_response_def)
next
  case False
  have "length (concat (map acr_extended_entry acr_table)) \<le>
      length acr_table * (7 + 2 * (MAX_ACCESS_METHODS - 1)) \<and>
      \<not> list_ex (\<lambda>a. MAX_ACCESS_METHODS < length (access_methods a)) acr_table"
    by (simp add: acr_table_def acr_def acr_extended_entry_def MAX_ACCESS_METHODS_def)
  then have "cac_aca_get_acr_response_extended vcard Le =
      Inr (vcard_response_new vcard (concat (map acr_extended_entry acr_table)) Le
             VCARD7816_STATUS_SUCCESS)"
    by (simp add: cac_aca_get_acr_response_extended_def Let_def)
  then show ?thesis
    using False replies_new(1) [of vcard "concat (map acr_extended_entry acr_table)" Le]
    by (cases "vcard_response_new vcard (concat (map acr_extended_entry acr_table)) Le
        VCARD7816_STATUS_SUCCESS") (auto simp: cac_aca_get_acr_response_def)
qed

lemma applet_acr_eq:
  "cac_aca_get_applet_acr pki wanted =
     (let i = (case wanted of None \<Rightarrow> 0 | Some a \<Rightarrow> if a = [] then 0 else aid_to_applet_id pki a) in
      if wanted \<noteq> None \<and> wanted \<noteq> Some [] \<and> i = 0 then Inr None
      else Inr (Some ((if i = 0 then [TLV_LEAF CAC_ACR_NUM_APPLETS [of_nat (num_static_applets + pki)]]
                       else []) @
        map (\<lambda>a. TLV_LEAF CAC_ACR_APPLET_ACR (applet_image a))
          (filter (\<lambda>a. i = 0 \<or> i = app_id a) (skip_unused pki 0 acr_applets)))))"
  by (simp add: cac_aca_get_applet_acr_def applet_members_eq Let_def)

lemma extended_applet_acr:
  assumes "pki \<le> 10"
  shows "cac_aca_get_applet_acr_response_extended vcard Le pki =
    (case vcard_response_new vcard
        (concat (map extended_applet_image (skip_unused pki 0 acr_applets))) Le
        VCARD7816_STATUS_SUCCESS of (r, vcard') \<Rightarrow> Inr (Some r, vcard'))"
proof -
  let ?as = "skip_unused pki 0 acr_applets"
  have small: "list_all small_applet ?as" by (rule skip_unused_all [OF acr_applets_small])
  have "length (concat (map extended_applet_image ?as)) \<le> length ?as * 168"
    unfolding length_concat map_map
    using small length_extended_applet_image
    by (intro sum_list_le) (auto simp: list_all_iff comp_def)
  then show ?thesis
    using small length_skip_tables(1) [OF assms]
    by (simp add: cac_aca_get_applet_acr_response_extended_def extended_applets_eq Let_def)
qed

lemma applet_acr_response_replies:
  assumes "pki \<le> 10"
  shows "\<exists>r vcard'. cac_aca_get_applet_acr_response vcard Le pki wanted coid fmt = Inr (Some r, vcard') \<and>
    replies vcard Le r vcard'"
proof (cases "fmt = CAC_FORMAT_SIMPLETLV")
  case True
  have "\<exists>r vcard'. cac_aca_get_applet_acr_response_simpletlv vcard Le pki wanted coid = Inr (r, vcard') \<and>
      replies vcard Le r vcard'"
    by (auto simp: cac_aca_get_applet_acr_response_simpletlv_def applet_acr_eq Let_def
        intro: wf_intros aca_respond_replies split: option.split)
      (metis aca_respond_replies surj_pair)+
  with True show ?thesis by (auto simp: cac_aca_get_applet_acr_response_def)
next
  case False
  then show ?thesis
    using replies_new(1) [of vcard _ Le]
    by (auto simp: cac_aca_get_applet_acr_response_def extended_applet_acr [OF assms]
        split: prod.split)
qed

lemma amp_response_replies:
  "cac_aca_get_amp_response vcard Le fmt = (r, vcard') \<Longrightarrow> replies vcard Le r vcard'"
  by (auto simp: cac_aca_get_amp_response_def cac_aca_get_amp_response_simpletlv_def
      intro: wf_intros aca_respond_replies split: if_splits)

lemma service_table_eq:
  "pki \<le> 10 \<Longrightarrow> cac_aca_get_service_table pki =
     Inr (TLV_LEAF CAC_ACR_SERVICE_NUM_ENTRIES [of_nat (service_num_static_entries + pki)]
          # map (service_member CAC_ACR_SERVICE_ENTRY) (skip_unused pki 0 service_entries))"
  by (simp add: cac_aca_get_service_table_def length_skip_tables Let_def)

definition service_image :: "applet_entry \<Rightarrow> bytes" where
  "service_image e = [applet_id e, 0, of_nat (length (applet_aid e))] @ applet_aid e"

lemma service_aids: "list_all (\<lambda>e. length (applet_aid e) = MAX_AID_LEN) service_entries"
  by (simp add: service_entries_def MAX_AID_LEN_def)

lemma extended_service:
  assumes "pki \<le> 10"
  shows "cac_aca_get_service_response_extended vcard Le pki =
    Inr (vcard_response_new vcard
      (concat (map service_image (skip_unused pki 0 service_entries))) Le VCARD7816_STATUS_SUCCESS)"
proof -
  let ?es = "skip_unused pki 0 service_entries"
  have "length (concat (map service_image ?es)) \<le> length ?es * (3 + MAX_AID_LEN)"
    unfolding length_concat map_map
    using skip_unused_all [OF service_aids, of pki 0]
    by (intro sum_list_le) (auto simp: list_all_iff service_image_def)
  then show ?thesis
    by (simp add: cac_aca_get_service_response_extended_def length_skip_tables [OF assms] Let_def
        service_image_def [abs_def])
qed

lemma service_response_replies:
  assumes "pki \<le> 10"
  shows "\<exists>r vcard'. cac_aca_get_service_response vcard Le pki fmt = Inr (r, vcard') \<and>
    replies vcard Le r vcard'"
proof -
  obtain r1 v1 where 1: "aca_respond vcard Le
      (TLV_LEAF CAC_ACR_SERVICE_NUM_ENTRIES [of_nat (service_num_static_entries + pki)]
          # map (service_member CAC_ACR_SERVICE_ENTRY) (skip_unused pki 0 service_entries)) =
      (r1, v1)" by fastforce
  obtain r2 v2 where 2: "vcard_response_new vcard
      (concat (map service_image (skip_unused pki 0 service_entries))) Le VCARD7816_STATUS_SUCCESS =
      (r2, v2)" by fastforce
  show ?thesis
    using 1 2 aca_respond_replies [OF 1] replies_new(1) [OF 2]
    by (cases fmt) (simp_all add: cac_aca_get_service_response_def
        cac_aca_get_service_response_simpletlv_def service_table_eq [OF assms]
        extended_service [OF assms])
qed

section \<open>Lookups\<close>

lemma find_applet_id_eq:
  "distinct (map applet_aid es) \<Longrightarrow> e \<in> set es \<Longrightarrow> find_applet_id es (applet_aid e) = applet_id e"
proof (induction es)
  case (Cons a es)
  have "e \<in> set es \<Longrightarrow> applet_aid e \<noteq> applet_aid a"
    using Cons.prems(1) by (metis distinct.simps(2) image_eqI list.map(2) list.set_map)
  with Cons show ?case by auto
qed simp

lemma service_aids_distinct: "distinct (map applet_aid service_entries)"
  by (simp add: service_entries_def)

lemma distinct_skip: "distinct (map f xs) \<Longrightarrow> distinct (map f (skip_unused pki i xs))"
proof (induction xs arbitrary: i)
  case (Cons x xs)
  then have "f x \<notin> f ` set (skip_unused pki j xs)" for j
    using set_skip_unused [of pki j xs] by auto
  with Cons show ?case by auto
qed simp

lemma service_ids: "list_all (\<lambda>e. applet_id e \<noteq> 0 \<and> applet_aid e \<noteq> []) service_entries"
  by (simp add: service_entries_def)

lemma aid_lookup:
  assumes "e \<in> set (skip_unused pki 0 service_entries)"
  shows "aid_to_applet_id pki (applet_aid e) = applet_id e" "applet_id e \<noteq> 0" "applet_aid e \<noteq> []"
proof -
  show "aid_to_applet_id pki (applet_aid e) = applet_id e"
    unfolding aid_to_applet_id_def
    using assms by (intro find_applet_id_eq distinct_skip service_aids_distinct)
  show "applet_id e \<noteq> 0" "applet_aid e \<noteq> []"
    using skip_unused_all [OF service_ids, of pki 0] assms by (auto simp: list_all_iff)
qed

lemma count_ids: "length (filter (\<lambda>a. i = app_id a) as) = count_list (map app_id as) i"
  by (induction as) auto

lemma one_record_ids:
  assumes "pki \<le> 10"
  shows "list_all (\<lambda>i. count_list (skip_unused pki 0 (map app_id acr_applets)) i =
      (if i = 0x4f then 0 else 1)) (skip_unused pki 0 (map applet_id service_entries))"
  unfolding table_ids using upto_ten [OF assms] by (elim insertE emptyE; simp)

lemma one_record_each:
  assumes "pki \<le> 10"
  shows "list_all (\<lambda>e. length (filter (\<lambda>a. applet_id e = app_id a) (skip_unused pki 0 acr_applets)) =
      (if applet_id e = 0x4f then 0 else 1)) (skip_unused pki 0 service_entries)"
  using one_record_ids [OF assms]
  unfolding count_ids skip_unused_map [symmetric, where f = applet_id] skip_unused_map [where f = app_id]
  by (simp add: list_all_iff)

section \<open>Properties\<close>

text \<open>The two-pass encoder of an applet's access rules is its one-line specification: for every
  applet, whatever the configuration bits of its instructions, the computed length is exact, so
  the assertion at the end cannot fail and no write leaves the buffer.\<close>

theorem acr_applet_encode_correct:
  "acr_applet_encode a = Inr (Some (applet_image a)) \<and>
   length (applet_image a) = applet_buffer_len a \<and>
   acr_applet_object_encode ob outlen =
     (if length (object_image ob) \<le> outlen then Some (object_image ob) else None)"
  by (simp add: applet_encode_eq object_encode_eq length_applet_image)

text \<open>GET ACR with an access rule identifier returns the one entry of the table with that
  identifier, and an error exactly when the table has none.\<close>

theorem cac_aca_get_acr_by_id:
  "(case cac_aca_get_acr (Some i) of
      None \<Rightarrow> i \<notin> acrid ` set acr_table
    | Some ms \<Rightarrow> \<exists>v. ms = [TLV_LEAF CAC_ACR_ENTRY (i # v)] \<and> i \<in> acrid ` set acr_table)"
  by (simp add: cac_aca_get_acr_def acr_table_def acr_def acr_entry_bytes_def Let_def)

text \<open>GET ACR with the AID of an applet that the service table lists returns the access rules of
  that applet, one record, for every number of PKI applets. The container of the card
  capabilities is the exception: its identifier is \<open>0x4f\<close> in the service table and \<open>0xf4\<close> in the
  table of access rules, so asking for it succeeds with no record.\<close>

theorem applet_acr_by_aid:
  assumes "pki \<le> 10" and "e \<in> set (skip_unused pki 0 service_entries)"
  shows "\<exists>as. cac_aca_get_applet_acr pki (Some (applet_aid e)) =
      Inr (Some (map (\<lambda>a. TLV_LEAF CAC_ACR_APPLET_ACR (applet_image a)) as)) \<and>
    set as \<subseteq> set acr_applets \<and> (\<forall>a \<in> set as. app_id a = applet_id e) \<and>
    length as = (if applet_id e = 0x4f then 0 else 1)"
proof -
  let ?as = "filter (\<lambda>a. applet_id e = app_id a) (skip_unused pki 0 acr_applets)"
  have "cac_aca_get_applet_acr pki (Some (applet_aid e)) =
      Inr (Some (map (\<lambda>a. TLV_LEAF CAC_ACR_APPLET_ACR (applet_image a)) ?as))"
    using aid_lookup [OF assms(2)] by (simp add: applet_acr_eq Let_def)
  moreover have "length ?as = (if applet_id e = 0x4f then 0 else 1)"
    using one_record_each [OF assms(1)] assms(2) by (auto simp: list_all_iff)
  ultimately show ?thesis
    using set_skip_unused [of pki 0 acr_applets] by (intro exI [of _ ?as]) auto
qed

theorem applet_acr_by_aid_witness:
  "\<exists>as. cac_aca_get_applet_acr 1 (Some (applet_aid (ae 0x4f [0xa0, 0, 0, 0x01, 0x16, 0xdb, 0x00]))) =
      Inr (Some (map (\<lambda>a. TLV_LEAF CAC_ACR_APPLET_ACR (applet_image a)) as)) \<and>
    set as \<subseteq> set acr_applets \<and>
    (\<forall>a \<in> set as. app_id a = applet_id (ae 0x4f [0xa0, 0, 0, 0x01, 0x16, 0xdb, 0x00])) \<and>
    length as = (if applet_id (ae 0x4f [0xa0, 0, 0, 0x01, 0x16, 0xdb, 0x00]) = 0x4f then 0 else 1)"
  by (rule applet_acr_by_aid) (simp_all add: service_entries_def)

text \<open>The compressed service table lists every applet the card has, with its full AID: the
  response carries, in the order of the table, identifier and AID of each of the twelve static
  applets and of exactly the PKI applets in use.\<close>

theorem service_table_extended:
  assumes "pki \<le> 10"
  shows "\<exists>r vcard'. cac_aca_get_service_response vcard Le pki CAC_FORMAT_EXTENDED = Inr (r, vcard') \<and>
    responds_with vcard (concat (map (\<lambda>e. [applet_id e, 0, 7] @ applet_aid e)
      (skip_unused pki 0 service_entries))) Le r vcard'"
proof -
  let ?es = "skip_unused pki 0 service_entries"
  have eq: "map (\<lambda>e. [applet_id e, 0, 7] @ applet_aid e) ?es = map service_image ?es"
    using skip_unused_all [OF service_aids, of pki 0]
    by (auto simp: list_all_iff service_image_def MAX_AID_LEN_def)
  obtain r vcard' where
    new: "vcard_response_new vcard (concat (map service_image ?es)) Le VCARD7816_STATUS_SUCCESS =
      (r, vcard')" by fastforce
  have "cac_aca_get_service_response vcard Le pki CAC_FORMAT_EXTENDED = Inr (r, vcard')"
    by (simp add: cac_aca_get_service_response_def extended_service [OF assms] new)
  then show ?thesis
    unfolding eq using response_new_responds [OF new] by blast
qed

theorem service_table_extended_witness:
  "\<exists>r vcard'. cac_aca_get_service_response (vcard_new () :: (unit, unit) VCard) 256 2
      CAC_FORMAT_EXTENDED = Inr (r, vcard') \<and>
    responds_with (vcard_new ()) (concat (map (\<lambda>e. [applet_id e, 0, 7] @ applet_aid e)
      (skip_unused 2 0 service_entries))) 256 r vcard'"
  by (rule service_table_extended) simp

end
