(* ===== verification/Emul_NSS.thy ===== *)
theory Emul_NSS
  imports VCard
begin

text \<open>
  The card emulator on NSS, \<open>src/vcard_emul_nss.c\<close>: RSA with the key of a certificate, login,
  reset, data objects; and the answer to reset of \<open>src/vcardt.c\<close>.

  NSS itself is not part of the source. It is the parameter \<open>nss\<close>, a record of the functions the
  code calls on the state \<open>'s\<close> of the token in the slot of the card. What the code relies on is
  the predicate \<open>nss_ok\<close>.
\<close>

section \<open>NSS as a parameter\<close>

text \<open>The error codes of NSS the code names.\<close>

datatype sec_error =
  SEC_ERROR_TOKEN_NOT_LOGGED_IN | SEC_ERROR_BAD_DATA | SEC_ERROR_OUTPUT_LEN
| SEC_ERROR_INPUT_LEN | SEC_ERROR_INVALID_ARGS | SEC_ERROR_INVALID_ALGORITHM | SEC_ERROR_NO_KEY
| SEC_ERROR_INVALID_KEY | SEC_ERROR_DECRYPTION_DISALLOWED | SEC_ERROR_PKCS11_GENERAL_ERROR
| SEC_ERROR_NO_MEMORY | SEC_ERROR_OTHER int

text \<open>Handles of NSS objects.\<close>

type_synonym CERTCertificate = nat
type_synonym SECKEYPrivateKey = nat

text \<open>
  Each of the three RSA operations gets the key, the capacity of the output buffer and the input,
  and returns what \<open>PORT_GetError\<close> says or the output. \<open>FindGenericObjects_data\<close> gives, for each
  data object of the token, what reading its attributes \<open>CKA_LABEL\<close> and \<open>CKA_VALUE\<close> returns.
\<close>

record 's nss =
  PK11_NeedLogin :: "'s \<Rightarrow> bool"
  PK11_IsLoggedIn :: "'s \<Rightarrow> bool"
  PK11_Logout :: "'s \<Rightarrow> 's"
  PK11_Authenticate :: "bytes \<Rightarrow> 's \<Rightarrow> bool \<times> 's"
  PK11_FindPrivateKeyFromCert :: "CERTCertificate \<Rightarrow> 's \<Rightarrow> SECKEYPrivateKey option"
  PublicKeyStrengthInBits :: "CERTCertificate \<Rightarrow> int option"
  PK11_SignatureLen :: "SECKEYPrivateKey \<Rightarrow> nat"
  PK11_DoesMechanism_RSA_X_509 :: "'s \<Rightarrow> bool"
  PK11_PrivDecryptRaw :: "SECKEYPrivateKey \<Rightarrow> nat \<Rightarrow> bytes \<Rightarrow> 's \<Rightarrow> (sec_error + bytes) \<times> 's"
  PK11_Sign :: "SECKEYPrivateKey \<Rightarrow> nat \<Rightarrow> bytes \<Rightarrow> 's \<Rightarrow> (sec_error + bytes) \<times> 's"
  PK11_PrivDecryptPKCS1 :: "SECKEYPrivateKey \<Rightarrow> nat \<Rightarrow> bytes \<Rightarrow> 's \<Rightarrow> (sec_error + bytes) \<times> 's"
  FindGenericObjects_data :: "'s \<Rightarrow> (bytes option \<times> bytes option) list"
  nss_emul_init :: bool

text \<open>
  The documented behaviour the code relies on: an RSA modulus has at least two bytes, the raw
  operation and a signature have the length of the modulus, a decryption fits the output buffer.
\<close>

definition nss_ok :: "'s nss \<Rightarrow> bool" where
  "nss_ok nss \<longleftrightarrow>
     (\<forall>k. 2 \<le> PK11_SignatureLen nss k) \<and>
     (\<forall>k m x s out s'. PK11_PrivDecryptRaw nss k m x s = (Inr out, s') \<longrightarrow>
        length out = PK11_SignatureLen nss k) \<and>
     (\<forall>k m x s out s'. PK11_Sign nss k m x s = (Inr out, s') \<longrightarrow>
        length out = PK11_SignatureLen nss k) \<and>
     (\<forall>k m x s out s'. PK11_PrivDecryptPKCS1 nss k m x s = (Inr out, s') \<longrightarrow> length out \<le> m)"

section \<open>Keys\<close>

datatype VCardEmulTriState = VCardEmulUnknown | VCardEmulFalse | VCardEmulTrue

text \<open>The slot of the key is the slot of its card.\<close>

record VCardKey =
  key_cert :: CERTCertificate
  failedX509 :: VCardEmulTriState

definition vcard_emul_make_key :: "CERTCertificate \<Rightarrow> VCardKey" where
  "vcard_emul_make_key cert = \<lparr>key_cert = cert, failedX509 = VCardEmulUnknown\<rparr>"

definition vcard_emul_get_nss_key :: "'s nss \<Rightarrow> VCardKey \<Rightarrow> 's \<Rightarrow> SECKEYPrivateKey option" where
  "vcard_emul_get_nss_key nss key s = PK11_FindPrivateKeyFromCert nss (key_cert key) s"

fun vcard_emul_map_error :: "sec_error \<Rightarrow> sw16" where
  "vcard_emul_map_error SEC_ERROR_TOKEN_NOT_LOGGED_IN = VCARD7816_STATUS_ERROR_CONDITION_NOT_SATISFIED"
| "vcard_emul_map_error SEC_ERROR_BAD_DATA = VCARD7816_STATUS_ERROR_DATA_INVALID"
| "vcard_emul_map_error SEC_ERROR_OUTPUT_LEN = VCARD7816_STATUS_ERROR_DATA_INVALID"
| "vcard_emul_map_error SEC_ERROR_INPUT_LEN = VCARD7816_STATUS_ERROR_DATA_INVALID"
| "vcard_emul_map_error SEC_ERROR_INVALID_ARGS = VCARD7816_STATUS_ERROR_DATA_INVALID"
| "vcard_emul_map_error SEC_ERROR_INVALID_ALGORITHM = VCARD7816_STATUS_ERROR_DATA_INVALID"
| "vcard_emul_map_error SEC_ERROR_NO_KEY = VCARD7816_STATUS_ERROR_DATA_INVALID"
| "vcard_emul_map_error SEC_ERROR_INVALID_KEY = VCARD7816_STATUS_ERROR_DATA_INVALID"
| "vcard_emul_map_error SEC_ERROR_DECRYPTION_DISALLOWED = VCARD7816_STATUS_ERROR_DATA_INVALID"
| "vcard_emul_map_error SEC_ERROR_PKCS11_GENERAL_ERROR = VCARD7816_STATUS_ERROR_DATA_INVALID"
| "vcard_emul_map_error SEC_ERROR_NO_MEMORY = VCARD7816_STATUS_EXC_ERROR_MEMORY_FAILURE"
| "vcard_emul_map_error (SEC_ERROR_OTHER e) = VCARD7816_STATUS_EXC_ERROR_CHANGE"

text \<open>-1 without a key or when its public key cannot be extracted.\<close>

definition vcard_emul_rsa_bits :: "'s nss \<Rightarrow> VCardKey option \<Rightarrow> int" where
  "vcard_emul_rsa_bits nss key =
     (case key of None \<Rightarrow> -1
      | Some k \<Rightarrow> (case PublicKeyStrengthInBits nss (key_cert k) of None \<Rightarrow> -1 | Some bits \<Rightarrow> bits))"

section \<open>The RSA operation\<close>

text \<open>The loop over the padding of a PKCS #1 signature: the index of the first byte that is not
  \<open>0xff\<close>, from the index \<open>i\<close> on.\<close>

function pad_end :: "bytes \<Rightarrow> nat \<Rightarrow> nat" where
  "pad_end buf i = (if i < length buf then (if buf ! i \<noteq> 0xff then i else pad_end buf (i + 1)) else i)"
  by pat_completeness auto
termination by (relation "measure (\<lambda>(buf, i). length buf - i)") auto

declare pad_end.simps [simp del]

text \<open>
  The decryption of a token without the raw operation, packaged as a PKCS #1 block of the length of
  the buffer: \<open>0 || 2 || pad || 0 || data\<close>.
\<close>

definition package_pkcs1 :: "nat \<Rightarrow> bytes \<Rightarrow> bytes" where
  "package_pkcs1 n out =
     (let pad_len = n - length out - 3
      in [0, 2] @ replicate pad_len 3 @ [0] @ out)"

text \<open>The part of \<open>vcard_emul_rsa_op\<close> after the raw operation was not tried or failed: signing with
  PKCS #1 when the buffer is a padded signature, else decrypting.\<close>

definition rsa_op_pkcs1 ::
  "'s nss \<Rightarrow> SECKEYPrivateKey \<Rightarrow> VCardKey \<Rightarrow> bytes \<Rightarrow> 's \<Rightarrow>
   fault + sw16 \<times> bytes \<times> VCardKey \<times> 's" where
  "rsa_op_pkcs1 nss priv key buf s =
     (let n = length buf; i = pad_end buf 2 in
      if n = 0 \<or> (buf ! 0 = 0 \<and> n = 1) then Inl Out_Of_Bounds
      else if buf ! 0 = 0 \<and> buf ! 1 = 1 \<and> i < n \<and> buf ! i = 0 then
        (case PK11_Sign nss priv (PK11_SignatureLen nss priv) (drop (i + 1) buf) s of
          (Inl e, s) \<Rightarrow> Inr (vcard_emul_map_error e, buf, key, s)
        | (Inr signature, s) \<Rightarrow>
            if length signature \<noteq> n then Inl Assertion_Failure
            else Inr (VCARD7816_STATUS_SUCCESS, signature, key\<lparr>failedX509 := VCardEmulTrue\<rparr>, s))
      else
        (case PK11_PrivDecryptPKCS1 nss priv n buf s of
          (Inl e, s) \<Rightarrow> Inr (vcard_emul_map_error e, buf, key, s)
        | (Inr out, s) \<Rightarrow>
            if n - length out < 4 then Inr (VCARD7816_STATUS_ERROR_GENERAL, buf, key, s)
            else Inr (VCARD7816_STATUS_SUCCESS, package_pkcs1 n out,
                      key\<lparr>failedX509 := VCardEmulTrue\<rparr>, s)))"

text \<open>\<open>vcard_emul_rsa_op\<close>: the status, the buffer (the result is stored in place), the key and the
  token.\<close>

definition vcard_emul_rsa_op ::
  "'s nss \<Rightarrow> VCardKey option \<Rightarrow> bytes \<Rightarrow> 's \<Rightarrow>
   fault + sw16 \<times> bytes \<times> VCardKey option \<times> 's" where
  "vcard_emul_rsa_op nss key buf s =
     (case key of
       None \<Rightarrow> Inr (VCARD7816_STATUS_ERROR_CONDITION_NOT_SATISFIED, buf, key, s)
     | Some k \<Rightarrow>
      (if \<not> nss_emul_init nss then
         Inr (VCARD7816_STATUS_ERROR_CONDITION_NOT_SATISFIED, buf, key, s)
       else (case vcard_emul_get_nss_key nss k s of
         None \<Rightarrow> Inr (VCARD7816_STATUS_ERROR_CONDITION_NOT_SATISFIED, buf, key, s)
       | Some priv_key \<Rightarrow>
        (let signature_len = PK11_SignatureLen nss priv_key;
             emulate = (\<lambda>s. case rsa_op_pkcs1 nss priv_key k buf s of
                          Inl f \<Rightarrow> Inl f | Inr (st, b, k, s) \<Rightarrow> Inr (st, b, Some k, s)) in
         if length buf \<noteq> signature_len then
           Inr (VCARD7816_STATUS_ERROR_DATA_INVALID, buf, key, s)
         else if failedX509 k \<noteq> VCardEmulTrue \<and> PK11_DoesMechanism_RSA_X_509 nss s then
           (case PK11_PrivDecryptRaw nss priv_key signature_len buf s of
             (Inr out, s) \<Rightarrow>
               if length buf \<noteq> length out then Inl Assertion_Failure
               else Inr (VCARD7816_STATUS_SUCCESS, out,
                         Some (k\<lparr>failedX509 := VCardEmulFalse\<rparr>), s)
           | (Inl e, s) \<Rightarrow>
               if failedX509 k = VCardEmulFalse then Inr (vcard_emul_map_error e, buf, key, s)
               else emulate s)
         else emulate s))))"

section \<open>Login\<close>

definition vcard_emul_get_login_count :: "('p, 's) VCard \<Rightarrow> int" where
  "vcard_emul_get_login_count vcard = -1"

definition vcard_emul_logout :: "'s nss \<Rightarrow> ('p, 's) VCard \<Rightarrow> ('p, 's) VCard" where
  "vcard_emul_logout nss vcard =
     (if \<not> nss_emul_init nss then vcard
      else if PK11_IsLoggedIn nss (vcard_private vcard)
      then vcard\<lparr>vcard_private := PK11_Logout nss (vcard_private vcard)\<rparr> else vcard)"

text \<open>The loop that clears the \<open>0xff\<close> bytes an expanded PIN ends in, from the index below \<open>n\<close> down.\<close>

fun clear_expanded :: "bytes \<Rightarrow> nat \<Rightarrow> bytes" where
  "clear_expanded pin 0 = pin"
| "clear_expanded pin (Suc i) = (if pin ! i = 0xff then clear_expanded (pin[i := 0]) i else pin)"

text \<open>The C string in a buffer: what is in front of the first zero byte.\<close>

definition c_string :: "bytes \<Rightarrow> bytes" where
  "c_string buf = takeWhile (\<lambda>b. b \<noteq> 0) buf"

text \<open>\<open>vcard_emul_login\<close>: the PIN is copied with a terminator, its padding cleared, the card logged
  out and authenticated with the C string.\<close>

definition vcard_emul_login :: "'s nss \<Rightarrow> ('p, 's) VCard \<Rightarrow> bytes \<Rightarrow> sw16 \<times> ('p, 's) VCard" where
  "vcard_emul_login nss vcard pin =
     (if \<not> nss_emul_init nss then (VCARD7816_STATUS_ERROR_CONDITION_NOT_SATISFIED, vcard)
      else (let pin_string = clear_expanded (pin @ [0]) (length pin);
                vcard = vcard_emul_logout nss vcard in
        (case PK11_Authenticate nss (c_string pin_string) (vcard_private vcard) of
          (ok, s) \<Rightarrow>
            (if ok then VCARD7816_STATUS_SUCCESS
             else VCARD7816_STATUS_ERROR_CONDITION_NOT_SATISFIED,
             vcard\<lparr>vcard_private := s\<rparr>))))"

text \<open>\<open>vcard_emul_is_logged_in\<close> returns an \<open>int\<close> that its caller reads as a truth value.\<close>

definition vcard_emul_is_logged_in :: "'s nss \<Rightarrow> ('p, 's) VCard \<Rightarrow> int" where
  "vcard_emul_is_logged_in nss vcard =
     (if \<not> nss_emul_init nss then uint VCARD7816_STATUS_ERROR_CONDITION_NOT_SATISFIED
      else if \<not> PK11_NeedLogin nss (vcard_private vcard) then 1
      else if PK11_IsLoggedIn nss (vcard_private vcard) then 1 else 0)"

definition vcard_emul_reset :: "'s nss \<Rightarrow> ('p, 's) VCard \<Rightarrow> VCardPower \<Rightarrow> ('p, 's) VCard" where
  "vcard_emul_reset nss vcard pwr = vcard_emul_logout nss vcard"

section \<open>Data objects\<close>

text \<open>
  The search of \<open>vcard_emul_read_object\<close>: the value of the first object with the label. It gives up
  at the first label it cannot read, and an empty value is a null pointer (\<open>g_memdup2\<close>).
\<close>

fun read_object_loop :: "(bytes option \<times> bytes option) list \<Rightarrow> bytes \<Rightarrow> bytes option" where
  "read_object_loop [] label = None"
| "read_object_loop ((l, v) # objs) label =
     (case l of None \<Rightarrow> None
      | Some l \<Rightarrow> if length label = length l \<and> label = l
          then (case v of None \<Rightarrow> None | Some v \<Rightarrow> if v = [] then None else Some v)
          else read_object_loop objs label)"

definition vcard_emul_read_object :: "'s nss \<Rightarrow> ('p, 's) VCard \<Rightarrow> bytes \<Rightarrow> bytes option" where
  "vcard_emul_read_object nss vcard label =
     read_object_loop (FindGenericObjects_data nss (vcard_private vcard)) label"

section \<open>The answer to reset\<close>

definition ascii :: "string \<Rightarrow> bytes" where
  "ascii s = map of_char s"

text \<open>\<open>vcard_alloc_atr\<close> with historical bytes \<open>VCARD_\<close> and the postfix; the sum in the second byte
  is truncated to a byte.\<close>

definition vcard_alloc_atr :: "bytes option \<Rightarrow> bytes" where
  "vcard_alloc_atr postfix =
     (let postfix = (case postfix of None \<Rightarrow> ascii ''DEFAULT'' | Some p \<Rightarrow> p);
          prefix = ascii ''VCARD_'' in
      [0x3b, 0x80 + of_nat (length prefix) + of_nat (length postfix), 0x00] @ prefix @ postfix)"

text \<open>\<open>vcard_emul_get_atr\<close> copies what fits the capacity \<open>atr_len\<close>.\<close>

definition vcard_emul_get_atr :: "nat \<Rightarrow> bytes" where
  "vcard_emul_get_atr atr_len = take atr_len (vcard_alloc_atr (Some (ascii ''NSS'')))"

section \<open>The padding loops\<close>

lemma pad_end_run:
  "length pre = i \<Longrightarrow> pad_end (pre @ replicate k 0xff @ rest) i = pad_end (pre @ replicate k 0xff @ rest) (i + k)"
proof (induction k arbitrary: pre i)
  case (Suc k)
  have "pad_end (pre @ replicate (Suc k) 0xff @ rest) i =
      pad_end ((pre @ [0xff]) @ replicate k 0xff @ rest) (i + 1)"
    using Suc.prems by (subst pad_end.simps) (simp add: nth_append)
  then show ?case using Suc.IH [of "pre @ [0xff]" "i + 1"] Suc.prems by simp
qed simp

lemma pad_end_stop: "i < length buf \<Longrightarrow> buf ! i \<noteq> 0xff \<Longrightarrow> pad_end buf i = i"
  by (simp add: pad_end.simps)

lemma pad_end_signature:
  "pad_end ([0, 1] @ replicate k 0xff @ 0 # hash) 2 = k + 2"
proof -
  have "pad_end ([0, 1] @ replicate k 0xff @ 0 # hash) 2 =
      pad_end ([0, 1] @ replicate k 0xff @ 0 # hash) (2 + k)"
    by (rule pad_end_run) simp
  also have "\<dots> = 2 + k"
    by (rule pad_end_stop) (simp_all add: nth_append)
  finally show ?thesis by simp
qed

text \<open>What the upper layer does with a decryption block: strip \<open>0 || 2\<close>, the padding up to the
  first zero and that zero.\<close>

definition unpad_pkcs1 :: "bytes \<Rightarrow> bytes option" where
  "unpad_pkcs1 block =
     (if take 2 block = [0, 2] \<and> dropWhile (\<lambda>b. b \<noteq> 0) (drop 2 block) \<noteq> []
      then Some (tl (dropWhile (\<lambda>b. b \<noteq> 0) (drop 2 block))) else None)"

lemma length_package: "length out + 3 \<le> n \<Longrightarrow> length (package_pkcs1 n out) = n"
  by (simp add: package_pkcs1_def Let_def)

lemma dropWhile_replicate: "x \<noteq> y \<Longrightarrow> dropWhile (\<lambda>b. b \<noteq> y) (replicate k x @ y # r) = y # r"
  by (induction k) auto

lemma unpad_package: "unpad_pkcs1 (package_pkcs1 n out) = Some out"
  by (simp add: unpad_pkcs1_def package_pkcs1_def Let_def dropWhile_replicate)

lemma clear_expanded_snoc:
  assumes "p = [] \<or> last p \<noteq> 0xff"
  shows "clear_expanded (p @ replicate k 0xff @ z) (length p + k) = p @ replicate k 0 @ z"
proof (induction k arbitrary: z)
  case 0
  then show ?case using assms
    by (cases p rule: rev_cases) (auto simp: nth_append)
next
  case (Suc k)
  have "clear_expanded (p @ replicate (Suc k) 0xff @ z) (length p + Suc k) =
      clear_expanded (p @ replicate k 0xff @ 0 # z) (length p + k)"
  proof -
    have "p @ replicate (Suc k) 0xff @ z = (p @ replicate k 0xff) @ 0xff # z"
      by (simp add: replicate_app_Cons_same)
    moreover have "((p @ replicate k 0xff) @ 0xff # z) ! (length p + k) = 0xff"
      by (simp add: nth_append)
    moreover have "((p @ replicate k 0xff) @ 0xff # z)[length p + k := 0] =
        p @ replicate k 0xff @ 0 # z"
      by (simp add: list_update_append)
    ultimately show ?thesis by simp
  qed
  also have "\<dots> = p @ replicate k 0 @ 0 # z"
    by (rule Suc.IH)
  finally show ?case by (simp add: replicate_app_Cons_same)
qed

lemma c_string_zeros: "c_string (p @ replicate k 0 @ [0]) = c_string p"
  by (induction p) (auto simp: c_string_def takeWhile_eq_Nil_iff hd_append)

lemma login_pin:
  assumes "p = [] \<or> last p \<noteq> 0xff"
  shows "c_string (clear_expanded ((p @ replicate k 0xff) @ [0]) (length (p @ replicate k 0xff))) =
    c_string p"
  using clear_expanded_snoc [OF assms, of k "[0]"] by (simp add: c_string_zeros)

section \<open>The RSA operation keeps its buffer\<close>

lemma nss_okD:
  assumes "nss_ok nss"
  shows "2 \<le> PK11_SignatureLen nss k"
    "PK11_PrivDecryptRaw nss k m x s = (Inr out, s') \<Longrightarrow> length out = PK11_SignatureLen nss k"
    "PK11_Sign nss k m x s = (Inr out, s') \<Longrightarrow> length out = PK11_SignatureLen nss k"
    "PK11_PrivDecryptPKCS1 nss k m x s = (Inr out, s') \<Longrightarrow> length out \<le> m"
  using assms unfolding nss_ok_def by blast+

lemma rsa_op_pkcs1_total:
  assumes "nss_ok nss" and "length buf = PK11_SignatureLen nss priv"
  shows "\<exists>st b k s'. rsa_op_pkcs1 nss priv key buf s = Inr (st, b, k, s') \<and> length b = length buf \<and>
    key_cert k = key_cert key"
proof -
  have two: "2 \<le> length buf" using nss_okD(1) [OF assms(1)] assms(2) by simp
  obtain r s1 where r: "PK11_Sign nss priv (length buf) (drop (pad_end buf 2 + 1) buf) s = (r, s1)"
    by (cases "PK11_Sign nss priv (length buf) (drop (pad_end buf 2 + 1) buf) s")
  obtain d s2 where d: "PK11_PrivDecryptPKCS1 nss priv (length buf) buf s = (d, s2)"
    by (cases "PK11_PrivDecryptPKCS1 nss priv (length buf) buf s")
  have sig: "r = Inr x \<Longrightarrow> length x = length buf" for x
    using nss_okD(3) [OF assms(1)] r assms(2) by metis
  have bounds: "\<not> (length buf = 0 \<or> (buf ! 0 = 0 \<and> length buf = 1))" using two by auto
  define C where "C \<longleftrightarrow> buf ! 0 = 0 \<and> buf ! 1 = 1 \<and> pad_end buf 2 < length buf \<and>
      buf ! pad_end buf 2 = 0"
  have op: "rsa_op_pkcs1 nss priv key buf s =
      (if C then (case (r, s1) of
          (Inl e, s) \<Rightarrow> Inr (vcard_emul_map_error e, buf, key, s)
        | (Inr signature, s) \<Rightarrow>
            if length signature \<noteq> length buf then Inl Assertion_Failure
            else Inr (VCARD7816_STATUS_SUCCESS, signature, key\<lparr>failedX509 := VCardEmulTrue\<rparr>, s))
       else (case (d, s2) of
          (Inl e, s) \<Rightarrow> Inr (vcard_emul_map_error e, buf, key, s)
        | (Inr out, s) \<Rightarrow>
            if length buf - length out < 4 then Inr (VCARD7816_STATUS_ERROR_GENERAL, buf, key, s)
            else Inr (VCARD7816_STATUS_SUCCESS, package_pkcs1 (length buf) out,
                      key\<lparr>failedX509 := VCardEmulTrue\<rparr>, s)))"
    unfolding rsa_op_pkcs1_def Let_def if_not_P [OF bounds] C_def assms(2) [symmetric] r d ..
  show ?thesis
    unfolding op by (cases C; cases r; cases d) (simp_all add: sig length_package)
qed

lemma rsa_op_total:
  assumes "nss_ok nss"
  shows "\<exists>st b k s'. vcard_emul_rsa_op nss key buf s = Inr (st, b, k, s') \<and>
    length b = length buf \<and> (k = None \<longleftrightarrow> key = None)"
proof (cases key)
  case None
  then show ?thesis by (simp add: vcard_emul_rsa_op_def)
next
  case (Some kk)
  have emu: "\<exists>st b k s'. (case rsa_op_pkcs1 nss priv kk buf s of
        Inl f \<Rightarrow> Inl f | Inr (st, b, k, s) \<Rightarrow> Inr (st, b, Some k, s)) = Inr (st, b, Some k, s') \<and>
      length b = length buf" if "length buf = PK11_SignatureLen nss priv" for priv s
    using rsa_op_pkcs1_total [OF assms that, of kk s] by auto
  have raw: "length out = PK11_SignatureLen nss priv"
    if "PK11_PrivDecryptRaw nss priv m x s = (Inr out, s')" for priv m x s out s'
    using nss_okD(2) [OF assms that] .
  show ?thesis
  proof (cases "vcard_emul_get_nss_key nss kk s")
    case None
    then show ?thesis using Some by (simp add: vcard_emul_rsa_op_def)
  next
    case priv: (Some priv)
    obtain r s' where r: "PK11_PrivDecryptRaw nss priv (PK11_SignatureLen nss priv) buf s = (r, s')"
      by (cases "PK11_PrivDecryptRaw nss priv (PK11_SignatureLen nss priv) buf s")
    show ?thesis
      using Some priv r raw [of priv "PK11_SignatureLen nss priv" buf s _ s'] emu [of priv s]
        emu [of priv s']
      by (cases r) (auto simp: vcard_emul_rsa_op_def Let_def)
  qed
qed

section \<open>A token to compute with\<close>

text \<open>
  A concrete token for examples: the state says whether it is logged in, the PIN is \<open>1234\<close>, the
  modulus has eight bytes, the raw operation reverses its input, a signature is the hash padded
  on the right, and a decryption is the last two bytes.
\<close>

definition demo_nss :: "bool nss" where
  "demo_nss =
     \<lparr>PK11_NeedLogin = (\<lambda>_. True), PK11_IsLoggedIn = (\<lambda>s. s), PK11_Logout = (\<lambda>_. False),
      PK11_Authenticate = (\<lambda>pin s. (pin = ascii ''1234'', pin = ascii ''1234'')),
      PK11_FindPrivateKeyFromCert = (\<lambda>cert s. if s then Some cert else None),
      PublicKeyStrengthInBits = (\<lambda>_. Some 64), PK11_SignatureLen = (\<lambda>_. 8),
      PK11_DoesMechanism_RSA_X_509 = (\<lambda>_. True),
      PK11_PrivDecryptRaw = (\<lambda>k m x s. (if length x = 8 then Inr (rev x)
                                         else Inl SEC_ERROR_INPUT_LEN, s)),
      PK11_Sign = (\<lambda>k m x s. (if length x \<le> 8 then Inr (x @ replicate (8 - length x) 0)
                               else Inl SEC_ERROR_INPUT_LEN, s)),
      PK11_PrivDecryptPKCS1 = (\<lambda>k m x s. (if length x = 8 \<and> 2 \<le> m then Inr (drop 6 x)
                               else Inl SEC_ERROR_INPUT_LEN, s)),
      FindGenericObjects_data = (\<lambda>_. [(Some (ascii ''Personnel''), Some [0x70, 2, 1, 2])]),
      nss_emul_init = True\<rparr>"

lemma demo_nss_ok: "nss_ok demo_nss"
  by (auto simp: nss_ok_def demo_nss_def split: if_splits)

lemma strip_padding: "\<exists>q j. p = q @ replicate j (x :: byte) \<and> (q = [] \<or> last q \<noteq> x)"
proof (induction p rule: rev_induct)
  case (snoc y p)
  show ?case
  proof (cases "y = x")
    case True
    obtain q j where q: "p = q @ replicate j x" "q = [] \<or> last q \<noteq> x"
      using snoc by blast
    have "p @ [y] = q @ replicate (Suc j) x"
      using q(1) True by (simp add: replicate_append_same)
    with q(2) show ?thesis by blast
  next
    case False
    then have "p @ [y] = (p @ [y]) @ replicate 0 x" "last (p @ [y]) \<noteq> x" by auto
    then show ?thesis by blast
  qed
qed (metis append_Nil replicate_0)

lemma c_string_expanded:
  "c_string (clear_expanded ((p @ replicate k 0xff) @ [0]) (length (p @ replicate k 0xff))) =
   c_string (clear_expanded (p @ [0]) (length p))"
proof -
  obtain q j where p: "p = q @ replicate j 0xff" and q: "q = [] \<or> last q \<noteq> (0xff :: byte)"
    using strip_padding [of p "0xff"] by blast
  have "p @ replicate k 0xff = q @ replicate (j + k) 0xff" by (simp add: p replicate_add)
  then show ?thesis
    using login_pin [where k = "j + k", OF q] login_pin [where k = j, OF q] by (simp add: p)
qed

section \<open>Properties\<close>



text \<open>On a token known not to do raw RSA, a buffer that is a PKCS #1 signature block is signed
  as the hash behind its padding, and the applet gets the signature of the token.\<close>

theorem vcard_emul_rsa_op_signs_hash:
  assumes "nss_emul_init nss" and "PK11_FindPrivateKeyFromCert nss (key_cert key) s = Some priv"
    and "failedX509 key = VCardEmulTrue"
    and "buf = [0, 1] @ replicate k 0xff @ 0 # hash" and "length buf = PK11_SignatureLen nss priv"
    and "PK11_Sign nss priv (length buf) hash s = (Inr signature, s')"
    and "length signature = length buf"
  shows "vcard_emul_rsa_op nss (Some key) buf s =
    Inr (VCARD7816_STATUS_SUCCESS, signature, Some key, s')"
proof -
  have "pad_end buf 2 = k + 2"
    using pad_end_signature [of k hash] assms(4) by simp
  moreover have "buf ! (k + 2) = 0" "k + 2 < length buf" "buf ! 0 = 0" "buf ! 1 = 1"
    using assms(4) by (simp_all add: nth_append)
  moreover have "drop (k + 3) buf = hash"
    using assms(4) by (simp add: numeral_3_eq_3 drop_Cons' )
  ultimately have "rsa_op_pkcs1 nss priv key buf s =
      Inr (VCARD7816_STATUS_SUCCESS, signature, key\<lparr>failedX509 := VCardEmulTrue\<rparr>, s')"
    using assms(6,7) assms(4) unfolding rsa_op_pkcs1_def
    by (simp add: Let_def numeral_3_eq_3 flip: assms(5))
  then show ?thesis
    using assms(1-3,5) by (simp add: vcard_emul_rsa_op_def vcard_emul_get_nss_key_def)
qed

theorem vcard_emul_rsa_op_signs_hash_witness:
  "vcard_emul_rsa_op demo_nss (Some \<lparr>key_cert = 7, failedX509 = VCardEmulTrue\<rparr>)
     [0, 1, 0xff, 0xff, 0, 5, 6, 7] True =
   Inr (VCARD7816_STATUS_SUCCESS, [5, 6, 7, 0, 0, 0, 0, 0],
        Some \<lparr>key_cert = 7, failedX509 = VCardEmulTrue\<rparr>, True)"
  by (rule vcard_emul_rsa_op_signs_hash [where priv = 7 and k = 2 and hash = "[5, 6, 7]"])
    (simp_all add: demo_nss_def numeral_eq_Suc)

text \<open>On a token known not to do raw RSA, a buffer that is no signature block is decrypted, and
  what the applet returns is a PKCS #1 block of the length of the modulus from which the client
  recovers exactly what the token decrypted.\<close>

theorem vcard_emul_rsa_op_decrypts:
  assumes "nss_emul_init nss" and "PK11_FindPrivateKeyFromCert nss (key_cert key) s = Some priv"
    and "failedX509 key = VCardEmulTrue"
    and "length buf = PK11_SignatureLen nss priv" and "2 \<le> length buf"
    and "take 2 buf \<noteq> [0, 1]"
    and "PK11_PrivDecryptPKCS1 nss priv (length buf) buf s = (Inr out, s')"
    and "length out + 4 \<le> length buf"
  shows "\<exists>block. vcard_emul_rsa_op nss (Some key) buf s =
      Inr (VCARD7816_STATUS_SUCCESS, block, Some key, s') \<and>
    length block = length buf \<and> unpad_pkcs1 block = Some out"
proof -
  have "\<not> (buf ! 0 = 0 \<and> buf ! 1 = 1)"
    using assms(5,6) by (cases buf rule: list.exhaust; cases "tl buf") auto
  then have "rsa_op_pkcs1 nss priv key buf s =
      Inr (VCARD7816_STATUS_SUCCESS, package_pkcs1 (length buf) out,
           key\<lparr>failedX509 := VCardEmulTrue\<rparr>, s')"
    using assms(5,7,8) unfolding rsa_op_pkcs1_def by (auto simp: Let_def)
  then have "vcard_emul_rsa_op nss (Some key) buf s =
      Inr (VCARD7816_STATUS_SUCCESS, package_pkcs1 (length buf) out, Some key, s')"
    using assms(1-4) by (simp add: vcard_emul_rsa_op_def vcard_emul_get_nss_key_def)
  then show ?thesis
    using assms(8) by (simp add: length_package unpad_package)
qed

theorem vcard_emul_rsa_op_decrypts_witness:
  "\<exists>block. vcard_emul_rsa_op demo_nss (Some \<lparr>key_cert = 7, failedX509 = VCardEmulTrue\<rparr>)
      [9, 9, 9, 9, 9, 9, 1, 2] True =
      Inr (VCARD7816_STATUS_SUCCESS, block, Some \<lparr>key_cert = 7, failedX509 = VCardEmulTrue\<rparr>, True) \<and>
    length block = length [9, 9, 9, 9, 9, 9, 1, 2 :: byte] \<and> unpad_pkcs1 block = Some [1, 2]"
  by (rule vcard_emul_rsa_op_decrypts [where priv = 7]) (simp_all add: demo_nss_def)

text \<open>CAC clients pad a PIN with \<open>0xff\<close> bytes. Any number of them makes no difference: the card
  is logged in with the same C string.\<close>

theorem vcard_emul_login_padding:
  "vcard_emul_login nss vcard (pin @ replicate k 0xff) = vcard_emul_login nss vcard pin"
  unfolding vcard_emul_login_def Let_def c_string_expanded ..

end
