(* ===== verification/Card_7816.thy ===== *)
theory Card_7816
  imports Emul_NSS
begin

text \<open>
  The ISO 7816 layer, the second half of \<open>src/card_7816.c\<close>: \<open>vcard_process_apdu\<close> and the commands
  of a VM card, and the two functions of \<open>src/vcard.c\<close> that call the emulator (\<open>vcard_reset\<close>,
  \<open>vcard_get_login_count\<close>).

  The applets are behind function pointers. What this layer needs of the functions is the locale
  \<open>applet_interface\<close>; it is interpreted on the applets of the code in \<open>Card_System\<close>.
\<close>

section \<open>Reset and login count\<close>

type_synonym ('p, 's) process_fn = "VCardProcessAPDU \<Rightarrow> VCardAPDU \<Rightarrow> ('p, 's) VCard \<Rightarrow> ('p, 's) VCard handled"
type_synonym ('p, 's) reset_fn = "VCardResetApplet \<Rightarrow> nat \<Rightarrow> ('p, 's) VCard \<Rightarrow> fault + ('p, 's) VCard"

definition vcard_get_login_count :: "('p, 's) VCard \<Rightarrow> int" where
  "vcard_get_login_count vcard =
     (let rv = vcard_emul_get_login_count vcard in
      if rv = -1 \<and> compat vcard AND VCARD_COMPAT_WINDOWS \<noteq> 0 then 3 else rv)"

text \<open>A direct card gets the last applet of the list selected and reset; its \<open>reset_applet\<close> is called
  without a check for the null pointer.\<close>

definition vcard_reset ::
  "'s nss \<Rightarrow> ('p, 's) reset_fn \<Rightarrow> ('p, 's) VCard \<Rightarrow> VCardPower \<Rightarrow> fault + ('p, 's) VCard" where
  "vcard_reset nss call_reset vcard pwr =
     (let applet = (if card_type vcard = VCARD_DIRECT \<and> applet_list vcard \<noteq> []
                    then Some (last (applet_list vcard)) else None);
          vcard = vcard\<lparr>current_applet := replicate MAX_CHANNEL applet\<rparr>;
          vcard = (case vcard_buffer_response vcard of None \<Rightarrow> vcard
                   | Some _ \<Rightarrow> vcard\<lparr>vcard_buffer_response := None\<rparr>);
          vcard = vcard_emul_reset nss vcard pwr in
      case applet of None \<Rightarrow> Inr vcard
      | Some a \<Rightarrow> (case reset_applet (applet_store vcard ! a) of
          None \<Rightarrow> Inl Null_Dereference | Some f \<Rightarrow> call_reset f 0 vcard))"

section \<open>The commands of a VM card\<close>

definition gp_aid :: bytes where
  "gp_aid = [0xa0, 0x00, 0x00, 0x00, 0x03, 0x00, 0x00]"

definition gp_response :: bytes where
  "gp_response =
     [0x6f, 0x19, 0x84, 0x08, 0xa0, 0x00, 0x00, 0x00, 0x03, 0x00, 0x00, 0x00, 0xa5, 0x0d, 0x9f, 0x6e,
      0x06, 0x12, 0x91, 0x51, 0x81, 0x01, 0x00, 0x9f, 0x65, 0x01, 0xff]"

text \<open>The template has room for an AID of 16 bytes: 22 bytes in all.\<close>

definition fci_template :: "bytes \<Rightarrow> bytes" where
  "fci_template wanted =
     [0x6f, of_nat (length wanted + 4), 0x84, of_nat (length wanted)] @ wanted @ [0xa5, 0x00]"

definition select_file ::
  "('p, 's) reset_fn \<Rightarrow> ('p, 's) VCard \<Rightarrow> VCardAPDU \<Rightarrow> fault + VCardResponse \<times> ('p, 's) VCard" where
  "select_file call_reset vcard apdu =
     (if a_p1 apdu \<noteq> 0x04 then
        Inr (vcard_make_response VCARD7816_STATUS_ERROR_FUNCTION_NOT_SUPPORTED, vcard)
      else (let applet = vcard_find_applet vcard (apdu_body apdu) in
        case vcard_select_applet call_reset vcard (a_channel apdu) applet of
          Inl f \<Rightarrow> Inl f
        | Inr vcard \<Rightarrow>
           (if applet = None then
              Inr (vcard_make_response VCARD7816_STATUS_ERROR_FILE_NOT_FOUND, vcard)
            else if applet = vcard_find_applet vcard gp_aid then
              Inr (vcard_response_new vcard gp_response (a_Le apdu) VCARD7816_STATUS_SUCCESS)
            else if 6 + a_Lc apdu > 22 then Inl Assertion_Failure
            else Inr (vcard_response_new vcard (fci_template (apdu_body apdu)) (a_Le apdu)
                        VCARD7816_STATUS_SUCCESS))))"

definition verify ::
  "'s nss \<Rightarrow> ('p, 's) VCard \<Rightarrow> VCardAPDU \<Rightarrow> VCardResponse \<times> ('p, 's) VCard" where
  "verify nss vcard apdu =
     (if a_p1 apdu \<noteq> 0x00 \<or> a_p2 apdu \<noteq> 0x00 then
        (vcard_make_response VCARD7816_STATUS_ERROR_WRONG_PARAMETERS, vcard)
      else if a_Lc apdu = 0 then
        (if vcard_emul_is_logged_in nss vcard \<noteq> 0 then
           (vcard_make_response VCARD7816_STATUS_SUCCESS, vcard)
         else (let count = vcard_get_login_count vcard in
           if count < 0 then (vcard_make_response VCARD7816_STATUS_ERROR_DATA_NOT_FOUND, vcard)
           else (let count = (if count > 0xf then 0xf else count) in
             (vcard_response_new_status_bytes VCARD7816_SW1_WARNING_CHANGE
                (0xc0 OR of_int count), vcard))))
      else (case vcard_emul_login nss vcard (apdu_body apdu) of
              (status, vcard) \<Rightarrow> (vcard_make_response status, vcard)))"

text \<open>GET RESPONSE hands out the next piece of the buffered response, and the status tells whether
  there is more.\<close>

definition get_response :: "('p, 's) VCard \<Rightarrow> VCardAPDU \<Rightarrow> VCardResponse \<times> ('p, 's) VCard" where
  "get_response vcard apdu =
     (case vcard_buffer_response vcard of
        None \<Rightarrow> (vcard_make_response VCARD7816_STATUS_ERROR_DATA_NOT_FOUND, vcard)
      | Some b \<Rightarrow>
         (let bytes_to_copy = min (len b) (a_Le apdu);
              next_byte_count = min 256 (len b - bytes_to_copy) in
          case vcard_response_new_bytes vcard (take bytes_to_copy (drop (current b) (buffer b)))
                 (a_Le apdu)
                 (if next_byte_count \<noteq> 0 then VCARD7816_SW1_RESPONSE_BYTES
                  else VCARD7816_SW1_SUCCESS)
                 (of_nat next_byte_count) of
            (r, vcard) \<Rightarrow>
              (let b = b\<lparr>current := current b + bytes_to_copy, len := len b - bytes_to_copy\<rparr> in
               (r, vcard\<lparr>vcard_buffer_response := (if next_byte_count = 0 then None else Some b)\<rparr>))))"

text \<open>The instructions that the card knows and does not support.\<close>

definition unsupported_ins :: "byte list" where
  "unsupported_ins =
     [VCARD7816_INS_MANAGE_CHANNEL, VCARD7816_INS_EXTERNAL_AUTHENTICATE,
      VCARD7816_INS_GET_CHALLENGE, VCARD7816_INS_INTERNAL_AUTHENTICATE,
      VCARD7816_INS_ERASE_BINARY, VCARD7816_INS_READ_BINARY, VCARD7816_INS_WRITE_BINARY,
      VCARD7816_INS_UPDATE_BINARY, VCARD7816_INS_READ_RECORD, VCARD7816_INS_WRITE_RECORD,
      VCARD7816_INS_UPDATE_RECORD, VCARD7816_INS_APPEND_RECORD, VCARD7816_INS_ENVELOPE,
      VCARD7816_INS_PUT_DATA]"

definition answered :: "VCardResponse \<times> 'c \<Rightarrow> 'c handled" where
  "answered = (\<lambda>(r, vcard). Inr (VCARD_DONE, Some r, vcard))"

definition vcard7816_vm_process_apdu ::
  "'s nss \<Rightarrow> ('p, 's) reset_fn \<Rightarrow> ('p, 's) VCard \<Rightarrow> VCardAPDU \<Rightarrow> ('p, 's) VCard handled" where
  "vcard7816_vm_process_apdu nss call_reset vcard apdu =
     (if a_gen_type apdu \<noteq> VCARD_7816_ISO then
        answered (vcard_make_response VCARD7816_STATUS_ERROR_COMMAND_NOT_SUPPORTED, vcard)
      else if a_secure_messaging apdu \<noteq> 0x0 then
        answered (vcard_make_response VCARD7816_STATUS_ERROR_SECURE_NOT_SUPPORTED, vcard)
      else if a_ins apdu \<in> set unsupported_ins then
        answered (vcard_make_response VCARD7816_STATUS_ERROR_COMMAND_NOT_SUPPORTED, vcard)
      else if a_ins apdu = VCARD7816_INS_SELECT_FILE then
        (case select_file call_reset vcard apdu of Inl f \<Rightarrow> Inl f | Inr rc \<Rightarrow> answered rc)
      else if a_ins apdu = VCARD7816_INS_VERIFY then answered (verify nss vcard apdu)
      else if a_ins apdu = VCARD7816_INS_GET_RESPONSE then answered (get_response vcard apdu)
      else answered (vcard_make_response VCARD7816_STATUS_ERROR_COMMAND_NOT_SUPPORTED, vcard))"

definition vcard7816_file_system_process_apdu ::
  "('p, 's) VCard \<Rightarrow> VCardAPDU \<Rightarrow> ('p, 's) VCard handled" where
  "vcard7816_file_system_process_apdu vcard apdu =
     answered (vcard_make_response VCARD7816_STATUS_ERROR_COMMAND_NOT_SUPPORTED, vcard)"

section \<open>Processing an APDU\<close>

text \<open>The first test compares the class nibble \<open>a_type\<close> with the enumeration constant.\<close>

definition vcard_process_apdu ::
  "'s nss \<Rightarrow> ('p, 's) process_fn \<Rightarrow> ('p, 's) reset_fn \<Rightarrow> ('p, 's) VCard \<Rightarrow> VCardAPDU \<Rightarrow>
   ('p, 's) VCard handled" where
  "vcard_process_apdu nss call_process call_reset vcard apdu =
     (if unat (a_type apdu) = apdu_type_value VCARD_7816_PTS then
        (let r = vcard_response_new_data (a_data apdu)
         in answered (r\<lparr>b_total_len := b_len r\<rparr>, vcard))
      else
       (let vcard = (if vcard_buffer_response vcard \<noteq> None \<and>
                        a_ins apdu \<noteq> VCARD7816_INS_GET_RESPONSE
                     then vcard\<lparr>vcard_buffer_response := None\<rparr> else vcard) in
        case vcard_process_applet_apdu call_process vcard apdu of
          Inl f \<Rightarrow> Inl f
        | Inr (status, r, vcard) \<Rightarrow>
            (if status \<noteq> VCARD_NEXT then Inr (status, r, vcard)
             else (case card_type vcard of
                 VCARD_FILE_SYSTEM \<Rightarrow> vcard7816_file_system_process_apdu vcard apdu
               | VCARD_VM \<Rightarrow> vcard7816_vm_process_apdu nss call_reset vcard apdu
               | VCARD_DIRECT \<Rightarrow> Inl Assertion_Failure))))"


section \<open>The contract of a handler\<close>

text \<open>What a handler promises: no fault, and either an answer with a well-formed response no longer
  than expected and a well-formed card of the same type, or \<open>VCARD_NEXT\<close> and nothing done.\<close>

definition handled_ok ::
  "('p VCardApplet \<Rightarrow> bool) \<Rightarrow> ('p, 's) VCard \<Rightarrow> nat \<Rightarrow> ('p, 's) VCard handled \<Rightarrow> bool" where
  "handled_ok A vcard Le res \<longleftrightarrow>
     (\<exists>st r vcard'. res = Inr (st, r, vcard') \<and> card_wf A vcard' \<and>
        card_type vcard' = card_type vcard \<and>
        (st = VCARD_DONE \<and> (\<exists>x. r = Some x \<and> response_ok x \<and> length (response_data x) \<le> Le) \<or>
         st = VCARD_NEXT \<and> r = None \<and> vcard' = vcard))"

lemma handled_answered [wf_intros]:
  "replies vcard0 Le r vcard' \<Longrightarrow> card_wf A vcard0 \<Longrightarrow> card_type vcard0 = card_type vcard \<Longrightarrow>
   handled_ok A vcard Le (answered (r, vcard'))"
  by (auto simp: handled_ok_def answered_def dest: repliesD)

text \<open>An answer whose response carries some data, at once or in the buffer.\<close>

definition answers :: "('p, 's) VCard \<Rightarrow> nat \<Rightarrow> ('p, 's) VCard handled \<Rightarrow> bool" where
  "answers vcard Le res \<longleftrightarrow>
     (\<exists>r vcard'. res = answered (r, vcard') \<and> replies vcard Le r vcard')"

lemma answersI: "replies vcard Le (fst rc) (snd rc) \<Longrightarrow> answers vcard Le (answered rc)"
  by (cases rc) (auto simp: answers_def)

lemma answers_intros [wf_intros]:
  "answers vcard Le (answered (vcard_make_response st, vcard))"
  "answers vcard Le (answered (vcard_response_new vcard buf Le st))"
  "answers vcard Le (answered (vcard_response_new_bytes vcard buf Le a b))"
    apply (rule answersI, simp add: replies_make)
   apply (rule answersI, rule replies_new(1) [where st = st], rule prod.collapse [symmetric])
  apply (rule answersI, rule replies_new(2) [where a = a and b = b], rule prod.collapse [symmetric])
  done

lemma answers_handled:
  "answers vcard0 Le res \<Longrightarrow> card_wf A vcard0 \<Longrightarrow> card_type vcard0 = card_type vcard \<Longrightarrow>
   handled_ok A vcard Le res"
  unfolding answers_def by (elim exE conjE, hypsubst, rule handled_answered)

lemma handled_next [wf_intros]: "card_wf A vcard \<Longrightarrow> handled_ok A vcard Le (Inr (VCARD_NEXT, None, vcard))"
  by (simp add: handled_ok_def)

text \<open>What a reset changes: the private data of applets, nothing else of the card.\<close>

definition applets_only :: "('p, 's) VCard \<Rightarrow> ('p, 's) VCard \<Rightarrow> bool" where
  "applets_only vcard vcard' \<longleftrightarrow>
     (\<exists>store. vcard' = vcard\<lparr>applet_store := store\<rparr> \<and> map aid store = map aid (applet_store vcard))"

lemma applets_only_refl [simp]: "applets_only vcard vcard"
  unfolding applets_only_def by (rule exI [of _ "applet_store vcard"]) simp

lemma applets_only_frame:
  assumes "applets_only vcard vcard'"
  shows "card_type vcard' = card_type vcard" "current_applet vcard' = current_applet vcard"
    "applet_list vcard' = applet_list vcard" "vcard_private vcard' = vcard_private vcard"
    "vcard_buffer_response vcard' = vcard_buffer_response vcard"
    "length (applet_store vcard') = length (applet_store vcard)"
    "map aid (applet_store vcard') = map aid (applet_store vcard)"
  using assms by (auto simp: applets_only_def dest: map_eq_imp_length_eq)

lemma applets_only_find:
  assumes "applets_only vcard vcard'" and "applets_linked vcard"
  shows "vcard_find_applet vcard' wanted = vcard_find_applet vcard wanted"
proof -
  have "aid (applet_store vcard' ! a) = aid (applet_store vcard ! a)"
    if "a < length (applet_store vcard)" for a
  proof -
    have "map aid (applet_store vcard') ! a = map aid (applet_store vcard) ! a"
      by (simp add: applets_only_frame(7) [OF assms(1)])
    then show ?thesis using that applets_only_frame(6) [OF assms(1)] by simp
  qed
  then show ?thesis
    using assms(2) unfolding vcard_find_applet_def applets_only_frame(3) [OF assms(1)]
    by (intro find_loop_cong) (simp add: applets_linked_def)
qed

section \<open>VERIFY and GET RESPONSE\<close>

lemma login_frame:
  "\<exists>s. snd (vcard_emul_login nss vcard pin) = vcard\<lparr>vcard_private := s\<rparr>"
proof -
  have same: "vcard = vcard\<lparr>vcard_private := vcard_private vcard\<rparr>" by simp
  have "\<exists>s. vcard_emul_logout nss vcard = vcard\<lparr>vcard_private := s\<rparr>"
    unfolding vcard_emul_logout_def using same by metis
  then obtain s where "vcard_emul_logout nss vcard = vcard\<lparr>vcard_private := s\<rparr>" ..
  then have "snd (vcard_emul_login nss vcard pin) =
      (if nss_emul_init nss
       then vcard\<lparr>vcard_private := snd (PK11_Authenticate nss
              (c_string (clear_expanded (pin @ [0]) (length pin))) s)\<rparr>
       else vcard)"
    by (simp add: vcard_emul_login_def Let_def split: prod.split)
  then show ?thesis using same by metis
qed

text \<open>What VERIFY answers without and with a PIN.\<close>

lemma verify_result:
  "response_ok (fst (verify nss vcard apdu)) \<and> response_data (fst (verify nss vcard apdu)) = [] \<and>
   (\<exists>s. snd (verify nss vcard apdu) = vcard\<lparr>vcard_private := s\<rparr>)"
proof -
  have same: "\<exists>s. vcard = vcard\<lparr>vcard_private := s\<rparr>"
    by (rule exI [of _ "vcard_private vcard"]) simp
  consider "a_p1 apdu \<noteq> 0 \<or> a_p2 apdu \<noteq> 0" | "\<not> (a_p1 apdu \<noteq> 0 \<or> a_p2 apdu \<noteq> 0)" "a_Lc apdu = 0"
    | "\<not> (a_p1 apdu \<noteq> 0 \<or> a_p2 apdu \<noteq> 0)" "a_Lc apdu \<noteq> 0" by blast
  then show ?thesis
  proof cases
    case 1
    then show ?thesis unfolding verify_def if_P [OF 1] by (simp add: resp_simps same)
  next
    case 2
    then show ?thesis unfolding verify_def if_not_P [OF 2(1)] Let_def by (simp add: resp_simps same)
  next
    case 3
    obtain st v where "vcard_emul_login nss vcard (apdu_body apdu) = (st, v)" by fastforce
    then show ?thesis
      using login_frame [of nss vcard "apdu_body apdu"] 3(2)
      unfolding verify_def if_not_P [OF 3(1)] by (simp add: resp_simps)
  qed
qed

lemma handled_verify:
  assumes "card_wf A vcard"
  shows "handled_ok A vcard Le (answered (verify nss vcard apdu))"
proof (cases "verify nss vcard apdu")
  case (Pair r vcard')
  then obtain s where "vcard' = vcard\<lparr>vcard_private := s\<rparr>" "response_ok r" "response_data r = []"
    using verify_result [of nss vcard apdu] by auto
  then show ?thesis
    using card_wf_frame(4) [OF assms, of s] by (simp add: Pair handled_ok_def answered_def)
qed

text \<open>The buffer after a GET RESPONSE for \<open>n\<close> bytes.\<close>

definition advance :: "VCardBufferResponse \<Rightarrow> nat \<Rightarrow> VCardBufferResponse option" where
  "advance b n = (if len b \<le> n then None
                  else Some (b\<lparr>current := current b + n, len := len b - n\<rparr>))"

lemma advance_ok: "buffer_response_ok b \<Longrightarrow> advance b n = Some b' \<Longrightarrow> buffer_response_ok b'"
  by (auto simp: advance_def buffer_response_ok_def split: if_splits)

lemma advance_pending:
  "buffer_response_ok b \<Longrightarrow>
   (case advance b n of None \<Rightarrow> pending b = take n (pending b)
    | Some b' \<Rightarrow> pending b = take n (pending b) @ pending b' \<and> len b = len b' + n)"
proof (cases "len b \<le> n")
  case False
  have "drop n (pending b) = pending (b\<lparr>current := current b + n, len := len b - n\<rparr>)"
    by (simp add: pending_def drop_take add.commute)
  then have "pending b = take n (pending b) @ pending (b\<lparr>current := current b + n, len := len b - n\<rparr>)"
    by (metis append_take_drop_id)
  then show ?thesis using False by (simp add: advance_def)
qed (simp add: advance_def length_pending)

lemma get_response_eq:
  assumes "vcard_buffer_response vcard = Some b" and "buffer_response_ok b"
  shows "get_response vcard apdu =
    (vcard_response_set_status_bytes (vcard_response_new_data (take (a_Le apdu) (pending b)))
       (if advance b (a_Le apdu) \<noteq> None then VCARD7816_SW1_RESPONSE_BYTES else VCARD7816_SW1_SUCCESS)
       (of_nat (min 256 (len b - a_Le apdu))),
     vcard\<lparr>vcard_buffer_response := advance b (a_Le apdu)\<rparr>)"
proof -
  have data: "take (min (len b) (a_Le apdu)) (drop (current b) (buffer b)) = take (a_Le apdu) (pending b)"
    by (simp add: pending_def min.commute)
  have "length (take (a_Le apdu) (pending b)) \<le> a_Le apdu" by simp
  then have "vcard_response_new_bytes vcard (take (a_Le apdu) (pending b)) (a_Le apdu) x y =
      (vcard_response_set_status_bytes (vcard_response_new_data (take (a_Le apdu) (pending b))) x y,
       vcard)" for x y
    by (simp add: vcard_response_new_bytes_def)
  note now = this
  show ?thesis
  proof (cases "len b \<le> a_Le apdu")
    case True
    then have "min (len b) (a_Le apdu) = len b" by simp
    then show ?thesis
      using True now data assms(1) by (simp add: get_response_def Let_def advance_def)
  next
    case False
    then have "min (len b) (a_Le apdu) = a_Le apdu" "len b - a_Le apdu \<noteq> 0" by simp_all
    then show ?thesis
      using False now data assms(1) by (simp add: get_response_def Let_def advance_def)
  qed
qed

lemma handled_get_response:
  assumes "card_wf A vcard"
  shows "handled_ok A vcard (a_Le apdu) (answered (get_response vcard apdu))"
proof (cases "vcard_buffer_response vcard")
  case None
  then show ?thesis using assms by (auto simp: get_response_def intro: wf_intros)
next
  case (Some b)
  then have b: "buffer_response_ok b" using assms by (simp add: card_wf_def)
  have "card_wf A (vcard\<lparr>vcard_buffer_response := advance b (a_Le apdu)\<rparr>)"
    using assms advance_ok [OF b] by (auto simp: card_wf_def applets_linked_def)
  then show ?thesis
    by (auto simp: get_response_eq [OF Some b] handled_ok_def answered_def resp_simps)
qed

section \<open>Fetching a buffered response\<close>

text \<open>What is left to fetch from a card.\<close>

definition pending_data :: "('p, 's) VCard \<Rightarrow> bytes" where
  "pending_data vcard = (case vcard_buffer_response vcard of None \<Rightarrow> [] | Some b \<Rightarrow> pending b)"

lemma get_response_data:
  assumes "card_wf A vcard" and "get_response vcard apdu = (r, vcard')"
  shows "response_data r = take (a_Le apdu) (pending_data vcard)"
    "pending_data vcard' = drop (a_Le apdu) (pending_data vcard)"
    "pending_data vcard \<noteq> [] \<Longrightarrow>
      b_sw1 r = (if length (pending_data vcard) \<le> a_Le apdu then VCARD7816_SW1_SUCCESS
                 else VCARD7816_SW1_RESPONSE_BYTES)"
proof -
  have "response_data r = take (a_Le apdu) (pending_data vcard) \<and>
      pending_data vcard' = drop (a_Le apdu) (pending_data vcard) \<and>
      (pending_data vcard \<noteq> [] \<longrightarrow>
        b_sw1 r = (if length (pending_data vcard) \<le> a_Le apdu then VCARD7816_SW1_SUCCESS
                 else VCARD7816_SW1_RESPONSE_BYTES))"
  proof (cases "vcard_buffer_response vcard")
    case None
    then show ?thesis
      using assms(2) by (auto simp: get_response_def pending_data_def resp_simps)
  next
    case (Some b)
    then have ok: "buffer_response_ok b" using assms(1) by (simp add: card_wf_def)
    note eq = get_response_eq [OF Some ok, of apdu]
    show ?thesis
    proof (cases "len b \<le> a_Le apdu")
      case True
      then show ?thesis
        using assms(2) Some eq length_pending [OF ok]
        by (auto simp: pending_data_def advance_def resp_simps)
    next
      case False
      have "drop (a_Le apdu) (pending b) =
          pending (b\<lparr>current := current b + a_Le apdu, len := len b - a_Le apdu\<rparr>)"
        by (simp add: pending_def drop_take add.commute)
      then show ?thesis
        using False assms(2) Some eq length_pending [OF ok]
        by (auto simp: pending_data_def advance_def resp_simps)
    qed
  qed
  then show "response_data r = take (a_Le apdu) (pending_data vcard)"
    "pending_data vcard' = drop (a_Le apdu) (pending_data vcard)"
    "pending_data vcard \<noteq> [] \<Longrightarrow>
      b_sw1 r = (if length (pending_data vcard) \<le> a_Le apdu then VCARD7816_SW1_SUCCESS
                 else VCARD7816_SW1_RESPONSE_BYTES)"
    by blast+
qed

section \<open>The contract of the applets\<close>

locale applet_interface =
  fixes call_process :: "'s nss \<Rightarrow> ('p, 's) process_fn"
    and call_reset :: "('p, 's) reset_fn"
    and A :: "'p VCardApplet \<Rightarrow> bool"
  assumes process_ok:
      "nss_ok nss \<Longrightarrow> card_wf A vcard \<Longrightarrow> apdu_ok apdu \<Longrightarrow>
       current_applet vcard ! a_channel apdu = Some a \<Longrightarrow>
       handled_ok A vcard (a_Le apdu)
         (call_process nss (process_apdu (applet_store vcard ! a)) apdu vcard)"
    and reset_ok:
      "card_wf A vcard \<Longrightarrow> ch < MAX_CHANNEL \<Longrightarrow> current_applet vcard ! ch = Some a \<Longrightarrow>
       reset_applet (applet_store vcard ! a) = Some f \<Longrightarrow>
       \<exists>vcard'. call_reset f ch vcard = Inr vcard' \<and> card_wf A vcard' \<and> applets_only vcard vcard'"
    and aid_bound: "A applet \<Longrightarrow> length (aid applet) \<le> 16"
begin

lemma select_ok:
  assumes "card_wf A vcard" and "ch < MAX_CHANNEL"
    and "\<And>a. applet = Some a \<Longrightarrow> a < length (applet_store vcard)"
  shows "\<exists>vcard'. vcard_select_applet call_reset vcard ch applet = Inr vcard' \<and> card_wf A vcard' \<and>
    applets_only (vcard\<lparr>current_applet := (current_applet vcard)[ch := applet]\<rparr>) vcard'"
proof -
  let ?v = "vcard\<lparr>current_applet := (current_applet vcard)[ch := applet]\<rparr>"
  have wf: "card_wf A ?v" using assms(1,3) by (rule card_wf_select)
  show ?thesis
  proof (cases "applet")
    case None
    then show ?thesis using wf assms(2) by (simp add: vcard_select_applet_def Let_def)
  next
    case (Some a)
    have cur: "current_applet ?v ! ch = Some a"
      using assms(1,2) Some by (simp add: card_wf_def)
    show ?thesis
    proof (cases "reset_applet (applet_store vcard ! a)")
      case None
      then show ?thesis using wf assms(2) Some by (simp add: vcard_select_applet_def Let_def)
    next
      case (Some f)
      have "\<exists>vcard'. call_reset f ch ?v = Inr vcard' \<and> card_wf A vcard' \<and> applets_only ?v vcard'"
        by (rule reset_ok [OF wf assms(2) cur]) (simp add: Some)
      then show ?thesis
        using assms(2) Some \<open>applet = Some a\<close> by (auto simp: vcard_select_applet_def Let_def)
    qed
  qed
qed

text \<open>What SELECT by AID does, found or not.\<close>

lemma select_file_result:
  assumes "card_wf A vcard" and "apdu_ok apdu" and "a_p1 apdu = 0x04"
    and "applet = vcard_find_applet vcard (apdu_body apdu)"
  shows "\<exists>v r v'. select_file call_reset vcard apdu = Inr (r, v') \<and>
    vcard_select_applet call_reset vcard (a_channel apdu) applet = Inr v \<and> card_wf A v \<and>
    applets_only (vcard\<lparr>current_applet := (current_applet vcard)[a_channel apdu := applet]\<rparr>) v \<and>
    (if applet = None then r = vcard_make_response VCARD7816_STATUS_ERROR_FILE_NOT_FOUND \<and> v' = v
     else (r, v') = vcard_response_new v
       (if applet = vcard_find_applet vcard gp_aid then gp_response else fci_template (apdu_body apdu))
       (a_Le apdu) VCARD7816_STATUS_SUCCESS)"
proof -
  have ch: "a_channel apdu < MAX_CHANNEL"
    using assms(2) by (simp add: apdu_ok_def MAX_CHANNEL_def)
  have linked: "applets_linked vcard" using assms(1) by (simp add: card_wf_def)
  have found: "a < length (applet_store vcard)" "aid (applet_store vcard ! a) = apdu_body apdu"
    if "applet = Some a" for a
    using find_applet_bound [OF linked] that assms(4) by auto
  let ?w = "vcard\<lparr>current_applet := (current_applet vcard)[a_channel apdu := applet]\<rparr>"
  obtain v where v: "vcard_select_applet call_reset vcard (a_channel apdu) applet = Inr v" "card_wf A v"
    and only: "applets_only ?w v"
    using select_ok [OF assms(1) ch found(1)] by blast
  have gp: "vcard_find_applet v gp_aid = vcard_find_applet vcard gp_aid"
    using applets_only_find [OF only] linked by (simp add: applets_linked_def vcard_find_applet_def)
  have small: "\<not> 22 < 6 + a_Lc apdu" if "applet = Some a" for a
  proof -
    have "A (applet_store vcard ! a)"
      using assms(1) found(1) [OF that] by (simp add: card_wf_def list_all_length)
    then show ?thesis
      using aid_bound found(2) [OF that] apdu_okD(3) [OF assms(2)] by fastforce
  qed
  have run: "select_file call_reset vcard apdu =
      (if applet = None then Inr (vcard_make_response VCARD7816_STATUS_ERROR_FILE_NOT_FOUND, v)
       else Inr (vcard_response_new v (if applet = vcard_find_applet vcard gp_aid then gp_response
                    else fci_template (apdu_body apdu)) (a_Le apdu) VCARD7816_STATUS_SUCCESS))"
  proof (cases applet)
    case None
    then show ?thesis using assms(3) assms(4) [symmetric] v(1) by (simp add: select_file_def Let_def)
  next
    case (Some a)
    then show ?thesis
      using assms(3) assms(4) [symmetric] v(1) small [OF Some] by (simp add: select_file_def Let_def gp)
  qed
  obtain r v' where "(if applet = None then (vcard_make_response VCARD7816_STATUS_ERROR_FILE_NOT_FOUND, v)
       else vcard_response_new v (if applet = vcard_find_applet vcard gp_aid then gp_response
                    else fci_template (apdu_body apdu)) (a_Le apdu) VCARD7816_STATUS_SUCCESS) = (r, v')"
    by fastforce
  with run v only show ?thesis
    by (intro exI [of _ v] exI [of _ r] exI [of _ v']) (auto split: if_splits)
qed

lemma select_file_ok:
  assumes "card_wf A vcard" and "apdu_ok apdu"
  shows "\<exists>vcard0 r vcard'. select_file call_reset vcard apdu = Inr (r, vcard') \<and>
    card_wf A vcard0 \<and> card_type vcard0 = card_type vcard \<and> replies vcard0 (a_Le apdu) r vcard'"
proof (cases "a_p1 apdu = 0x04")
  case False
  then show ?thesis using assms(1) by (auto simp: select_file_def intro: wf_intros)
next
  case True
  define f where "f = vcard_find_applet vcard (apdu_body apdu)"
  obtain v r v' where run: "select_file call_reset vcard apdu = Inr (r, v')" "card_wf A v"
    and only: "applets_only (vcard\<lparr>current_applet := (current_applet vcard)[a_channel apdu := f]\<rparr>) v"
    and res: "if f = None then r = vcard_make_response VCARD7816_STATUS_ERROR_FILE_NOT_FOUND \<and> v' = v
     else (r, v') = vcard_response_new v
       (if f = vcard_find_applet vcard gp_aid then gp_response else fci_template (apdu_body apdu))
       (a_Le apdu) VCARD7816_STATUS_SUCCESS"
    using select_file_result [OF assms True f_def] by blast
  have "replies v (a_Le apdu) r v'"
    using res replies_make [of v] replies_new(1) [OF sym] by (cases f) auto
  then show ?thesis using run applets_only_frame(1) [OF only] by auto
qed

lemma vm_process_ok:
  assumes "nss_ok nss" and "card_wf A vcard" and "apdu_ok apdu"
  shows "handled_ok A vcard (a_Le apdu) (vcard7816_vm_process_apdu nss call_reset vcard apdu)"
proof -
  have "handled_ok A vcard (a_Le apdu)
      (case select_file call_reset vcard apdu of Inl f \<Rightarrow> Inl f | Inr rc \<Rightarrow> answered rc)"
    using select_file_ok [OF assms(2,3)] by (auto intro: handled_answered)
  moreover have "handled_ok A vcard (a_Le apdu) (answered (vcard_make_response st, vcard))" for st
    by (rule handled_answered [OF replies_make]) (use assms(2) in simp_all)
  ultimately show ?thesis
    using handled_verify [OF assms(2)] handled_get_response [OF assms(2)]
    by (simp add: vcard7816_vm_process_apdu_def)
qed

lemma vm_not_next: "vcard7816_vm_process_apdu nss call_reset vcard apdu \<noteq> Inr (VCARD_NEXT, r, v)"
  by (auto simp: vcard7816_vm_process_apdu_def answered_def split: sum.splits prod.splits)

text \<open>One APDU on a VM card: an answer, always.\<close>

lemma process_apdu_ok:
  assumes "nss_ok nss" and "card_wf A vcard" and "card_type vcard = VCARD_VM" and "apdu_ok apdu"
  shows "\<exists>r vcard'. vcard_process_apdu nss (call_process nss) call_reset vcard apdu =
      Inr (VCARD_DONE, Some r, vcard') \<and> response_ok r \<and> length (response_data r) \<le> a_Le apdu \<and>
    card_wf A vcard' \<and> card_type vcard' = VCARD_VM"
proof -
  have "unat (a_type apdu) \<noteq> 2"
    using apdu_okD(7) [OF assms(4)] by (metis of_nat_numeral of_nat_unat ucast_id)
  define v where "v = (if vcard_buffer_response vcard \<noteq> None \<and> a_ins apdu \<noteq> VCARD7816_INS_GET_RESPONSE
      then vcard\<lparr>vcard_buffer_response := None\<rparr> else vcard)"
  have v: "card_wf A v" "card_type v = VCARD_VM"
    using assms(2,3) by (auto simp: v_def intro: wf_intros)
  have applet: "handled_ok A v (a_Le apdu) (vcard_process_applet_apdu (call_process nss) v apdu)"
    using process_ok [OF assms(1) v(1) assms(4)] v(1)
    by (auto simp: vcard_process_applet_apdu_def intro: wf_intros split: option.split)
  then obtain st r v' where run: "vcard_process_applet_apdu (call_process nss) v apdu = Inr (st, r, v')"
    and ok: "card_wf A v'" "card_type v' = card_type v"
      "st = VCARD_DONE \<and> (\<exists>x. r = Some x \<and> response_ok x \<and> length (response_data x) \<le> a_Le apdu) \<or>
       st = VCARD_NEXT \<and> r = None \<and> v' = v"
    by (auto simp: handled_ok_def)
  have process: "vcard_process_apdu nss (call_process nss) call_reset vcard apdu =
      (if st \<noteq> VCARD_NEXT then Inr (st, r, v')
       else vcard7816_vm_process_apdu nss call_reset v' apdu)"
    using \<open>unat (a_type apdu) \<noteq> 2\<close> ok(2) v(2) run
    unfolding vcard_process_apdu_def Let_def v_def [symmetric] by simp
  show ?thesis
    using ok(3) vm_process_ok [OF assms(1) v(1) assms(4)] vm_not_next [of nss v apdu] process ok(1,2) v(2)
    by (auto simp: handled_ok_def)
qed

end

section \<open>Properties\<close>

lemma class_channel:
  assumes "vcard_apdu_new raw = Inr apdu" and "a_channel apdu \<noteq> 0"
  shows "a_gen_type apdu = VCARD_7816_ISO"
proof -
  note new = set_length_class [OF apdu_new_cases [OF assms(1), THEN conjunct2]]
  show ?thesis
    using new assms(2) by (auto simp: classify_def vcard_apdu_set_class_def Let_def split: if_splits)
qed

text \<open>A card answers every command on channel 2 or 3 that no applet takes with 6882 (secure messaging
  not supported): the mask the decoder takes the secure messaging bits with overlaps the channel
  bits, so the two high channels cannot be used for SELECT, VERIFY or GET RESPONSE.\<close>

theorem high_channels_rejected:
  assumes "vcard_apdu_new raw = Inr apdu" and "2 \<le> a_channel apdu"
  shows "vcard7816_vm_process_apdu nss rst vcard apdu =
    answered (vcard_make_response VCARD7816_STATUS_ERROR_SECURE_NOT_SUPPORTED, vcard)"
proof -
  have "a_gen_type apdu = VCARD_7816_ISO" using class_channel [OF assms(1)] assms(2) by simp
  moreover have "a_secure_messaging apdu \<noteq> 0"
    using apdu_okD(6) [OF apdu_new_ok [OF assms(1)]] assms(2) by auto
  ultimately show ?thesis by (simp add: vcard7816_vm_process_apdu_def)
qed

theorem high_channels_rejected_witness:
  "\<exists>apdu. vcard_apdu_new [0x02, 0x20, 0x00, 0x00] = Inr apdu \<and> a_channel apdu = 2 \<and>
     vcard7816_vm_process_apdu demo_nss (\<lambda>_ _ vcard. Inr vcard) (vcard_new True :: (unit, bool) VCard) apdu =
     answered (vcard_make_response VCARD7816_STATUS_ERROR_SECURE_NOT_SUPPORTED, vcard_new True)"
proof -
  obtain apdu where apdu: "vcard_apdu_new [0x02, 0x20, 0x00, 0x00] = Inr apdu" "a_channel apdu = 2"
    by (auto simp: vcard_apdu_new_def vcard_apdu_set_class_def vcard_apdu_set_length_def
        raw_apdu_struct_def Let_def a_cla_def)
  then show ?thesis
    using high_channels_rejected [OF apdu(1), of demo_nss "\<lambda>_ _ vcard. Inr vcard"
        "vcard_new True :: (unit, bool) VCard"] by simp
qed

text \<open>Without an applet selected on its channel, a command whose class is not one of ISO 7816 is
  answered 6900 and nothing else: in particular class \<open>0xff\<close>, a protocol and parameter selection,
  which \<open>vcard_process_apdu\<close> means to hand to a branch of its own.\<close>

theorem other_classes_refused:
  assumes "apdu_ok apdu" and "a_gen_type apdu \<noteq> VCARD_7816_ISO"
    and "card_type vcard = VCARD_VM" and "current_applet vcard ! a_channel apdu = None"
  shows "\<exists>vcard'. vcard_process_apdu nss proc rst vcard apdu =
      answered (vcard_make_response VCARD7816_STATUS_ERROR_COMMAND_NOT_SUPPORTED, vcard')"
proof -
  have "unat (a_type apdu) \<noteq> 2"
    using apdu_okD(7) [OF assms(1)] by (metis of_nat_numeral of_nat_unat ucast_id)
  then show ?thesis
    using assms(2-4)
    by (auto simp: vcard_process_apdu_def vcard_process_applet_apdu_def vcard7816_vm_process_apdu_def)
qed

theorem other_classes_refused_witness:
  "\<exists>apdu vcard'. vcard_apdu_new [0xff, 0x10, 0x11, 0x00] = Inr apdu \<and> a_gen_type apdu = VCARD_7816_PTS \<and>
     vcard_process_apdu demo_nss (\<lambda>_ _ _. Inl Assertion_Failure) (\<lambda>_ _ vcard. Inr vcard)
       (vcard_new True :: (unit, bool) VCard) apdu =
     answered (vcard_make_response VCARD7816_STATUS_ERROR_COMMAND_NOT_SUPPORTED, vcard')"
proof -
  obtain apdu where apdu: "vcard_apdu_new [0xff, 0x10, 0x11, 0x00] = Inr apdu"
      "a_gen_type apdu = VCARD_7816_PTS" "a_channel apdu = 0"
    by (auto simp: vcard_apdu_new_def vcard_apdu_set_class_def vcard_apdu_set_length_def
        raw_apdu_struct_def Let_def a_cla_def)
  then show ?thesis
    using other_classes_refused [OF apdu_new_ok [OF apdu(1)], of "vcard_new True :: (unit, bool) VCard"
        demo_nss "\<lambda>_ _ _. Inl Assertion_Failure" "\<lambda>_ _ vcard. Inr vcard"]
    by (simp add: vcard_new_def MAX_CHANNEL_def)
qed

end
