(* ===== verification/Cac_Applets.thy ===== *)
theory Cac_Applets
  imports Cac_Aca Card_7816
begin

text \<open>
  The applets of a CAC card, \<open>src/cac.c\<close>: their private data, the files of tags and values, GET
  PROPERTIES, and the \<open>process_apdu\<close> and \<open>reset_applet\<close> functions of the PKI applet, the access
  control applet, the passthrough containers and the plain containers.
\<close>

section \<open>Private data\<close>

text \<open>The union of \<open>VCardAppletPrivateStruct\<close>; a read of another member than the one that was set
  is the fault \<open>Union_Misread\<close>. A null \<open>sign_buffer\<close> is the empty list.\<close>

datatype applet_union =
  PKI_Data (sign_buffer: bytes) (pki_key: "VCardKey option")
| CCC_Data
| ACA_Data (pki_applets: nat)
| PT_Data (pt_label: bytes)
| Reserved

record VCardAppletPrivate =
  tag_buffer :: "bytes option"
  val_buffer :: "bytes option"
  properties :: "simpletlv_member list"
  properties_len :: nat
  long_properties_len :: nat
  coids :: "(byte \<times> byte) list"
  applet_u :: applet_union

type_synonym 's cac_card = "(VCardAppletPrivate, 's) VCard"

text \<open>\<open>tag_buffer_len\<close> and \<open>val_buffer_len\<close>: 0 for a null pointer.\<close>

definition file_len :: "bytes option \<Rightarrow> nat" where
  "file_len f = (case f of None \<Rightarrow> 0 | Some b \<Rightarrow> length b)"

section \<open>Files\<close>

text \<open>\<open>cac_create_file\<close>: the encoding behind two bytes of length, \<open>None\<close> for the null pointer. A
  length above 65535 is truncated by the conversion to \<open>unsigned short\<close>.\<close>

definition cac_create_file :: "simpletlv_member list \<Rightarrow> simpletlv_buffer_type \<Rightarrow> bytes option" where
  "cac_create_file tlv type =
     (let n = simpletlv_get_length tlv type in
      if n < 0 then None
      else (case (case type of
                    SIMPLETLV_TL \<Rightarrow> simpletlv_encode_tl tlv (nat n)
                  | SIMPLETLV_VALUE \<Rightarrow> simpletlv_encode_val tlv (nat n)
                  | SIMPLETLV_BOTH \<Rightarrow> None) of
          None \<Rightarrow> None
        | Some enc \<Rightarrow> if enc = [] then None else Some (ushort2lebytes (of_nat (length enc)) @ enc)))"

definition cac_create_tl_file :: "simpletlv_member list \<Rightarrow> bytes option" where
  "cac_create_tl_file tlv = cac_create_file tlv SIMPLETLV_TL"

definition cac_create_val_file :: "simpletlv_member list \<Rightarrow> bytes option" where
  "cac_create_val_file tlv = cac_create_file tlv SIMPLETLV_VALUE"

definition cac_create_empty_file :: "bytes option" where
  "cac_create_empty_file = Some [0x00, 0x00]"

section \<open>GET PROPERTIES\<close>

fun tlv_tag_of :: "simpletlv_member \<Rightarrow> byte" where
  "tlv_tag_of (TLV_NONE t v) = t"
| "tlv_tag_of (TLV_LEAF t v) = t"
| "tlv_tag_of (TLV_COMPOUND t cs) = t"

text \<open>The loops over the requested tags: the first property with each tag, in the order of the
  request; \<open>None\<close> at the first tag that is not there.\<close>

fun find_property :: "simpletlv_member list \<Rightarrow> byte \<Rightarrow> simpletlv_member option" where
  "find_property [] t = None"
| "find_property (m # ms) t = (if tlv_tag_of m = t then Some m else find_property ms t)"

fun matching_properties :: "simpletlv_member list \<Rightarrow> bytes \<Rightarrow> simpletlv_member list option" where
  "matching_properties ms [] = Some []"
| "matching_properties ms (t # ts) =
     (case find_property ms t of
        None \<Rightarrow> None
      | Some m \<Rightarrow> (case matching_properties ms ts of None \<Rightarrow> None | Some r \<Rightarrow> Some (m # r)))"

text \<open>
  \<open>get_properties\<close>. The result of \<open>simpletlv_encode\<close> is kept in an \<open>unsigned int\<close>, so its failure
  \<open>-1\<close> passes the test \<open>\<le> 0\<close> and the null pointer is copied from.
\<close>

definition get_properties ::
  "'s cac_card \<Rightarrow> simpletlv_member list \<Rightarrow> nat \<Rightarrow> bytes option \<Rightarrow> nat \<Rightarrow>
   fault + VCardResponse \<times> 's cac_card" where
  "get_properties vcard props plen tags Le =
     (if plen > length props then Inl Out_Of_Bounds
      else (case (case tags of
                    Some ts \<Rightarrow> if ts = [] then Some (take plen props)
                               else matching_properties (take plen props) ts
                  | None \<Rightarrow> Some (take plen props)) of
          None \<Rightarrow> Inr (vcard_make_response VCARD7816_STATUS_ERROR_DATA_NOT_FOUND, vcard)
        | Some cp \<Rightarrow> (case simpletlv_encode cp 0 of
              None \<Rightarrow> Inl Null_Dereference
            | Some buf \<Rightarrow>
               (if length buf \<le> 0 then
                  Inr (vcard_make_response VCARD7816_STATUS_ERROR_GENERAL, vcard)
                else if Le > length buf then
                  Inr (vcard_response_new_status_bytes VCARD7816_SW1_LE_ERROR
                         (of_nat (length buf)), vcard)
                else Inr (vcard_response_new vcard buf Le VCARD7816_STATUS_SUCCESS)))))"

section \<open>The common commands\<close>

definition answer_of :: "fault + VCardResponse \<times> 'c \<Rightarrow> 'c handled" where
  "answer_of res = (case res of Inl f \<Rightarrow> Inl f | Inr rc \<Rightarrow> answered rc)"

abbreviation status_answer :: "sw16 \<Rightarrow> 's cac_card \<Rightarrow> 's cac_card handled" where
  "status_answer st vcard \<equiv> answered (vcard_make_response st, vcard)"

definition common_get_properties ::
  "'s cac_card \<Rightarrow> VCardAppletPrivate \<Rightarrow> VCardAPDU \<Rightarrow> 's cac_card handled" where
  "common_get_properties vcard p apdu =
     (if a_p2 apdu \<noteq> 0x00 then status_answer VCARD7816_STATUS_ERROR_P1_P2_INCORRECT vcard
      else if a_p1 apdu = 0x00 then status_answer VCARD7816_STATUS_ERROR_P1_P2_INCORRECT vcard
      else if a_p1 apdu = 0x01 then
        (if a_Lc apdu \<noteq> 0 then status_answer VCARD7816_STATUS_ERROR_DATA_INVALID vcard
         else answer_of (get_properties vcard (properties p) (properties_len p) None (a_Le apdu)))
      else if a_p1 apdu = 0x02 then
        (if a_Lc apdu = 0 then status_answer VCARD7816_STATUS_ERROR_DATA_INVALID vcard
         else answer_of (get_properties vcard (properties p) (properties_len p)
                           (Some (apdu_body apdu)) (a_Le apdu)))
      else if a_p1 apdu = 0x40 then
        answer_of (get_properties vcard (properties p) (long_properties_len p) None (a_Le apdu))
      else status_answer VCARD7816_STATUS_ERROR_P1_P2_INCORRECT vcard)"

definition common_select_file ::
  "'s cac_card \<Rightarrow> VCardAppletPrivate \<Rightarrow> VCardAPDU \<Rightarrow> 's cac_card handled" where
  "common_select_file vcard p apdu =
     (if a_p1 apdu \<noteq> 0x02 then Inr (VCARD_NEXT, None, vcard)
      else if a_Lc apdu \<noteq> 2 then status_answer VCARD7816_STATUS_ERROR_DATA_INVALID vcard
      else if \<not> list_ex (\<lambda>(c0, c1). apdu_body apdu = [c0, c1]) (coids p) then
        status_answer VCARD7816_STATUS_ERROR_FILE_NOT_FOUND vcard
      else status_answer VCARD7816_STATUS_SUCCESS vcard)"

definition cac_common_process_apdu :: "VCardAPDU \<Rightarrow> 's cac_card \<Rightarrow> 's cac_card handled" where
  "cac_common_process_apdu apdu vcard =
     (case vcard_get_current_applet_private vcard (a_channel apdu) of
        None \<Rightarrow> Inl Assertion_Failure
      | Some p \<Rightarrow>
         (if a_ins apdu = CAC_GET_PROPERTIES then common_get_properties vcard p apdu
          else if a_ins apdu = VCARD7816_INS_SELECT_FILE then common_select_file vcard p apdu
          else if a_ins apdu = VCARD7816_INS_GET_RESPONSE \<or> a_ins apdu = VCARD7816_INS_VERIFY
          then Inr (VCARD_NEXT, None, vcard)
          else status_answer VCARD7816_STATUS_ERROR_INS_CODE_INVALID vcard))"

text \<open>READ BUFFER from one of the two files: at most what is left behind the offset; an offset
  behind the end is an error. The subtraction is the signed one of the code.\<close>

definition read_file :: "'s cac_card \<Rightarrow> bytes option \<Rightarrow> nat \<Rightarrow> nat \<Rightarrow> nat \<Rightarrow> 's cac_card handled" where
  "read_file vcard file size_arg offset Le =
     (let sz = min (int size_arg) (int (file_len file) - int offset) in
      if sz < 0 then status_answer VCARD7816_STATUS_ERROR_P1_P2_INCORRECT vcard
      else answered (vcard_response_new_bytes vcard
             (take (nat sz) (drop offset (case file of None \<Rightarrow> [] | Some b \<Rightarrow> b))) Le
             VCARD7816_SW1_SUCCESS 0))"

definition cac_common_process_apdu_read :: "VCardAPDU \<Rightarrow> 's cac_card \<Rightarrow> 's cac_card handled" where
  "cac_common_process_apdu_read apdu vcard =
     (case vcard_get_current_applet_private vcard (a_channel apdu) of
        None \<Rightarrow> Inl Assertion_Failure
      | Some p \<Rightarrow>
         (if a_ins apdu = CAC_READ_BUFFER then
            (if a_body apdu = None \<or> a_Lc apdu \<noteq> 2 then
               status_answer VCARD7816_STATUS_ERROR_DATA_INVALID vcard
             else (let size_arg = unat (apdu_body apdu ! 1);
                       offset = be16 (a_p1 apdu) (a_p2 apdu) in
               if apdu_body apdu ! 0 = CAC_FILE_VALUE then
                 read_file vcard (val_buffer p) size_arg offset (a_Le apdu)
               else if apdu_body apdu ! 0 = CAC_FILE_TAG then
                 read_file vcard (tag_buffer p) size_arg offset (a_Le apdu)
               else status_answer VCARD7816_STATUS_ERROR_DATA_INVALID vcard))
          else if a_ins apdu = CAC_UPDATE_BUFFER then
            status_answer VCARD7816_STATUS_ERROR_COMMAND_NOT_SUPPORTED vcard
          else cac_common_process_apdu apdu vcard))"

section \<open>Resets\<close>

definition cac_applet_pki_reset :: "nat \<Rightarrow> 's cac_card \<Rightarrow> fault + 's cac_card" where
  "cac_applet_pki_reset channel vcard =
     (case vcard_get_current_applet_private vcard channel of
        None \<Rightarrow> Inl Assertion_Failure
      | Some p \<Rightarrow> (case applet_u p of
            PKI_Data sb k \<Rightarrow> Inr (update_private vcard channel (p\<lparr>applet_u := PKI_Data [] k\<rparr>))
          | _ \<Rightarrow> Inl Union_Misread))"

definition cac_applet_passthrough_reset :: "nat \<Rightarrow> 's cac_card \<Rightarrow> fault + 's cac_card" where
  "cac_applet_passthrough_reset channel vcard =
     (case vcard_get_current_applet_private vcard channel of
        None \<Rightarrow> Inl Assertion_Failure
      | Some p \<Rightarrow> Inr (update_private vcard channel (p\<lparr>tag_buffer := None, val_buffer := None\<rparr>)))"

section \<open>The PKI applet\<close>

text \<open>SIGN/DECRYPT collects the pieces of its input in \<open>sign_buffer\<close>; the last piece runs the RSA
  operation and any outcome of it empties the buffer.\<close>

definition pki_sign_decrypt ::
  "'s nss \<Rightarrow> VCardAPDU \<Rightarrow> 's cac_card \<Rightarrow> VCardAppletPrivate \<Rightarrow> 's cac_card handled" where
  "pki_sign_decrypt nss apdu vcard p =
     (if a_p2 apdu \<noteq> 0 then status_answer VCARD7816_STATUS_ERROR_P1_P2_INCORRECT vcard
      else (case applet_u p of
          PKI_Data sb key \<Rightarrow>
           (let buf = sb @ apdu_body apdu;
                store = (\<lambda>vcard sb key. update_private vcard (a_channel apdu)
                           (p\<lparr>applet_u := PKI_Data sb key\<rparr>)) in
            if a_p1 apdu = 0x80 then
              status_answer VCARD7816_STATUS_SUCCESS (store vcard buf key)
            else if a_p1 apdu = 0x00 then
              (case vcard_emul_rsa_op nss key buf (vcard_private vcard) of
                 Inl f \<Rightarrow> Inl f
               | Inr (status, buf, key, s) \<Rightarrow>
                   (let vcard = store (vcard\<lparr>vcard_private := s\<rparr>) [] key in
                    if status \<noteq> VCARD7816_STATUS_SUCCESS then status_answer status vcard
                    else answered (vcard_response_new vcard buf (a_Le apdu)
                                     VCARD7816_STATUS_SUCCESS)))
            else status_answer VCARD7816_STATUS_ERROR_P1_P2_INCORRECT (store vcard [] key))
        | _ \<Rightarrow> Inl Union_Misread))"

definition cac_applet_pki_process_apdu ::
  "'s nss \<Rightarrow> VCardAPDU \<Rightarrow> 's cac_card \<Rightarrow> 's cac_card handled" where
  "cac_applet_pki_process_apdu nss apdu vcard =
     (case vcard_get_current_applet_private vcard (a_channel apdu) of
        None \<Rightarrow> Inl Assertion_Failure
      | Some p \<Rightarrow>
         (if a_ins apdu = CAC_UPDATE_BUFFER then
            status_answer VCARD7816_STATUS_ERROR_CONDITION_NOT_SATISFIED vcard
          else if a_ins apdu = CAC_SIGN_DECRYPT then pki_sign_decrypt nss apdu vcard p
          else cac_common_process_apdu_read apdu vcard))"

section \<open>The access control applet\<close>

definition answer_opt :: "fault + VCardResponse option \<times> 'c \<Rightarrow> 'c handled" where
  "answer_opt res = (case res of Inl f \<Rightarrow> Inl f | Inr (r, vcard) \<Rightarrow> Inr (VCARD_DONE, r, vcard))"

definition aca_get_acr :: "VCardAPDU \<Rightarrow> 's cac_card \<Rightarrow> nat \<Rightarrow> 's cac_card handled" where
  "aca_get_acr apdu vcard pki =
     (let Le = a_Le apdu; body = apdu_body apdu; p1 = a_p1 apdu;
          fmt = (if p1 AND 0x40 \<noteq> 0 then CAC_FORMAT_EXTENDED else CAC_FORMAT_SIMPLETLV);
          invalid = status_answer VCARD7816_STATUS_ERROR_DATA_INVALID vcard in
      if a_p2 apdu \<noteq> 0x00 then status_answer VCARD7816_STATUS_ERROR_P1_P2_INCORRECT vcard
      else if p1 \<in> {0x00, 0x40, 0x41} then
        (if a_Lc apdu \<noteq> 0 then invalid
         else answer_of (cac_aca_get_acr_response vcard Le None fmt))
      else if p1 = 0x01 then
        (if a_Lc apdu \<noteq> 1 then invalid
         else answer_of (cac_aca_get_acr_response vcard Le (Some (body ! 0)) fmt))
      else if p1 \<in> {0x10, 0x50, 0x51, 0x52} then
        (if a_Lc apdu \<noteq> 0 then invalid
         else answer_opt (cac_aca_get_applet_acr_response vcard Le pki None None fmt))
      else if p1 = 0x11 then
        (if a_Lc apdu \<noteq> 7 then invalid
         else answer_opt (cac_aca_get_applet_acr_response vcard Le pki (Some body) None fmt))
      else if p1 = 0x12 then
        (if a_Lc apdu \<noteq> 2 then invalid
         else answer_opt (cac_aca_get_applet_acr_response vcard Le pki None (Some body) fmt))
      else if p1 \<in> {0x20, 0x60} then
        (if a_Lc apdu \<noteq> 0 then invalid
         else answered (cac_aca_get_amp_response vcard Le fmt))
      else if p1 \<in> {0x21, 0x61} then
        (if a_Lc apdu \<noteq> 0 then invalid
         else answer_of (cac_aca_get_service_response vcard Le pki fmt))
      else status_answer VCARD7816_STATUS_ERROR_COMMAND_NOT_SUPPORTED vcard)"

definition cac_applet_aca_process_apdu :: "VCardAPDU \<Rightarrow> 's cac_card \<Rightarrow> 's cac_card handled" where
  "cac_applet_aca_process_apdu apdu vcard =
     (case vcard_get_current_applet_private vcard (a_channel apdu) of
        None \<Rightarrow> Inl Assertion_Failure
      | Some p \<Rightarrow>
         (if a_ins apdu = CAC_GET_ACR then
            (case applet_u p of ACA_Data pki \<Rightarrow> aca_get_acr apdu vcard pki
             | _ \<Rightarrow> Inl Union_Misread)
          else cac_common_process_apdu apdu vcard))"

section \<open>The passthrough containers\<close>

text \<open>The object of the token is read at the first READ BUFFER after a reset and split into the two
  files; without an object both files are empty.\<close>

definition fill_files :: "'s nss \<Rightarrow> 's cac_card \<Rightarrow> VCardAppletPrivate \<Rightarrow> fault + VCardAppletPrivate" where
  "fill_files nss vcard p =
     (case applet_u p of
        PT_Data label \<Rightarrow>
          (case vcard_emul_read_object nss vcard label of
             Some data \<Rightarrow>
               (let tlv = simpletlv_parse data
                in Inr (p\<lparr>tag_buffer := cac_create_tl_file tlv, val_buffer := cac_create_val_file tlv\<rparr>))
           | None \<Rightarrow> Inr (p\<lparr>tag_buffer := cac_create_empty_file, val_buffer := cac_create_empty_file\<rparr>))
      | _ \<Rightarrow> Inl Union_Misread)"

definition cac_passthrough_container_process_apdu ::
  "'s nss \<Rightarrow> VCardAPDU \<Rightarrow> 's cac_card \<Rightarrow> 's cac_card handled" where
  "cac_passthrough_container_process_apdu nss apdu vcard =
     (case vcard_get_current_applet_private vcard (a_channel apdu) of
        None \<Rightarrow> Inl Assertion_Failure
      | Some p \<Rightarrow>
         (if a_ins apdu = CAC_READ_BUFFER \<and> (tag_buffer p = None \<or> val_buffer p = None) then
            (case fill_files nss vcard p of
               Inl f \<Rightarrow> Inl f
             | Inr p \<Rightarrow> cac_common_process_apdu_read apdu
                         (update_private vcard (a_channel apdu) p))
          else cac_common_process_apdu_read apdu vcard))"

section \<open>The invariant of the applets\<close>

text \<open>The properties can be encoded and their lengths stay inside the array.\<close>

definition private_wf :: "VCardAppletPrivate \<Rightarrow> bool" where
  "private_wf p \<longleftrightarrow> tlv_encodable (properties p) \<and>
     properties_len p \<le> length (properties p) \<and> long_properties_len p \<le> length (properties p)"

text \<open>Each \<open>process_apdu\<close> function finds the union member it reads.\<close>

fun union_fits :: "VCardProcessAPDU \<Rightarrow> applet_union \<Rightarrow> bool" where
  "union_fits Cac_applet_pki_process_apdu (PKI_Data sb k) = True"
| "union_fits Cac_applet_pki_process_apdu _ = False"
| "union_fits Cac_applet_aca_process_apdu (ACA_Data n) = (n \<le> 10)"
| "union_fits Cac_applet_aca_process_apdu _ = False"
| "union_fits Cac_passthrough_container_process_apdu (PT_Data l) = True"
| "union_fits Cac_passthrough_container_process_apdu _ = False"
| "union_fits Capcsc_apdu_cb _ = False"
| "union_fits _ _ = True"

definition applet_ok :: "VCardAppletPrivate VCardApplet \<Rightarrow> bool" where
  "applet_ok a \<longleftrightarrow> length (aid a) \<le> 16 \<and> reset_applet a \<noteq> Some Capcsc_reset_cb \<and>
     (case applet_private a of
        None \<Rightarrow> process_apdu a \<in> {Gp_applet_container_process_apdu, Msft_applet_container_process_apdu} \<and>
          reset_applet a = None
      | Some p \<Rightarrow> private_wf p \<and> union_fits (process_apdu a) (applet_u p) \<and>
          (reset_applet a = Some Cac_applet_pki_reset \<longrightarrow>
             process_apdu a = Cac_applet_pki_process_apdu))"

lemma union_fitsE:
  assumes "union_fits f u"
  shows "f = Cac_applet_pki_process_apdu \<Longrightarrow> \<exists>sb k. u = PKI_Data sb k"
    "f = Cac_applet_aca_process_apdu \<Longrightarrow> \<exists>n. u = ACA_Data n \<and> n \<le> 10"
    "f = Cac_passthrough_container_process_apdu \<Longrightarrow> \<exists>l. u = PT_Data l"
  using assms by (cases u; simp)+

lemma encodable_iff: "tlv_encodable ms \<longleftrightarrow> (\<forall>m \<in> set ms. tlv_encodable [m])"
  by (induction ms rule: tlv_encodable.induct) auto

lemma encodable_subset: "tlv_encodable ms \<Longrightarrow> set ns \<subseteq> set ms \<Longrightarrow> tlv_encodable ns"
  by (subst encodable_iff, subst (asm) encodable_iff) blast

lemma find_property_in: "find_property ms t = Some m \<Longrightarrow> m \<in> set ms \<and> tlv_tag_of m = t"
  by (induction ms) (auto split: if_splits)

lemma matching_subset: "matching_properties ms ts = Some r \<Longrightarrow> set r \<subseteq> set ms \<and> map tlv_tag_of r = ts"
  by (induction ts arbitrary: r) (auto split: option.splits dest!: find_property_in)

lemma get_properties_replies:
  assumes "tlv_encodable props" and "plen \<le> length props"
  shows "\<exists>r vcard'. get_properties vcard props plen tags Le = Inr (r, vcard') \<and> replies vcard Le r vcard'"
proof -
  define sel where "sel = (case tags of
      Some ts \<Rightarrow> if ts = [] then Some (take plen props) else matching_properties (take plen props) ts
    | None \<Rightarrow> Some (take plen props))"
  have "set cp \<subseteq> set props" if "sel = Some cp" for cp
    using that set_take_subset [of plen props] matching_subset [of "take plen props" _ cp]
    by (fastforce simp: sel_def split: option.splits if_splits)
  then have enc: "simpletlv_encode cp 0 = Some (tlv_image cp)" if "sel = Some cp" for cp
    using that encodable_subset [OF assms(1)] by (simp add: encode_both)
  show ?thesis
  proof (cases sel)
    case None
    then show ?thesis
      using assms(2) replies_make unfolding get_properties_def by (fastforce simp flip: sel_def)
  next
    case (Some cp)
    then have "get_properties vcard props plen tags Le =
      (if length (tlv_image cp) \<le> 0 then Inr (vcard_make_response VCARD7816_STATUS_ERROR_GENERAL, vcard)
       else if Le > length (tlv_image cp) then
         Inr (vcard_response_new_status_bytes VCARD7816_SW1_LE_ERROR (of_nat (length (tlv_image cp))), vcard)
       else Inr (vcard_response_new vcard (tlv_image cp) Le VCARD7816_STATUS_SUCCESS))"
      using assms(2) enc [OF Some] unfolding get_properties_def by (simp flip: sel_def)
    moreover obtain r v where
      new: "vcard_response_new vcard (tlv_image cp) Le VCARD7816_STATUS_SUCCESS = (r, v)"
      by fastforce
    ultimately show ?thesis
      using replies_make [of vcard Le] replies_status_bytes [of vcard Le] replies_new(1) [OF new]
      by auto
  qed
qed

section \<open>Every handler keeps the contract\<close>

lemma status_handled [wf_intros]:
  "card_wf A vcard0 \<Longrightarrow> card_type vcard0 = card_type vcard \<Longrightarrow>
   handled_ok A vcard Le (answered (vcard_make_response st, vcard0))"
  by (rule handled_answered [OF replies_make])

lemma answer_of_handled:
  assumes "\<exists>r vcard'. res = Inr (r, vcard') \<and> replies vcard Le r vcard'" and "card_wf A vcard"
  shows "handled_ok A vcard Le (answer_of res)"
  using assms by (auto simp: answer_of_def intro: handled_answered)

lemma common_ok:
  assumes "card_wf applet_ok vcard" and "private_wf p"
    and "vcard_get_current_applet_private vcard (a_channel apdu) = Some p"
  shows "handled_ok applet_ok vcard (a_Le apdu) (cac_common_process_apdu apdu vcard)"
proof -
  have props: "handled_ok applet_ok vcard (a_Le apdu)
      (answer_of (get_properties vcard (properties p) n tags (a_Le apdu)))"
    if "n \<in> {properties_len p, long_properties_len p}" for n tags
    using that assms(2)
    by (intro answer_of_handled get_properties_replies assms(1)) (auto simp: private_wf_def)
  have nxt: "handled_ok applet_ok vcard (a_Le apdu) (Inr (VCARD_NEXT, None, vcard))"
    using assms(1) by (rule handled_next)
  have status: "handled_ok applet_ok vcard (a_Le apdu) (status_answer st vcard)" for st
    using assms(1) by (intro status_handled) simp_all
  show ?thesis
    using assms(3) props nxt status
    by (simp add: cac_common_process_apdu_def common_get_properties_def common_select_file_def)
qed

lemma read_file_answers: "answers vcard Le (read_file vcard file n off Le)"
  by (simp add: read_file_def Let_def wf_intros)

lemma read_buffer_answers:
  assumes "vcard_get_current_applet_private vcard (a_channel apdu) = Some p"
    and "a_ins apdu = CAC_READ_BUFFER"
  shows "answers vcard (a_Le apdu) (cac_common_process_apdu_read apdu vcard)"
  using assms
  by (simp add: cac_common_process_apdu_read_def Let_def read_file_answers wf_intros)

lemma read_ok:
  assumes "card_wf applet_ok vcard" and "private_wf p"
    and "vcard_get_current_applet_private vcard (a_channel apdu) = Some p"
  shows "handled_ok applet_ok vcard (a_Le apdu) (cac_common_process_apdu_read apdu vcard)"
proof (cases "a_ins apdu = CAC_READ_BUFFER")
  case True
  then show ?thesis
    using read_buffer_answers [OF assms(3)] assms(1) by (auto intro: answers_handled)
next
  case False
  then show ?thesis
    using assms common_ok [OF assms]
    by (auto simp: cac_common_process_apdu_read_def intro: wf_intros)
qed

text \<open>The selected applet of a well-formed card and its private data.\<close>

lemma selected:
  assumes "card_wf applet_ok vcard" and "ch < MAX_CHANNEL" and "current_applet vcard ! ch = Some a"
  shows "a < length (applet_store vcard)" "applet_ok (applet_store vcard ! a)"
    "vcard_get_current_applet_private vcard ch = applet_private (applet_store vcard ! a)"
proof -
  have "Some a \<in> set (current_applet vcard)"
    using assms by (metis card_wf_def nth_mem)
  then show a: "a < length (applet_store vcard)" using assms(1) by (simp add: card_wf_def)
  then show "applet_ok (applet_store vcard ! a)"
    using assms(1) by (simp add: card_wf_def list_all_length)
  show "vcard_get_current_applet_private vcard ch = applet_private (applet_store vcard ! a)"
    by (simp add: vcard_get_current_applet_private_def assms(3))
qed

lemma applet_ok_private:
  assumes "applet_ok a" and "applet_private a = Some p"
  shows "private_wf p" "union_fits (process_apdu a) (applet_u p)"
    "reset_applet a = Some Cac_applet_pki_reset \<Longrightarrow> process_apdu a = Cac_applet_pki_process_apdu"
  using assms by (auto simp: applet_ok_def)

lemma applet_ok_update:
  assumes "applet_ok a" and "applet_private a = Some p" and "private_wf p'"
    and "union_fits (process_apdu a) (applet_u p')"
  shows "applet_ok (a\<lparr>applet_private := Some p'\<rparr>)"
  using assms by (simp add: applet_ok_def)

lemma update_private_frame [frame_simps]:
  "card_type (update_private vcard ch p) = card_type vcard"
  "vcard_private (update_private vcard ch p) = vcard_private vcard"
  "current_applet (update_private vcard ch p) = current_applet vcard"
  "vcard_buffer_response (update_private vcard ch p) = vcard_buffer_response vcard"
  "update_private (vcard\<lparr>vcard_private := s\<rparr>) ch p = (update_private vcard ch p)\<lparr>vcard_private := s\<rparr>"
  by (simp_all add: update_private_def split: option.split)

lemma private_after_update:
  "current_applet vcard ! ch = Some a \<Longrightarrow> a < length (applet_store vcard) \<Longrightarrow>
   vcard_get_current_applet_private (update_private vcard ch p) ch = Some p"
  by (simp add: vcard_get_current_applet_private_def update_private_def)

lemma update_private_applets:
  "current_applet vcard ! ch = Some a \<Longrightarrow> a < length (applet_store vcard) \<Longrightarrow>
   applets_only vcard (update_private vcard ch p)"
  unfolding applets_only_def update_private_def
  by (rule exI [of _ "(applet_store vcard)[a := (applet_store vcard ! a)\<lparr>applet_private := Some p\<rparr>]"])
    (auto simp: list_eq_iff_nth_eq nth_list_update)

text \<open>Storing new private data keeps the card well-formed when the union member stays the same.\<close>

lemma wf_update:
  assumes "card_wf applet_ok vcard" and "ch < MAX_CHANNEL" and "current_applet vcard ! ch = Some a"
    and "applet_private (applet_store vcard ! a) = Some p"
    and "private_wf p'" and "union_fits (process_apdu (applet_store vcard ! a)) (applet_u p')"
  shows "card_wf applet_ok (update_private vcard ch p')"
  using assms(1)
proof (rule card_wf_update)
  fix b
  assume "current_applet vcard ! ch = Some b" "b < length (applet_store vcard)"
  then show "applet_ok ((applet_store vcard ! b)\<lparr>applet_private := Some p'\<rparr>)"
    using selected(2) [OF assms(1-3)] assms(3-6) by (auto intro: applet_ok_update)
qed

lemma pki_sign_ok:
  assumes "nss_ok nss" and "card_wf applet_ok vcard" and "a_channel apdu < MAX_CHANNEL"
    and "current_applet vcard ! a_channel apdu = Some a"
    and "applet_private (applet_store vcard ! a) = Some p"
    and "process_apdu (applet_store vcard ! a) = Cac_applet_pki_process_apdu"
  shows "handled_ok applet_ok vcard (a_Le apdu) (pki_sign_decrypt nss apdu vcard p)"
proof -
  note ok = applet_ok_private [OF selected(2) [OF assms(2-4)] assms(5)]
  obtain sb key where u: "applet_u p = PKI_Data sb key"
    using union_fitsE(1) [OF ok(2) assms(6)] by blast
  define store where "store sb key = update_private vcard (a_channel apdu) (p\<lparr>applet_u := PKI_Data sb key\<rparr>)"
    for sb key
  have wf: "card_wf applet_ok (store sb' key')" "card_type (store sb' key') = card_type vcard" for sb' key'
    using wf_update [OF assms(2-5)] ok(1) assms(6)
    by (auto simp: store_def private_wf_def frame_simps)
  obtain st buf key' s where rsa: "vcard_emul_rsa_op nss key (sb @ apdu_body apdu) (vcard_private vcard) =
      Inr (st, buf, key', s)"
    using rsa_op_total [OF assms(1)] by blast
  let ?v = "(store [] key')\<lparr>vcard_private := s\<rparr>"
  have v: "card_wf applet_ok ?v" "card_type ?v = card_type vcard"
    using card_wf_frame(4) [OF wf(1)] wf(2) by simp_all
  have new: "handled_ok applet_ok vcard (a_Le apdu)
      (answered (vcard_response_new ?v buf (a_Le apdu) VCARD7816_STATUS_SUCCESS))"
    using answers_intros(2) v by (rule answers_handled)
  show ?thesis
    using new wf v assms(2)
    by (simp add: pki_sign_decrypt_def u rsa Let_def frame_simps status_handled flip: store_def)
qed

lemma pki_ok:
  assumes "nss_ok nss" and "card_wf applet_ok vcard" and "a_channel apdu < MAX_CHANNEL"
    and "current_applet vcard ! a_channel apdu = Some a"
    and "process_apdu (applet_store vcard ! a) = Cac_applet_pki_process_apdu"
  shows "handled_ok applet_ok vcard (a_Le apdu) (cac_applet_pki_process_apdu nss apdu vcard)"
proof -
  obtain p where p: "applet_private (applet_store vcard ! a) = Some p"
    using selected(2) [OF assms(2-4)] assms(5) by (auto simp: applet_ok_def split: option.splits)
  then have cur: "vcard_get_current_applet_private vcard (a_channel apdu) = Some p"
    using selected(3) [OF assms(2-4)] by simp
  have "private_wf p" using applet_ok_private [OF selected(2) [OF assms(2-4)] p] by blast
  then show ?thesis
    using read_ok [OF assms(2) _ cur] pki_sign_ok [OF assms(1-4) p assms(5)] assms(2)
    by (simp add: cac_applet_pki_process_apdu_def cur status_handled)
qed

lemma answer_opt_handled:
  assumes "\<exists>r vcard'. res = Inr (Some r, vcard') \<and> replies vcard Le r vcard'" and "card_wf A vcard"
  shows "handled_ok A vcard Le (answer_opt res)"
proof -
  obtain r vcard' where "res = Inr (Some r, vcard')" "replies vcard Le r vcard'"
    using assms(1) by blast
  then have "answer_opt res = answered (r, vcard')" "replies vcard Le r vcard'"
    by (simp_all add: answer_opt_def answered_def)
  then show ?thesis using assms(2) by (simp add: handled_answered)
qed

lemma aca_get_acr_ok:
  assumes "card_wf applet_ok vcard" and "pki \<le> 10"
  shows "handled_ok applet_ok vcard (a_Le apdu) (aca_get_acr apdu vcard pki)"
proof -
  have "handled_ok applet_ok vcard (a_Le apdu) (answered (cac_aca_get_amp_response vcard (a_Le apdu) f))" for f
    using amp_response_replies [of vcard "a_Le apdu" f] assms(1)
    by (cases "cac_aca_get_amp_response vcard (a_Le apdu) f") (simp add: handled_answered)
  moreover have "handled_ok applet_ok vcard (a_Le apdu) (status_answer st vcard)" for st
    using assms(1) by (intro status_handled) simp_all
  moreover note answer_of_handled [OF acr_response_replies assms(1)]
    answer_of_handled [OF service_response_replies [OF assms(2)] assms(1)]
    answer_opt_handled [OF applet_acr_response_replies [OF assms(2)] assms(1)]
  ultimately show ?thesis by (simp add: aca_get_acr_def Let_def)
qed

lemma aca_ok:
  assumes "card_wf applet_ok vcard" and "a_channel apdu < MAX_CHANNEL"
    and "current_applet vcard ! a_channel apdu = Some a"
    and "process_apdu (applet_store vcard ! a) = Cac_applet_aca_process_apdu"
  shows "handled_ok applet_ok vcard (a_Le apdu) (cac_applet_aca_process_apdu apdu vcard)"
proof -
  obtain p where p: "applet_private (applet_store vcard ! a) = Some p"
    using selected(2) [OF assms(1-3)] assms(4) by (auto simp: applet_ok_def split: option.splits)
  then have cur: "vcard_get_current_applet_private vcard (a_channel apdu) = Some p"
    using selected(3) [OF assms(1-3)] by simp
  note ok = applet_ok_private [OF selected(2) [OF assms(1-3)] p]
  obtain n where "applet_u p = ACA_Data n" "n \<le> 10"
    using union_fitsE(2) [OF ok(2) assms(4)] by blast
  then show ?thesis
    using common_ok [OF assms(1) ok(1) cur] aca_get_acr_ok [OF assms(1)]
    by (simp add: cac_applet_aca_process_apdu_def cur)
qed

lemma passthrough_ok:
  assumes "card_wf applet_ok vcard" and "a_channel apdu < MAX_CHANNEL"
    and "current_applet vcard ! a_channel apdu = Some a"
    and "process_apdu (applet_store vcard ! a) = Cac_passthrough_container_process_apdu"
  shows "handled_ok applet_ok vcard (a_Le apdu) (cac_passthrough_container_process_apdu nss apdu vcard)"
proof -
  obtain p where p: "applet_private (applet_store vcard ! a) = Some p"
    using selected(2) [OF assms(1-3)] assms(4) by (auto simp: applet_ok_def split: option.splits)
  then have cur: "vcard_get_current_applet_private vcard (a_channel apdu) = Some p"
    using selected(3) [OF assms(1-3)] by simp
  note ok = applet_ok_private [OF selected(2) [OF assms(1-3)] p]
  obtain l where u: "applet_u p = PT_Data l" using union_fitsE(3) [OF ok(2) assms(4)] by blast
  show ?thesis
  proof (cases "a_ins apdu = CAC_READ_BUFFER \<and> (tag_buffer p = None \<or> val_buffer p = None)")
    case True
    obtain t v where fill: "fill_files nss vcard p = Inr (p\<lparr>tag_buffer := t, val_buffer := v\<rparr>)"
      by (cases "vcard_emul_read_object nss vcard l") (auto simp: fill_files_def u Let_def)
    let ?p = "p\<lparr>tag_buffer := t, val_buffer := v\<rparr>"
    let ?v = "update_private vcard (a_channel apdu) ?p"
    have wf: "card_wf applet_ok ?v"
      using wf_update [OF assms(1-3) p] ok(1,2) by (simp add: private_wf_def)
    have cur': "vcard_get_current_applet_private ?v (a_channel apdu) = Some ?p"
      using assms(3) selected(1) [OF assms(1-3)] by (rule private_after_update)
    have "handled_ok applet_ok vcard (a_Le apdu) (cac_common_process_apdu_read apdu ?v)"
      using answers_handled [OF read_buffer_answers [OF cur'] wf] True
      by (simp add: frame_simps)
    then show ?thesis
      using True by (simp add: cac_passthrough_container_process_apdu_def cur fill)
  next
    case False
    then show ?thesis
      using read_ok [OF assms(1) ok(1) cur]
      by (auto simp: cac_passthrough_container_process_apdu_def cur)
  qed
qed

section \<open>Every reset keeps the contract\<close>

lemma pki_reset_ok:
  assumes "card_wf applet_ok vcard" and "ch < MAX_CHANNEL" and "current_applet vcard ! ch = Some a"
    and "reset_applet (applet_store vcard ! a) = Some Cac_applet_pki_reset"
  shows "\<exists>vcard'. cac_applet_pki_reset ch vcard = Inr vcard' \<and> card_wf applet_ok vcard' \<and>
    applets_only vcard vcard'"
proof -
  obtain p where p: "applet_private (applet_store vcard ! a) = Some p"
    using selected(2) [OF assms(1-3)] assms(4) by (auto simp: applet_ok_def split: option.splits)
  note ok = applet_ok_private [OF selected(2) [OF assms(1-3)] p]
  obtain sb k where u: "applet_u p = PKI_Data sb k"
    using union_fitsE(1) [OF ok(2) ok(3) [OF assms(4)]] by blast
  show ?thesis
    using wf_update [OF assms(1-3) p] ok(1,3) assms(4) update_private_applets [OF assms(3)]
      selected(1,3) [OF assms(1-3)] p
    by (simp add: cac_applet_pki_reset_def u private_wf_def)
qed

lemma passthrough_reset_ok:
  assumes "card_wf applet_ok vcard" and "ch < MAX_CHANNEL" and "current_applet vcard ! ch = Some a"
    and "reset_applet (applet_store vcard ! a) \<noteq> None"
  shows "\<exists>vcard'. cac_applet_passthrough_reset ch vcard = Inr vcard' \<and> card_wf applet_ok vcard' \<and>
    applets_only vcard vcard'"
proof -
  obtain p where p: "applet_private (applet_store vcard ! a) = Some p"
    using selected(2) [OF assms(1-3)] assms(4) by (auto simp: applet_ok_def split: option.splits)
  note ok = applet_ok_private [OF selected(2) [OF assms(1-3)] p]
  show ?thesis
    using wf_update [OF assms(1-3) p] ok(1,2) update_private_applets [OF assms(3)]
      selected(1,3) [OF assms(1-3)] p
    by (simp add: cac_applet_passthrough_reset_def private_wf_def)
qed

section \<open>Properties\<close>

lemma find_property_complete: "find_property ms t \<noteq> None \<longleftrightarrow> t \<in> tlv_tag_of ` set ms"
  by (induction ms) auto

lemma matching_complete: "matching_properties ms ts \<noteq> None \<longleftrightarrow> set ts \<subseteq> tlv_tag_of ` set ms"
proof (induction ts)
  case (Cons t ts)
  have "find_property ms t \<noteq> None \<longleftrightarrow> t \<in> tlv_tag_of ` set ms" by (rule find_property_complete)
  then show ?case using Cons
    by (cases "find_property ms t"; cases "matching_properties ms ts") simp_all
qed simp

text \<open>GET PROPERTIES with a tag list answers with exactly the requested properties, in the order of
  the request, encoded as SimpleTLV; when one of the tags is missing the whole command is answered
  6A88, when the guest wants more bytes than there are 6Cxx.\<close>

theorem get_properties_by_tags:
  assumes "tlv_encodable props" and "plen \<le> length props" and "ts \<noteq> []"
  shows "if set ts \<subseteq> tlv_tag_of ` set (take plen props) then
      (\<exists>ms. map tlv_tag_of ms = ts \<and> set ms \<subseteq> set (take plen props) \<and>
        (let n = length (tlv_image ms) in
         if Le \<le> n \<and> n \<noteq> 0 then \<exists>r v. get_properties vcard props plen (Some ts) Le = Inr (r, v) \<and>
              responds_with vcard (tlv_image ms) Le r v
         else get_properties vcard props plen (Some ts) Le =
           Inr (if n = 0 then vcard_make_response VCARD7816_STATUS_ERROR_GENERAL
                else vcard_response_new_status_bytes VCARD7816_SW1_LE_ERROR (of_nat n), vcard)))
    else get_properties vcard props plen (Some ts) Le =
      Inr (vcard_make_response VCARD7816_STATUS_ERROR_DATA_NOT_FOUND, vcard)"
proof (cases "matching_properties (take plen props) ts")
  case None
  then have "\<not> set ts \<subseteq> tlv_tag_of ` set (take plen props)" using matching_complete by blast
  then show ?thesis using None assms by (simp add: get_properties_def)
next
  case (Some ms)
  then have sub: "set ts \<subseteq> tlv_tag_of ` set (take plen props)" using matching_complete by blast
  have ms: "set ms \<subseteq> set (take plen props)" "map tlv_tag_of ms = ts" using matching_subset [OF Some] by auto
  then have "set ms \<subseteq> set props" using set_take_subset [of plen props] by blast
  then have enc: "simpletlv_encode ms 0 = Some (tlv_image ms)"
    using encodable_subset [OF assms(1)] by (simp add: encode_both)
  obtain r v where new: "vcard_response_new vcard (tlv_image ms) Le VCARD7816_STATUS_SUCCESS = (r, v)" by fastforce
  have "get_properties vcard props plen (Some ts) Le =
    (if tlv_image ms = [] then Inr (vcard_make_response VCARD7816_STATUS_ERROR_GENERAL, vcard)
     else if Le > length (tlv_image ms) then
       Inr (vcard_response_new_status_bytes VCARD7816_SW1_LE_ERROR (of_nat (length (tlv_image ms))), vcard)
     else Inr (r, v))"
    using Some assms(2,3) enc new by (simp add: get_properties_def)
  then show ?thesis
    using sub ms response_new_responds [OF new]
    by (auto simp: Let_def intro!: exI [of _ ms])
qed

theorem get_properties_by_tags_witness:
  "\<exists>r v. get_properties (vcard_new ()) [TLV_LEAF 0x01 [7], TLV_LEAF 0x40 [9]] 2 (Some [0x40]) 3 = Inr (r, v) \<and>
     responds_with (vcard_new ()) [0x40, 1, 9] 3 r v"
proof -
  have one: "ms = [TLV_LEAF 0x40 [9]]"
    if "map tlv_tag_of ms = [0x40]" "set ms \<subseteq> {TLV_LEAF 0x01 [7], TLV_LEAF 0x40 [9]}" for ms
    using that by (cases ms) auto
  have ok: "tlv_encodable [TLV_LEAF 0x01 [7], TLV_LEAF 0x40 [9]]" by (simp add: tag_ok_def)
  have "set [0x40] \<subseteq> tlv_tag_of ` set (take 2 [TLV_LEAF 0x01 [7], TLV_LEAF 0x40 [9]])" by simp
  with get_properties_by_tags [OF ok, of 2 "[0x40]" 3 "vcard_new ()"]
  have ex: "\<exists>ms. map tlv_tag_of ms = [0x40] \<and> set ms \<subseteq> {TLV_LEAF 0x01 [7], TLV_LEAF 0x40 [9]} \<and>
    (let n = length (tlv_image ms) in
         if 3 \<le> n \<and> n \<noteq> 0 then \<exists>r v. get_properties (vcard_new ()) [TLV_LEAF 0x01 [7], TLV_LEAF 0x40 [9]] 2 (Some [0x40]) 3 = Inr (r, v) \<and>
              responds_with (vcard_new ()) (tlv_image ms) 3 r v
         else get_properties (vcard_new ()) [TLV_LEAF 0x01 [7], TLV_LEAF 0x40 [9]] 2 (Some [0x40]) 3 =
           Inr (if n = 0 then vcard_make_response VCARD7816_STATUS_ERROR_GENERAL
                else vcard_response_new_status_bytes VCARD7816_SW1_LE_ERROR (of_nat n), vcard_new ()))"
    by simp
  then show ?thesis
    by (elim exE conjE) (drule (1) one, simp add: tlv_header_def)
qed

end
