(* ===== verification/Gp_Msft.thy ===== *)
theory Gp_Msft
  imports Cac_Applets
begin

text \<open>
  The two containers without private data: the Global Platform card manager (\<open>src/gp.c\<close>) and the
  Microsoft plug and play container (\<open>src/msft.c\<close>).
\<close>

abbreviation "GP_GET_DATA \<equiv> (0xca :: byte)"

section \<open>Global Platform\<close>

definition gp_container_aid :: bytes where
  "gp_container_aid = [0xa0, 0x00, 0x00, 0x00, 0x03, 0x00, 0x00]"

definition cplp_data :: bytes where
  "cplp_data =
     [0x9f, 0x7f, 0x2a, 0x00, 0x05, 0x00, 0x45, 0xd0, 0x01, 0x40, 0x21, 0x01, 0x01, 0x07, 0x4f,
      0x00, 0x00, 0x00, 0x00, 0x00, 0x00, 0x47, 0x92, 0x72, 0x05, 0x16, 0x73, 0x72, 0x05, 0x16,
      0x74, 0x72, 0x05, 0x00, 0x00, 0x0a, 0x40, 0x00, 0x00, 0x00, 0x00, 0x00, 0x09, 0x29, 0xbb]"

definition card_recognition_data :: bytes where
  "card_recognition_data =
     [0x66, 0x31, 0x73, 0x2f, 0x06, 0x07, 0x2a, 0x86, 0x48, 0x86, 0xfc, 0x6b, 0x01, 0x60, 0x0c,
      0x06, 0x0a, 0x2a, 0x86, 0x48, 0x86, 0xfc, 0x6b, 0x02, 0x02, 0x02, 0x01, 0x63, 0x09, 0x06,
      0x07, 0x2a, 0x86, 0x48, 0x86, 0xfc, 0x6b, 0x03, 0x64, 0x0b, 0x06, 0x09, 0x2a, 0x86, 0x48,
      0x86, 0xfc, 0x6b, 0x04, 0x03, 0x10]"

text \<open>The tag of GET DATA.\<close>

definition data_tag :: "VCardAPDU \<Rightarrow> nat" where
  "data_tag apdu = be16 (a_p1 apdu) (a_p2 apdu)"

text \<open>
  The card production life cycle data gets the first six bytes of the serial of the card. The code
  writes them into its static array, which the next card without a serial then shows; the model
  is of one card, whose serial does not change, and starts from the array as it is initialised.
\<close>

definition gp_applet_container_process_apdu :: "VCardAPDU \<Rightarrow> ('p, 's) VCard \<Rightarrow> ('p, 's) VCard handled" where
  "gp_applet_container_process_apdu apdu vcard =
     (if a_ins apdu = GP_GET_DATA then
        (if data_tag apdu = 0x9f7f then
           (let (ser, n) = vcard_get_serial vcard;
                cplp = (if n > 0 then take 15 cplp_data @ take 6 ser @ drop 21 cplp_data
                        else cplp_data)
            in answered (vcard_response_new vcard cplp (a_Le apdu) VCARD7816_STATUS_SUCCESS))
         else if data_tag apdu = 0x0066 then
           answered (vcard_response_new vcard card_recognition_data (a_Le apdu)
                       VCARD7816_STATUS_SUCCESS)
         else answered (vcard_make_response VCARD7816_STATUS_ERROR_DATA_NOT_FOUND, vcard))
      else Inr (VCARD_NEXT, None, vcard))"

definition gp_card_init :: "('p, 's) VCard \<Rightarrow> VCardStatus \<times> ('p, 's) VCard" where
  "gp_card_init vcard =
     (VCARD_DONE,
      vcard_add_applet vcard
        (vcard_new_applet Gp_applet_container_process_apdu None gp_container_aid))"

section \<open>Microsoft plug and play\<close>

definition msft_container_aid :: bytes where
  "msft_container_aid = [0xa0, 0x00, 0x00, 0x03, 0x97, 0x43, 0x49, 0x44, 0x5f, 0x01, 0x00]"

definition msft_get_data :: bytes where
  "msft_get_data =
     [0x30, 0x1d, 0x02, 0x01, 0x00, 0x16, 0x04, 0x4d, 0x53, 0x46, 0x54, 0x30, 0x12, 0x04, 0x10,
      0xe2, 0x80, 0xe9, 0xd2, 0x51, 0x88, 0x87, 0x4f, 0x81, 0xd6, 0x4f, 0x25, 0x4e, 0x38, 0x00,
      0x1d]"

definition msft_applet_container_process_apdu :: "VCardAPDU \<Rightarrow> ('p, 's) VCard \<Rightarrow> ('p, 's) VCard handled" where
  "msft_applet_container_process_apdu apdu vcard =
     (if a_ins apdu = GP_GET_DATA then
        (if data_tag apdu = 0x7f68 then
           answered (vcard_response_new (vcard_set_compat vcard VCARD_COMPAT_WINDOWS) msft_get_data
                       (a_Le apdu) VCARD7816_STATUS_SUCCESS)
         else answered (vcard_make_response VCARD7816_STATUS_ERROR_DATA_NOT_FOUND, vcard))
      else Inr (VCARD_NEXT, None, vcard))"

definition msft_card_init :: "('p, 's) VCard \<Rightarrow> VCardStatus \<times> ('p, 's) VCard" where
  "msft_card_init vcard =
     (VCARD_DONE,
      vcard_add_applet vcard
        (vcard_new_applet Msft_applet_container_process_apdu None msft_container_aid))"

section \<open>The contract\<close>

lemma gp_ok: "card_wf A vcard \<Longrightarrow> handled_ok A vcard (a_Le apdu) (gp_applet_container_process_apdu apdu vcard)"
  by (auto simp: gp_applet_container_process_apdu_def Let_def handled_next
      intro: answers_handled [OF answers_intros(1)] answers_handled [OF answers_intros(2)]
      split: prod.split)

lemma msft_ok:
  assumes "card_wf A vcard"
  shows "handled_ok A vcard (a_Le apdu) (msft_applet_container_process_apdu apdu vcard)"
proof -
  have "card_type (vcard_set_compat vcard c) = card_type vcard" for c
    by (simp add: vcard_set_compat_def)
  then show ?thesis
    using assms card_wf_frame(2) [OF assms]
    by (auto simp: msft_applet_container_process_apdu_def handled_next
        intro: answers_handled [OF answers_intros(1)] answers_handled [OF answers_intros(2)])
qed

section \<open>Properties\<close>

text \<open>After the Windows driver has asked the plug and play container for its data, the card
  pretends to have three PIN attempts left; before, the count is unknown.\<close>

theorem windows_login_count:
  assumes "a_ins apdu = GP_GET_DATA" and "data_tag apdu = 0x7f68"
    and "msft_applet_container_process_apdu apdu vcard = Inr (st, r, vcard')"
  shows "vcard_get_login_count vcard' = 3"
proof -
  have "(compat vcard OR 1) AND 1 \<noteq> 0"
    by (metis and_zero_eq bit_1_0 bit_and_iff bit_or_iff bit_0_eq bot_apply bot_bool_def)
  moreover have "compat vcard' = compat vcard OR 1"
    using assms
    by (auto simp: msft_applet_container_process_apdu_def answered_def vcard_set_compat_def
        VCARD_COMPAT_WINDOWS_def vcard_response_new_def resp_simps split: prod.splits if_splits)
  ultimately show ?thesis
    by (simp add: vcard_get_login_count_def vcard_emul_get_login_count_def VCARD_COMPAT_WINDOWS_def)
qed

theorem windows_login_count_witness:
  "\<exists>apdu st r vcard'. vcard_apdu_new [0x00, 0xca, 0x7f, 0x68, 0x00] = Inr apdu \<and>
     msft_applet_container_process_apdu apdu (vcard_new () :: (unit, unit) VCard) = Inr (st, r, vcard') \<and>
     vcard_get_login_count vcard' = 3"
proof -
  obtain apdu where apdu: "vcard_apdu_new [0x00, 0xca, 0x7f, 0x68, 0x00] = Inr apdu"
      "a_ins apdu = GP_GET_DATA" "data_tag apdu = 0x7f68"
    by (auto simp: vcard_apdu_new_def vcard_apdu_set_class_def vcard_apdu_set_length_def
        raw_apdu_struct_def Let_def a_cla_def a_ins_def a_p1_def a_p2_def ah_Le_def data_tag_def be16_def)
  obtain st r vcard' where run: "msft_applet_container_process_apdu apdu
      (vcard_new () :: (unit, unit) VCard) = Inr (st, r, vcard')"
    using msft_ok [where A = "\<lambda>_. True" and vcard = "vcard_new ()" and apdu = apdu, OF card_wf_new]
    unfolding handled_ok_def by blast
  show ?thesis using apdu(1) run windows_login_count [OF apdu(2,3) run] by blast
qed

end
