(* ===== verification/Cac_Init.thy ===== *)
theory Cac_Init
  imports Gp_Msft
begin

text \<open>
  Building a card: the constructors of the applets and \<open>cac_card_init\<close> of \<open>src/cac.c\<close>,
  \<open>vcard_init\<close> of \<open>src/vcard_emul_type.c\<close>, the answers to reset.

  The constructors fill static arrays of SimpleTLV members and copy them (PKI, empty and
  passthrough applets) or point into them (access control and capability containers). The model
  builds the arrays afresh for each card; \<open>None\<close> is the null pointer of a failure.
\<close>

abbreviation "CAC_PKI_TAG_CERTIFICATE \<equiv> (0x70 :: byte)"
abbreviation "CAC_PKI_TAG_CERTINFO \<equiv> (0x71 :: byte)"
abbreviation "CAC_PKI_TAG_MSCUID \<equiv> (0x72 :: byte)"
abbreviation "CAC_PKI_TAG_ERROR_DETECTION_CODE \<equiv> (0xfe :: byte)"
abbreviation "CAC_PROPERTIES_NUMBER_OBJECTS \<equiv> (0x40 :: byte)"
abbreviation "CAC_PROPERTIES_OBJECT_ID \<equiv> (0x41 :: byte)"
abbreviation "CAC_PROPERTIES_BUFFER_PROPERTIES \<equiv> (0x42 :: byte)"
abbreviation "CAC_PROPERTIES_PKI_PROPERTIES \<equiv> (0x43 :: byte)"
abbreviation "CAC_PROPERTIES_TV_OBJECT \<equiv> (0x50 :: byte)"
abbreviation "CAC_PROPERTIES_PKI_OBJECT \<equiv> (0x51 :: byte)"

section \<open>Applet identifiers\<close>

definition cac_aca_aid :: bytes where "cac_aca_aid = [0xa0, 0x00, 0x00, 0x00, 0x79, 0x03, 0x00]"
definition cac_ccc_aid :: bytes where "cac_ccc_aid = [0xa0, 0x00, 0x00, 0x01, 0x16, 0xdb, 0x00]"
definition cac_02fb_aid :: bytes where "cac_02fb_aid = [0xa0, 0x00, 0x00, 0x00, 0x79, 0x02, 0xfb]"
definition cac_1201_aid :: bytes where "cac_1201_aid = [0xa0, 0x00, 0x00, 0x00, 0x79, 0x12, 0x01]"
definition cac_1202_aid :: bytes where "cac_1202_aid = [0xa0, 0x00, 0x00, 0x00, 0x79, 0x12, 0x02]"
definition cac_02f0_aid :: bytes where "cac_02f0_aid = [0xa0, 0x00, 0x00, 0x00, 0x79, 0x02, 0xf0]"
definition cac_02f1_aid :: bytes where "cac_02f1_aid = [0xa0, 0x00, 0x00, 0x00, 0x79, 0x02, 0xf1]"
definition cac_02f2_aid :: bytes where "cac_02f2_aid = [0xa0, 0x00, 0x00, 0x00, 0x79, 0x02, 0xf2]"
definition cac_access_control_aid :: bytes where
  "cac_access_control_aid = [0xa0, 0x00, 0x00, 0x01, 0x16, 0x30, 0x00]"
definition cac_pki_certificate_aid :: bytes where
  "cac_pki_certificate_aid = [0xa0, 0x00, 0x00, 0x00, 0x79, 0x02, 0xfe]"
definition cac_pki_credential_aid :: bytes where
  "cac_pki_credential_aid = [0xa0, 0x00, 0x00, 0x00, 0x79, 0x02, 0xfd]"
definition cac_person_instance_aid :: bytes where
  "cac_person_instance_aid = [0xa0, 0x00, 0x00, 0x00, 0x79, 0x02, 0x00]"
definition cac_personnel_aid :: bytes where
  "cac_personnel_aid = [0xa0, 0x00, 0x00, 0x00, 0x79, 0x02, 0x01]"

definition pki_aid :: "nat \<Rightarrow> bytes" where
  "pki_aid i = [0xa0, 0x00, 0x00, 0x00, 0x79, 0x01, of_nat i]"

section \<open>The PKI applet\<close>

definition applet_information :: simpletlv_member where
  "applet_information = TLV_LEAF CAC_PROPERTIES_APPLET_INFORMATION [0x10, 0x02, 0x06, 0x02, 0x03]"

text \<open>The properties of a buffer: its kind and the lengths of the two files.\<close>

definition buffer_properties :: "byte \<Rightarrow> nat \<Rightarrow> nat \<Rightarrow> simpletlv_member" where
  "buffer_properties kind tlen vlen =
     TLV_LEAF CAC_PROPERTIES_BUFFER_PROPERTIES
       ([kind] @ ushort2lebytes (of_nat tlen) @ ushort2lebytes (of_nat vlen))"

definition pki_buffer :: "bytes \<Rightarrow> simpletlv_member list" where
  "pki_buffer cert =
     [TLV_LEAF CAC_PKI_TAG_CERTINFO [0x00], TLV_LEAF CAC_PKI_TAG_CERTIFICATE cert,
      TLV_LEAF CAC_PKI_TAG_MSCUID [], TLV_LEAF CAC_PKI_TAG_ERROR_DETECTION_CODE []]"

definition cac_new_pki_applet_private ::
  "'s nss \<Rightarrow> nat \<Rightarrow> bytes \<Rightarrow> VCardKey option \<Rightarrow> VCardAppletPrivate option" where
  "cac_new_pki_applet_private nss i cert key =
     (case cac_create_tl_file (pki_buffer cert) of
        None \<Rightarrow> None
      | Some tags \<Rightarrow> (case cac_create_val_file (pki_buffer cert) of
          None \<Rightarrow> None
        | Some vals \<Rightarrow>
           (let bits = vcard_emul_rsa_bits nss key;
                size_byte = (if bits > 0 then of_int (bits div 8 div 8) else 0x10);
                pki_object =
                  [TLV_LEAF CAC_PROPERTIES_OBJECT_ID [0x01, of_nat i],
                   buffer_properties 0x00 (length tags) (length vals),
                   TLV_LEAF CAC_PROPERTIES_PKI_PROPERTIES [0x06, size_byte, 0x01, 0x01],
                   TLV_LEAF 0x26 [0x01]];
                props =
                  [applet_information, TLV_LEAF CAC_PROPERTIES_NUMBER_OBJECTS [0x01],
                   TLV_COMPOUND CAC_PROPERTIES_PKI_OBJECT pki_object, TLV_LEAF 0x39 [0x00],
                   TLV_LEAF 0x3a [0xa0, 0x00, 0x00, 0x00, 0x79, 0x03, 0x00]] in
            case simpletlv_clone props of
              None \<Rightarrow> None
            | Some copy \<Rightarrow>
                Some \<lparr>tag_buffer = Some tags, val_buffer = Some vals, properties = copy,
                      properties_len = 3, long_properties_len = length props,
                      coids = [(0x01, of_nat i)], applet_u = PKI_Data [] key\<rparr>)))"

definition cac_new_pki_applet ::
  "'s nss \<Rightarrow> nat \<Rightarrow> bytes \<Rightarrow> VCardKey option \<Rightarrow> VCardAppletPrivate VCardApplet option" where
  "cac_new_pki_applet nss i cert key =
     (case cac_new_pki_applet_private nss i cert key of
        None \<Rightarrow> None
      | Some p \<Rightarrow> Some (vcard_set_applet_private
          (vcard_new_applet Cac_applet_pki_process_apdu (Some Cac_applet_pki_reset) (pki_aid i)) p))"

section \<open>The card capabilities container\<close>

definition card_identifier :: bytes where
  "card_identifier =
     [0xa0, 0x00, 0x00, 0x00, 0x79, 0x03, 0x02, 0x40, 0x70, 0x50, 0x72, 0x36, 0x0e, 0x00, 0x00,
      0x58, 0xbd, 0x00, 0x2c, 0x19, 0xb5]"

text \<open>A card URL: the registered identifier, the type, the object, the applet, seven unused bytes.\<close>

definition cardurl :: "bytes \<Rightarrow> byte \<Rightarrow> byte \<times> byte \<Rightarrow> byte \<times> byte \<Rightarrow> bytes" where
  "cardurl rid t object applet =
     rid @ [t, fst object, snd object, fst applet, snd applet] @ replicate (11 - length rid) 0x00"

definition common_cardurls :: "bytes list" where
  "common_cardurls =
     (let dod = [0xa0, 0x00, 0x00, 0x00, 0x79]; gsc = [0xa0, 0x00, 0x00, 0x01, 0x16] in
      [cardurl dod 0x01 (0x02, 0xfb) (0x02, 0xfb), cardurl dod 0x01 (0x02, 0xfe) (0x02, 0xfe),
       cardurl dod 0x01 (0x02, 0xfd) (0x02, 0xfd), cardurl dod 0x01 (0x02, 0x00) (0x02, 0x00),
       cardurl dod 0x01 (0x02, 0x01) (0x02, 0x01), cardurl gsc 0x01 (0x30, 0x00) (0x30, 0x00),
       cardurl gsc 0x01 (0x60, 0x10) (0x30, 0x00), cardurl gsc 0x01 (0x60, 0x30) (0x30, 0x00),
       cardurl gsc 0x01 (0x90, 0x00) (0x30, 0x00), cardurl dod 0x01 (0x12, 0x01) (0x12, 0x01),
       cardurl dod 0x01 (0x12, 0x02) (0x12, 0x02)])"

definition pki_cardurl :: "nat \<Rightarrow> bytes" where
  "pki_cardurl i = cardurl [0xa0, 0x00, 0x00, 0x00, 0x79] 0x04 (0x01, of_nat i) (0x01, of_nat i)"

definition acr_table_value :: bytes where
  "acr_table_value =
     [0x07, 0xa0, 0x00, 0x00, 0x00, 0x79, 0x03, 0x00, 0x00, 0x00, 0x00, 0x00, 0x00, 0x00, 0x00,
      0x00, 0x00]"

text \<open>The ten entries for PKI objects are \<open>SIMPLETLV_TYPE_NONE\<close>, with a null value, as far as
  the card has no certificate for them.\<close>

definition ccc_buffer :: "nat \<Rightarrow> simpletlv_member list" where
  "ccc_buffer cert_count =
     [TLV_LEAF 0xf0 card_identifier, TLV_LEAF 0xf1 [0x21], TLV_LEAF 0xf2 [0x21]] @
     map (TLV_LEAF 0xf3) common_cardurls @
     map (\<lambda>i. if i < cert_count then TLV_LEAF 0xf3 (pki_cardurl i) else TLV_NONE 0xf3 [])
       [0, 1, 2, 3, 4, 5, 6, 7, 8, 9] @
     [TLV_LEAF 0xf4 [0x00], TLV_LEAF 0xf5 [0x10], TLV_LEAF 0xf6 acr_table_value,
      TLV_LEAF 0xf7 [], TLV_LEAF 0xfa [], TLV_LEAF 0xfb [], TLV_LEAF 0xfc [], TLV_LEAF 0xfd [],
      TLV_LEAF 0xfe []]"

text \<open>The compound has three members and says it has two.\<close>

definition cac_new_ccc_applet_private :: "nat \<Rightarrow> VCardAppletPrivate option" where
  "cac_new_ccc_applet_private cert_count =
     (if cert_count > 10 then None
      else (case cac_create_tl_file (ccc_buffer cert_count) of
          None \<Rightarrow> None
        | Some tags \<Rightarrow> (case cac_create_val_file (ccc_buffer cert_count) of
            None \<Rightarrow> None
          | Some vals \<Rightarrow>
             (let tv_object =
                    [TLV_LEAF CAC_PROPERTIES_OBJECT_ID [0xdb, 0x00],
                     buffer_properties 0x00 (length tags) (length vals), TLV_LEAF 0x26 [0x01]];
                  props =
                    [applet_information, TLV_LEAF CAC_PROPERTIES_NUMBER_OBJECTS [0x01],
                     TLV_COMPOUND CAC_PROPERTIES_TV_OBJECT (take 2 tv_object),
                     TLV_LEAF 0x39 [0x00],
                     TLV_LEAF 0x3a [0xa0, 0x00, 0x00, 0x00, 0x79, 0x03, 0x00]]
              in Some \<lparr>tag_buffer = Some tags, val_buffer = Some vals, properties = props,
                       properties_len = 3, long_properties_len = length props,
                       coids = [(0xdb, 0x00)], applet_u = CCC_Data\<rparr>))))"

definition cac_new_ccc_applet :: "nat \<Rightarrow> VCardAppletPrivate VCardApplet option" where
  "cac_new_ccc_applet cert_count =
     (case cac_new_ccc_applet_private cert_count of
        None \<Rightarrow> None
      | Some p \<Rightarrow> Some (vcard_set_applet_private
          (vcard_new_applet Cac_common_process_apdu_read None cac_ccc_aid) p))"

section \<open>The access control applet\<close>

definition cac_new_aca_applet_private :: "nat \<Rightarrow> VCardAppletPrivate" where
  "cac_new_aca_applet_private cert_count =
     (let props =
        [TLV_LEAF CAC_PROPERTIES_APPLET_INFORMATION [0x10, 0x02, 0x06, 0x02, 0x02],
         TLV_LEAF 0x23 [0x20, 0x11, 0x00, 0x00, 0x00, 0x00, 0x00, 0x00, 0x00, 0x00, 0x00, 0x58],
         TLV_LEAF 0x2a [0x02, 0x00], TLV_LEAF 0x2b [0xa0, 0x00, 0x00, 0x00, 0x79],
         TLV_LEAF 0x22 [0x00, 0x00, 0x00, 0xda, 0x01, 0xb4, 0x03, 0x30, 0x00, 0x00, 0x00, 0x70,
                        0x00, 0x51, 0x02, 0x9d],
         TLV_LEAF 0x2c [0x00], TLV_LEAF 0x20 [0x08, 0x01], TLV_LEAF 0x21 [0x0f],
         TLV_LEAF 0x32 [0x03, 0x03, 0x03, 0x03], TLV_LEAF 0x30 [0x08],
         TLV_LEAF 0x31 [0x06, 0x08, 0x00, 0x00], TLV_LEAF 0x24 [0xff], TLV_LEAF 0x25 [0x01, 0x00],
         TLV_LEAF 0x26 [0x01]]
      in \<lparr>tag_buffer = None, val_buffer = None, properties = props, properties_len = 1,
          long_properties_len = 14, coids = [(0x03, 0x00)], applet_u = ACA_Data cert_count\<rparr>)"

definition cac_new_aca_applet :: "nat \<Rightarrow> VCardAppletPrivate VCardApplet" where
  "cac_new_aca_applet cert_count =
     vcard_set_applet_private (vcard_new_applet Cac_applet_aca_process_apdu None cac_aca_aid)
       (cac_new_aca_applet_private cert_count)"

section \<open>Empty and passthrough containers\<close>

text \<open>The properties of an empty container, one copied compound per object. The static array has
  room for five.\<close>

fun tv_objects :: "(byte \<times> byte) list \<Rightarrow> simpletlv_member list option" where
  "tv_objects [] = Some []"
| "tv_objects ((a, b) # rest) =
     (case simpletlv_clone
             [TLV_LEAF CAC_PROPERTIES_OBJECT_ID [a, b],
              TLV_LEAF CAC_PROPERTIES_BUFFER_PROPERTIES [0x01, 0x60, 0x00, 0x60, 0x00],
              TLV_LEAF 0x26 [0x01]] of
        None \<Rightarrow> None
      | Some child \<Rightarrow> (case tv_objects rest of
          None \<Rightarrow> None
        | Some r \<Rightarrow> Some (TLV_COMPOUND CAC_PROPERTIES_TV_OBJECT child # r)))"

definition cac_new_empty_applet_private :: "(byte \<times> byte) list \<Rightarrow> fault + VCardAppletPrivate option" where
  "cac_new_empty_applet_private objects =
     (if length objects > 5 then Inl Out_Of_Bounds
      else (case tv_objects objects of
          None \<Rightarrow> Inr None
        | Some tvs \<Rightarrow>
           (let props = [applet_information,
                         TLV_LEAF CAC_PROPERTIES_NUMBER_OBJECTS [of_nat (length objects)]] @ tvs in
            case simpletlv_clone props of
              None \<Rightarrow> Inr None
            | Some copy \<Rightarrow>
                Inr (Some \<lparr>tag_buffer = Some [0, 0], val_buffer = Some [0, 0], properties = copy,
                           properties_len = length props, long_properties_len = length props,
                           coids = objects, applet_u = Reserved\<rparr>))))"

definition cac_new_empty_applet ::
  "bytes \<Rightarrow> (byte \<times> byte) list \<Rightarrow> fault + VCardAppletPrivate VCardApplet option" where
  "cac_new_empty_applet wanted objects =
     (case cac_new_empty_applet_private objects of
        Inl f \<Rightarrow> Inl f
      | Inr None \<Rightarrow> Inr None
      | Inr (Some p) \<Rightarrow> Inr (Some (vcard_set_applet_private
          (vcard_new_applet Cac_common_process_apdu_read None wanted) p)))"

definition cac_new_passthrough_applet_private :: "bytes \<Rightarrow> bytes \<Rightarrow> VCardAppletPrivate option" where
  "cac_new_passthrough_applet_private label wanted =
     (let o0 = wanted ! (length wanted - 2); o1 = wanted ! (length wanted - 1);
          tv_buffer =
            [TLV_LEAF CAC_PROPERTIES_OBJECT_ID [o0, o1],
             TLV_LEAF CAC_PROPERTIES_BUFFER_PROPERTIES [0x00, 0x60, 0x00, 0x60, 0x00],
             TLV_LEAF 0x26 [0x01]];
          props = [applet_information, TLV_LEAF CAC_PROPERTIES_NUMBER_OBJECTS [0x01],
                   TLV_COMPOUND CAC_PROPERTIES_TV_OBJECT tv_buffer] in
      case simpletlv_clone props of
        None \<Rightarrow> None
      | Some copy \<Rightarrow>
          Some \<lparr>tag_buffer = None, val_buffer = None, properties = copy, properties_len = 3,
                long_properties_len = 3, coids = [(o0, o1)], applet_u = PT_Data label\<rparr>)"

definition cac_new_passthrough_applet ::
  "string \<Rightarrow> bytes \<Rightarrow> VCardAppletPrivate VCardApplet option" where
  "cac_new_passthrough_applet label wanted =
     (case cac_new_passthrough_applet_private (ascii label) wanted of
        None \<Rightarrow> None
      | Some p \<Rightarrow> Some (vcard_set_applet_private
          (vcard_new_applet Cac_passthrough_container_process_apdu
             (Some Cac_applet_passthrough_reset) wanted) p))"

section \<open>The card\<close>

text \<open>The sequence of constructing and adding applets, which stops at the first failure.\<close>

fun add_applets ::
  "(fault + VCardAppletPrivate VCardApplet option) list \<Rightarrow> 's cac_card \<Rightarrow>
   fault + VCardStatus \<times> 's cac_card" where
  "add_applets [] vcard = Inr (VCARD_DONE, vcard)"
| "add_applets (x # xs) vcard =
     (case x of
        Inl f \<Rightarrow> Inl f
      | Inr None \<Rightarrow> Inr (VCARD_FAIL, vcard)
      | Inr (Some a) \<Rightarrow> add_applets xs (vcard_add_applet vcard a))"

definition cac_static_applets :: "nat \<Rightarrow> (fault + VCardAppletPrivate VCardApplet option) list" where
  "cac_static_applets cert_count =
     [Inr (Some (cac_new_aca_applet cert_count)), Inr (cac_new_ccc_applet cert_count),
      cac_new_empty_applet cac_02f0_aid [], cac_new_empty_applet cac_02f1_aid [],
      cac_new_empty_applet cac_02f2_aid [], cac_new_empty_applet cac_02fb_aid [(0x02, 0xfb)],
      cac_new_empty_applet cac_pki_certificate_aid [(0x02, 0xfe)],
      cac_new_empty_applet cac_pki_credential_aid [(0x02, 0xfd)],
      Inr (cac_new_passthrough_applet ''Person Instance'' cac_person_instance_aid),
      Inr (cac_new_passthrough_applet ''Personnel'' cac_personnel_aid),
      cac_new_empty_applet cac_1201_aid [(0x12, 0x01)],
      cac_new_empty_applet cac_1202_aid [(0x12, 0x02)],
      cac_new_empty_applet cac_access_control_aid
        [(0x30, 0x00), (0x60, 0x10), (0x60, 0x30), (0x90, 0x00)]]"

fun pki_applets_from ::
  "'s nss \<Rightarrow> nat \<Rightarrow> (bytes \<times> VCardKey option) list \<Rightarrow>
   (fault + VCardAppletPrivate VCardApplet option) list" where
  "pki_applets_from nss i [] = []"
| "pki_applets_from nss i ((cert, key) # rest) =
     Inr (cac_new_pki_applet nss i cert key) # pki_applets_from nss (i + 1) rest"

definition cac_card_init ::
  "'s nss \<Rightarrow> 's cac_card \<Rightarrow> (bytes \<times> VCardKey option) list \<Rightarrow>
   fault + VCardStatus \<times> 's cac_card" where
  "cac_card_init nss vcard certs =
     (let vcard = vcard_set_type vcard VCARD_VM in
      if length certs > 10 then Inr (VCARD_FAIL, vcard)
      else (case add_applets (pki_applets_from nss 0 certs @ cac_static_applets (length certs)) vcard of
          Inr (VCARD_DONE, vcard) \<Rightarrow> Inr (VCARD_DONE, vcard_set_atr_func vcard Cac_get_atr)
        | other \<Rightarrow> other))"

datatype VCardEmulType = VCARD_EMUL_NONE | VCARD_EMUL_CAC | VCARD_EMUL_PASSTHRU

definition vcard_init ::
  "'s nss \<Rightarrow> VCardEmulType \<Rightarrow> (bytes \<times> VCardKey option) list \<Rightarrow> 's cac_card \<Rightarrow>
   fault + VCardStatus \<times> 's cac_card" where
  "vcard_init nss type certs vcard =
     (case type of
        VCARD_EMUL_CAC \<Rightarrow>
          (case cac_card_init nss vcard certs of
             Inl f \<Rightarrow> Inl f
           | Inr (rv, vcard) \<Rightarrow>
               (let (rv, vcard) = (if rv = VCARD_DONE then gp_card_init vcard else (rv, vcard));
                    (rv, vcard) = (if rv = VCARD_DONE then msft_card_init vcard else (rv, vcard))
                in Inr (rv, vcard)))
      | _ \<Rightarrow> Inr (VCARD_FAIL, vcard))"

definition to_lower :: "char \<Rightarrow> char" where
  "to_lower c = (let n = of_char c :: nat in if 65 \<le> n \<and> n \<le> 90 then char_of (n + 32) else c)"

definition strcasecmp_eq :: "string \<Rightarrow> string \<Rightarrow> bool" where
  "strcasecmp_eq a b \<longleftrightarrow> map to_lower a = map to_lower b"

text \<open>The build option \<open>ENABLE_PCSC\<close> is an argument.\<close>

definition vcard_emul_type_from_string :: "bool \<Rightarrow> string \<Rightarrow> VCardEmulType" where
  "vcard_emul_type_from_string enable_pcsc type_string =
     (if strcasecmp_eq type_string ''CAC'' then VCARD_EMUL_CAC
      else if enable_pcsc \<and> strcasecmp_eq type_string ''PASSTHRU'' then VCARD_EMUL_PASSTHRU
      else VCARD_EMUL_NONE)"

definition vcard_emul_type_select :: VCardEmulType where
  "vcard_emul_type_select = VCARD_EMUL_CAC"

text \<open>\<open>vcard_emul_make_card\<close> for a reader with a slot: the serial is the SHA-256 digest of the first
  certificate, computed by NSS (the argument \<open>sha256\<close>), and the status of \<open>vcard_init\<close> is ignored.\<close>

definition vcard_emul_create_serial :: "(bytes \<Rightarrow> bytes option) \<Rightarrow> 's cac_card \<Rightarrow> bytes \<Rightarrow> 's cac_card" where
  "vcard_emul_create_serial sha256 vcard data =
     (case sha256 data of None \<Rightarrow> vcard | Some digest \<Rightarrow> vcard_set_serial vcard digest)"

definition vcard_emul_make_card ::
  "'s nss \<Rightarrow> (bytes \<Rightarrow> bytes option) \<Rightarrow> VCardEmulType \<Rightarrow> 's option \<Rightarrow>
   (bytes \<times> VCardKey option) list \<Rightarrow> fault + 's cac_card option" where
  "vcard_emul_make_card nss sha256 type slot certs =
     (if type = VCARD_EMUL_NONE then Inr None
      else (case slot of
          None \<Rightarrow> Inr None
        | Some s \<Rightarrow>
           (let vcard = vcard_new s;
                vcard = (if certs \<noteq> [] then vcard_emul_create_serial sha256 vcard (fst (hd certs))
                         else vcard) in
            case vcard_init nss type certs vcard of
              Inl f \<Rightarrow> Inl f | Inr (status, vcard) \<Rightarrow> Inr (Some vcard))))"

section \<open>The answer to reset\<close>

definition cac_atr :: bytes where
  "cac_atr = [0x3b, 0x7a, 0x18, 0x00, 0x00, 0x73, 0x66, 0x74, 0x65, 0x20, 0x63, 0x64, 0x31, 0x34, 0x34]"

definition cac_get_atr :: "nat \<Rightarrow> bytes" where
  "cac_get_atr atr_len = take atr_len cac_atr"

definition vcard_get_atr :: "('p, 's) VCard \<Rightarrow> nat \<Rightarrow> bytes" where
  "vcard_get_atr vcard atr_len =
     (case vcard_get_atr_func vcard of
        Some Cac_get_atr \<Rightarrow> cac_get_atr atr_len
      | None \<Rightarrow> vcard_emul_get_atr atr_len)"

section \<open>The files of a list of members\<close>

definition file_of :: "bytes \<Rightarrow> bytes" where
  "file_of img = ushort2lebytes (of_nat (length img)) @ img"

lemma tl_file_eq:
  "cac_create_tl_file tlv =
     (if no_compound tlv \<and> tlv_encodable tlv \<and> tlv_tl_image tlv \<noteq> []
      then Some (file_of (tlv_tl_image tlv)) else None)"
  by (auto simp: cac_create_tl_file_def cac_create_file_def get_length_tl encode_simps file_of_def Let_def)

lemma val_file_eq:
  "cac_create_val_file tlv =
     (if no_compound tlv \<and> tlv_val_image tlv \<noteq> [] then Some (file_of (tlv_val_image tlv)) else None)"
  by (auto simp: cac_create_val_file_def cac_create_file_def get_length_val encode_simps file_of_def Let_def)

lemmas file_simps = tl_file_eq val_file_eq

section \<open>The applets of a card are well-formed\<close>

lemma pki_private_eq:
  "cac_new_pki_applet_private nss i cert key \<noteq> None \<longleftrightarrow> length cert < 0xffff"
  "cac_new_pki_applet_private nss i cert key = Some p \<Longrightarrow>
     private_wf p \<and> applet_u p = PKI_Data [] key \<and> coids p = [(0x01, of_nat i)] \<and>
     tag_buffer p = Some (file_of (tlv_tl_image (pki_buffer cert))) \<and>
     val_buffer p = Some (file_of (tlv_val_image (pki_buffer cert)))"
  by (auto simp: cac_new_pki_applet_private_def file_simps pki_buffer_def clone_eq tag_ok_def
      applet_information_def buffer_properties_def Let_def private_wf_def tlv_header_def
      split: if_splits)

lemma pki_applet_ok:
  "cac_new_pki_applet nss i cert key \<noteq> None \<longleftrightarrow> length cert < 0xffff"
  "cac_new_pki_applet nss i cert key = Some a \<Longrightarrow> applet_ok a \<and> aid a = pki_aid i"
  using pki_private_eq [of nss i cert key]
  by (auto simp: cac_new_pki_applet_def applet_ok_def vcard_set_applet_private_def
      vcard_new_applet_def pki_aid_def split: option.splits)

lemma image_append:
  "tlv_encodable (xs @ ys) \<longleftrightarrow> tlv_encodable xs \<and> tlv_encodable ys"
  "no_compound (xs @ ys) \<longleftrightarrow> no_compound xs \<and> no_compound ys"
  "tlv_tl_image (xs @ ys) = tlv_tl_image xs @ tlv_tl_image ys"
  "tlv_val_image (xs @ ys) = tlv_val_image xs @ tlv_val_image ys"
proof -
  show "tlv_encodable (xs @ ys) \<longleftrightarrow> tlv_encodable xs \<and> tlv_encodable ys"
    by (induction xs rule: tlv_encodable.induct) auto
  show "no_compound (xs @ ys) \<longleftrightarrow> no_compound xs \<and> no_compound ys"
    by (induction xs rule: no_compound.induct) auto
  show "tlv_tl_image (xs @ ys) = tlv_tl_image xs @ tlv_tl_image ys"
    by (induction xs rule: tlv_tl_image.induct) auto
  show "tlv_val_image (xs @ ys) = tlv_val_image xs @ tlv_val_image ys"
    by (induction xs rule: tlv_val_image.induct) auto
qed

lemma common_urls_ok:
  "tlv_encodable (map (TLV_LEAF 0xf3) common_cardurls)" "no_compound (map (TLV_LEAF 0xf3) common_cardurls)"
  by (simp_all add: common_cardurls_def cardurl_def tag_ok_def Let_def)

lemma pki_urls_ok:
  "tlv_encodable (map (\<lambda>i. if i < n then TLV_LEAF 0xf3 (pki_cardurl i) else TLV_NONE 0xf3 []) is)"
  "no_compound (map (\<lambda>i. if i < n then TLV_LEAF 0xf3 (pki_cardurl i) else TLV_NONE 0xf3 []) is)"
  by (induction "is") (simp_all add: pki_cardurl_def cardurl_def tag_ok_def)

lemma ccc_files:
  "\<exists>t. cac_create_tl_file (ccc_buffer n) = Some t" "\<exists>v. cac_create_val_file (ccc_buffer n) = Some v"
proof -
  have "tlv_encodable (ccc_buffer n)" "no_compound (ccc_buffer n)"
    unfolding ccc_buffer_def image_append
    by (simp_all add: common_urls_ok pki_urls_ok card_identifier_def acr_table_value_def tag_ok_def
        del: list.map)
  moreover have "tlv_tl_image (ccc_buffer n) \<noteq> []" "tlv_val_image (ccc_buffer n) \<noteq> []"
    by (simp_all add: ccc_buffer_def card_identifier_def)
  ultimately show "\<exists>t. cac_create_tl_file (ccc_buffer n) = Some t"
    "\<exists>v. cac_create_val_file (ccc_buffer n) = Some v"
    by (simp_all add: file_simps)
qed

lemma ccc_applet_ok:
  assumes "n \<le> 10"
  shows "\<exists>a. cac_new_ccc_applet n = Some a \<and> applet_ok a \<and> aid a = cac_ccc_aid"
proof -
  obtain t v where "cac_create_tl_file (ccc_buffer n) = Some t" "cac_create_val_file (ccc_buffer n) = Some v"
    using ccc_files by blast
  then show ?thesis
    using assms
    by (simp add: cac_new_ccc_applet_def cac_new_ccc_applet_private_def Let_def applet_ok_def
        vcard_set_applet_private_def vcard_new_applet_def cac_ccc_aid_def private_wf_def
        applet_information_def buffer_properties_def tag_ok_def tlv_header_def)
qed

lemma aca_applet_ok: "n \<le> 10 \<Longrightarrow> applet_ok (cac_new_aca_applet n) \<and> aid (cac_new_aca_applet n) = cac_aca_aid"
  by (simp add: cac_new_aca_applet_def cac_new_aca_applet_private_def Let_def applet_ok_def
      vcard_set_applet_private_def vcard_new_applet_def cac_aca_aid_def private_wf_def tag_ok_def)

text \<open>The compounds of an empty container, without copying.\<close>

definition tv_object_of :: "byte \<times> byte \<Rightarrow> simpletlv_member" where
  "tv_object_of ob = TLV_COMPOUND CAC_PROPERTIES_TV_OBJECT
     [TLV_LEAF CAC_PROPERTIES_OBJECT_ID [fst ob, snd ob],
      TLV_LEAF CAC_PROPERTIES_BUFFER_PROPERTIES [0x01, 0x60, 0x00, 0x60, 0x00], TLV_LEAF 0x26 [0x01]]"

lemma tv_objects_eq: "tv_objects obs = Some (map tv_object_of obs)"
  by (induction obs rule: tv_objects.induct) (simp_all add: clone_eq tv_object_of_def)

lemma tv_objects_ok:
  "tlv_encodable (map tv_object_of obs)" "no_empty_compound (map tv_object_of obs)"
  by (induction obs) (simp_all add: tv_object_of_def tag_ok_def tlv_header_def)

lemma empty_applet_ok:
  assumes "length obs \<le> 5" and "length wanted \<le> 16"
  shows "\<exists>a. cac_new_empty_applet wanted obs = Inr (Some a) \<and> applet_ok a \<and> aid a = wanted"
  using assms
  by (simp add: cac_new_empty_applet_def cac_new_empty_applet_private_def tv_objects_eq clone_eq
      tv_objects_ok Let_def applet_ok_def vcard_set_applet_private_def vcard_new_applet_def
      private_wf_def applet_information_def tag_ok_def)

lemma passthrough_applet_ok:
  assumes "length wanted \<le> 16"
  shows "\<exists>a. cac_new_passthrough_applet label wanted = Some a \<and> applet_ok a \<and> aid a = wanted"
  using assms
  by (simp add: cac_new_passthrough_applet_def cac_new_passthrough_applet_private_def clone_eq Let_def
      applet_ok_def vcard_set_applet_private_def vcard_new_applet_def private_wf_def
      applet_information_def tag_ok_def tlv_header_def)

section \<open>Adding a list of applets\<close>

definition good_applet :: "bytes \<Rightarrow> (fault + VCardAppletPrivate VCardApplet option) \<Rightarrow> bool" where
  "good_applet wanted x \<longleftrightarrow> (\<exists>a. x = Inr (Some a) \<and> applet_ok a \<and> aid a = wanted)"

definition static_aids :: "bytes list" where
  "static_aids =
     [cac_aca_aid, cac_ccc_aid, cac_02f0_aid, cac_02f1_aid, cac_02f2_aid, cac_02fb_aid,
      cac_pki_certificate_aid, cac_pki_credential_aid, cac_person_instance_aid, cac_personnel_aid,
      cac_1201_aid, cac_1202_aid, cac_access_control_aid]"

lemmas aid_defs =
  cac_aca_aid_def cac_ccc_aid_def cac_02f0_aid_def cac_02f1_aid_def cac_02f2_aid_def
  cac_02fb_aid_def cac_pki_certificate_aid_def cac_pki_credential_aid_def
  cac_person_instance_aid_def cac_personnel_aid_def cac_1201_aid_def cac_1202_aid_def
  cac_access_control_aid_def

lemma static_good: "n \<le> 10 \<Longrightarrow> list_all2 good_applet static_aids (cac_static_applets n)"
  using ccc_applet_ok [of n] aca_applet_ok [of n]
  by (auto simp: static_aids_def cac_static_applets_def good_applet_def
      intro!: empty_applet_ok passthrough_applet_ok)
    (simp_all add: aid_defs)

definition with_applets :: "'s cac_card \<Rightarrow> VCardAppletPrivate VCardApplet list \<Rightarrow> 's cac_card" where
  "with_applets vcard as = foldl vcard_add_applet vcard as"

lemma add_applets_good:
  "list_all2 good_applet aids xs \<Longrightarrow>
   \<exists>as. add_applets xs vcard = Inr (VCARD_DONE, with_applets vcard as) \<and> map aid as = aids \<and>
     list_all applet_ok as \<and> xs = map (Inr \<circ> Some) as"
proof (induction aids xs arbitrary: vcard rule: list_all2_induct)
  case (Cons w aids x xs)
  then obtain a where a: "x = Inr (Some a)" "applet_ok a" "aid a = w"
    by (auto simp: good_applet_def)
  obtain as where "add_applets xs (vcard_add_applet vcard a) =
      Inr (VCARD_DONE, with_applets (vcard_add_applet vcard a) as)" "map aid as = aids"
      "list_all applet_ok as" "xs = map (Inr \<circ> Some) as"
    using Cons.IH by blast
  with a show ?case
    by (intro exI [of _ "a # as"]) (simp add: with_applets_def)
qed (simp add: with_applets_def)

lemma with_applets_wf:
  "card_wf applet_ok vcard \<Longrightarrow> list_all applet_ok as \<Longrightarrow> card_wf applet_ok (with_applets vcard as)"
  unfolding with_applets_def by (induction as arbitrary: vcard) (auto intro: wf_intros)

lemma add_applet_frame [frame_simps]:
  "applet_store (vcard_add_applet vcard a) = applet_store vcard @ [a]"
  "card_type (vcard_add_applet vcard a) = card_type vcard"
  "vcard_private (vcard_add_applet vcard a) = vcard_private vcard"
  by (simp_all add: vcard_add_applet_def Let_def)

lemma with_applets_store:
  "applet_store (with_applets vcard as) = applet_store vcard @ as"
  "card_type (with_applets vcard as) = card_type vcard"
  "vcard_private (with_applets vcard as) = vcard_private vcard"
  "applets_linked vcard \<Longrightarrow> applets_linked (with_applets vcard as)"
  unfolding with_applets_def
  by (induction as arbitrary: vcard) (simp_all add: frame_simps add_linked)

section \<open>Initialising a card\<close>

lemma add_applets_any:
  assumes "\<forall>x \<in> set xs. x = Inr None \<or> (\<exists>a. x = Inr (Some a) \<and> applet_ok a)"
    and "card_wf applet_ok vcard"
  shows "\<exists>st vcard'. add_applets xs vcard = Inr (st, vcard') \<and> card_wf applet_ok vcard' \<and>
    card_type vcard' = card_type vcard \<and> st \<in> {VCARD_DONE, VCARD_FAIL} \<and>
    (st = VCARD_DONE \<longleftrightarrow> Inr None \<notin> set xs)"
  using assms
proof (induction xs arbitrary: vcard)
  case (Cons x xs)
  show ?case
  proof (cases "x = Inr None")
    case False
    then obtain a where a: "x = Inr (Some a)" "applet_ok a" using Cons.prems(1) by auto
    then show ?thesis
      using Cons.IH [of "vcard_add_applet vcard a"] Cons.prems card_wf_add [OF Cons.prems(2) a(2)]
      by (simp add: frame_simps)
  qed (use Cons.prems in simp)
qed simp

lemma pki_from_any:
  "\<forall>x \<in> set (pki_applets_from nss i certs). x = Inr None \<or> (\<exists>a. x = Inr (Some a) \<and> applet_ok a)"
  "Inr None \<in> set (pki_applets_from nss i certs) \<longleftrightarrow> (\<exists>c \<in> set certs. \<not> length (fst c) < 0xffff)"
proof (induction certs arbitrary: i)
  case (Cons c certs)
  obtain cert key where c: "c = (cert, key)" by fastforce
  case 1
  show ?case
    using Cons.IH(1) pki_applet_ok(2) [of nss i cert key]
    by (cases "cac_new_pki_applet nss i cert key") (auto simp: c)
  case 2
  show ?case
    using Cons.IH(2) pki_applet_ok(1) [of nss i cert key] by (auto simp: c)
qed simp_all

lemma pki_from_good:
  "\<forall>c \<in> set certs. length (fst c) < 0xffff \<Longrightarrow>
   list_all2 good_applet (map pki_aid [i..<i + length certs]) (pki_applets_from nss i certs)"
proof (induction certs arbitrary: i)
  case (Cons c certs)
  obtain cert key where c: "c = (cert, key)" by fastforce
  then obtain a where "cac_new_pki_applet nss i cert key = Some a"
    using pki_applet_ok(1) [of nss i cert key] Cons.prems by auto
  then show ?case
    using pki_applet_ok(2) [of nss i cert key a] Cons.IH [of "Suc i"] Cons.prems
    by (simp add: c good_applet_def upt_conv_Cons del: upt_Suc)
qed simp

lemma static_any:
  "n \<le> 10 \<Longrightarrow> \<forall>x \<in> set (cac_static_applets n). \<exists>a. x = Inr (Some a) \<and> applet_ok a"
  using add_applets_good [OF static_good [of n]] by (fastforce simp: list_all_iff)

definition gp_applet :: "VCardAppletPrivate VCardApplet" where
  "gp_applet = vcard_new_applet Gp_applet_container_process_apdu None gp_container_aid"

definition msft_applet :: "VCardAppletPrivate VCardApplet" where
  "msft_applet = vcard_new_applet Msft_applet_container_process_apdu None msft_container_aid"

lemma plain_applets_ok: "applet_ok gp_applet" "applet_ok msft_applet"
  by (simp_all add: applet_ok_def gp_applet_def msft_applet_def vcard_new_applet_def
      gp_container_aid_def msft_container_aid_def)

lemma vcard_init_cases:
  "vcard_init nss VCARD_EMUL_CAC certs vcard =
     (case cac_card_init nss vcard certs of
        Inr (VCARD_DONE, v) \<Rightarrow>
          Inr (VCARD_DONE, vcard_add_applet (vcard_add_applet v gp_applet) msft_applet)
      | other \<Rightarrow> other)"
  by (auto simp: vcard_init_def gp_card_init_def msft_card_init_def gp_applet_def msft_applet_def
      Let_def split: sum.split prod.split VCardStatus.split)

lemma cac_card_init_total:
  assumes "card_wf applet_ok vcard"
  shows "\<exists>st v. cac_card_init nss vcard certs = Inr (st, v) \<and> card_wf applet_ok v \<and>
    card_type v = VCARD_VM \<and> st \<in> {VCARD_DONE, VCARD_FAIL} \<and>
    (st = VCARD_DONE \<longleftrightarrow> length certs \<le> 10 \<and> (\<forall>c \<in> set certs. length (fst c) < 0xffff))"
proof (cases "length certs \<le> 10")
  case False
  then show ?thesis
    using card_wf_frame(1) [OF assms, of VCARD_VM]
    by (simp add: cac_card_init_def Let_def) (simp add: vcard_set_type_def)
next
  case True
  let ?xs = "pki_applets_from nss 0 certs @ cac_static_applets (length certs)"
  let ?v = "vcard_set_type vcard VCARD_VM"
  have "\<forall>x \<in> set ?xs. x = Inr None \<or> (\<exists>a. x = Inr (Some a) \<and> applet_ok a)"
    using pki_from_any(1) static_any [OF True] by auto
  then obtain st v where run: "add_applets ?xs ?v = Inr (st, v)" "card_wf applet_ok v"
      "card_type v = card_type ?v" "st \<in> {VCARD_DONE, VCARD_FAIL}"
      "st = VCARD_DONE \<longleftrightarrow> Inr None \<notin> set ?xs"
    using add_applets_any [of ?xs ?v] card_wf_frame(1) [OF assms, of VCARD_VM] by blast
  have "Inr None \<in> set ?xs \<longleftrightarrow> (\<exists>c \<in> set certs. \<not> length (fst c) < 0xffff)"
    using pki_from_any(2) [of nss 0 certs] static_any [OF True] by auto
  moreover have "card_type ?v = VCARD_VM" by (simp add: vcard_set_type_def)
  moreover have "card_type (vcard_set_atr_func v f) = card_type v" for f
    by (simp add: vcard_set_atr_func_def)
  ultimately have v: "card_type v = VCARD_VM" "\<And>f. card_type (vcard_set_atr_func v f) = VCARD_VM"
    and st: "st = VCARD_DONE \<longleftrightarrow> (\<forall>c \<in> set certs. length (fst c) < 0xffff)"
    using run(3,5) by simp_all
  show ?thesis
    using True run(1,2,4) v st card_wf_frame(3) [OF run(2)]
    by (cases st) (simp_all add: cac_card_init_def Let_def)
qed

lemma cac_card_init_done:
  assumes "length certs \<le> 10" and "\<forall>c \<in> set certs. length (fst c) < 0xffff"
  shows "\<exists>as bs. cac_card_init nss vcard certs = Inr (VCARD_DONE,
      vcard_set_atr_func (with_applets (vcard_set_type vcard VCARD_VM) (as @ bs)) Cac_get_atr) \<and>
    pki_applets_from nss 0 certs = map (Inr \<circ> Some) as \<and>
    map aid (as @ bs) = map pki_aid [0..<length certs] @ static_aids"
proof -
  have good: "list_all2 good_applet (map pki_aid [0..<length certs] @ static_aids)
      (pki_applets_from nss 0 certs @ cac_static_applets (length certs))"
    using pki_from_good [OF assms(2), of 0 nss] static_good [OF assms(1)]
    by (intro list_all2_appendI) simp_all
  obtain cs where cs: "add_applets (pki_applets_from nss 0 certs @ cac_static_applets (length certs))
      (vcard_set_type vcard VCARD_VM) =
      Inr (VCARD_DONE, with_applets (vcard_set_type vcard VCARD_VM) cs)"
      "map aid cs = map pki_aid [0..<length certs] @ static_aids"
      "pki_applets_from nss 0 certs @ cac_static_applets (length certs) = map (Inr \<circ> Some) cs"
    using add_applets_good [OF good] by blast
  obtain as bs where "cs = as @ bs" "pki_applets_from nss 0 certs = map (Inr \<circ> Some) as"
    using cs(3) by (metis map_eq_append_conv)
  then show ?thesis
    using cs assms(1) by (auto simp: cac_card_init_def Let_def)
qed

lemma pki_from_nth:
  "i < length certs \<Longrightarrow> pki_applets_from nss n certs ! i =
     Inr (cac_new_pki_applet nss (n + i) (fst (certs ! i)) (snd (certs ! i)))"
proof (induction certs arbitrary: n i)
  case (Cons c certs)
  then show ?case by (cases c; cases i) simp_all
qed simp

lemma aids_distinct:
  assumes "n \<le> 10"
  shows "distinct (map pki_aid [0..<n] @ static_aids @ [gp_container_aid, msft_container_aid])"
proof -
  have "inj_on pki_aid {0..<n}"
    using assms of_nat_byte_eq_iff by (auto simp: inj_on_def pki_aid_def)
  moreover have "distinct (static_aids @ [gp_container_aid, msft_container_aid])"
    by (simp add: static_aids_def aid_defs gp_container_aid_def msft_container_aid_def)
  moreover have "pki_aid i \<notin> set (static_aids @ [gp_container_aid, msft_container_aid])" for i
    by (simp add: static_aids_def aid_defs gp_container_aid_def msft_container_aid_def pki_aid_def)
  then have "set (map pki_aid [0..<n]) \<inter> set (static_aids @ [gp_container_aid, msft_container_aid]) = {}"
    unfolding set_map by blast
  ultimately show ?thesis
    by (simp only: distinct_append distinct_map distinct_upt set_upt simp_thms)
qed

lemma vcard_init_done:
  assumes "length certs \<le> 10" and "\<forall>c \<in> set certs. length (fst c) < 0xffff"
    and "applet_store vcard = []" and "applets_linked vcard"
  shows "\<exists>as bs v. vcard_init nss VCARD_EMUL_CAC certs vcard = Inr (VCARD_DONE, v) \<and>
    vcard_private v = vcard_private vcard \<and> applet_store v = as @ bs \<and> applets_linked v \<and>
    pki_applets_from nss 0 certs = map (Inr \<circ> Some) as \<and>
    map aid (as @ bs) =
      map pki_aid [0..<length certs] @ static_aids @ [gp_container_aid, msft_container_aid]"
proof -
  obtain as bs where cac: "cac_card_init nss vcard certs = Inr (VCARD_DONE,
      vcard_set_atr_func (with_applets (vcard_set_type vcard VCARD_VM) (as @ bs)) Cac_get_atr)"
    and as: "pki_applets_from nss 0 certs = map (Inr \<circ> Some) as"
    and aids: "map aid (as @ bs) = map pki_aid [0..<length certs] @ static_aids"
    using cac_card_init_done [OF assms(1,2)] by blast
  let ?w = "vcard_set_atr_func (with_applets (vcard_set_type vcard VCARD_VM) (as @ bs)) Cac_get_atr"
  let ?v = "vcard_add_applet (vcard_add_applet ?w gp_applet) msft_applet"
  have "applets_linked (vcard_set_type vcard VCARD_VM)" "applet_store (vcard_set_type vcard VCARD_VM) = []"
    using assms(3,4) by (simp_all add: vcard_set_type_def applets_linked_def)
  then have "applets_linked ?w" "applet_store ?w = as @ bs"
    using with_applets_store [where vcard = "vcard_set_type vcard VCARD_VM" and as = "as @ bs"]
    by (simp_all add: vcard_set_atr_func_def applets_linked_def)
  then have v: "applets_linked ?v" "applet_store ?v = as @ (bs @ [gp_applet, msft_applet])"
    by (simp_all add: add_linked frame_simps)
  have "vcard_init nss VCARD_EMUL_CAC certs vcard = Inr (VCARD_DONE, ?v)"
    by (simp add: vcard_init_cases cac)
  moreover have "vcard_private ?v = vcard_private vcard"
    by (simp add: frame_simps with_applets_store vcard_set_atr_func_def vcard_set_type_def)
  moreover have "map aid (as @ (bs @ [gp_applet, msft_applet])) =
      map pki_aid [0..<length certs] @ static_aids @ [gp_container_aid, msft_container_aid]"
    using aids by (simp add: gp_applet_def msft_applet_def vcard_new_applet_def)
  ultimately show ?thesis using v as by blast
qed

lemma vcard_init_ok:
  assumes "card_wf applet_ok vcard"
  shows "\<exists>st v. vcard_init nss VCARD_EMUL_CAC certs vcard = Inr (st, v) \<and> card_wf applet_ok v \<and>
    card_type v = VCARD_VM \<and>
    (st = VCARD_DONE \<longleftrightarrow> length certs \<le> 10 \<and> (\<forall>c \<in> set certs. length (fst c) < 0xffff))"
proof -
  obtain st v where "cac_card_init nss vcard certs = Inr (st, v)" "card_wf applet_ok v"
    "card_type v = VCARD_VM" "st \<in> {VCARD_DONE, VCARD_FAIL}"
    "st = VCARD_DONE \<longleftrightarrow> length certs \<le> 10 \<and> (\<forall>c \<in> set certs. length (fst c) < 0xffff)"
    using cac_card_init_total [OF assms] by blast
  then show ?thesis
    using plain_applets_ok
    by (cases st) (simp_all add: vcard_init_cases card_wf_add frame_simps)
qed

lemma init_done:
  assumes "vcard_init nss VCARD_EMUL_CAC certs (vcard_new s) = Inr (VCARD_DONE, v)"
  shows "length certs \<le> 10" "\<forall>c \<in> set certs. length (fst c) < 0xffff"
    "\<exists>as bs. vcard_private v = s \<and> applet_store v = as @ bs \<and> applets_linked v \<and>
      pki_applets_from nss 0 certs = map (Inr \<circ> Some) as \<and>
      map aid (as @ bs) =
        map pki_aid [0..<length certs] @ static_aids @ [gp_container_aid, msft_container_aid]"
proof -
  show certs: "length certs \<le> 10" "\<forall>c \<in> set certs. length (fst c) < 0xffff"
    using vcard_init_ok [OF card_wf_new, of nss certs s] assms by auto
  have "applet_store (vcard_new s :: 'a cac_card) = []" "vcard_private (vcard_new s :: 'a cac_card) = s"
    by (simp_all add: vcard_new_def)
  then show "\<exists>as bs. vcard_private v = s \<and> applet_store v = as @ bs \<and> applets_linked v \<and>
      pki_applets_from nss 0 certs = map (Inr \<circ> Some) as \<and>
      map aid (as @ bs) =
        map pki_aid [0..<length certs] @ static_aids @ [gp_container_aid, msft_container_aid]"
    using vcard_init_done [OF certs _ new_linked, of s nss] assms by auto
qed

lemma init_private:
  "vcard_init nss VCARD_EMUL_CAC certs (vcard_new s) = Inr (VCARD_DONE, v) \<Longrightarrow> vcard_private v = s"
  by (drule init_done(3)) blast

lemma init_applets:
  assumes "vcard_init nss VCARD_EMUL_CAC certs (vcard_new s) = Inr (VCARD_DONE, v)"
  shows "map aid (applet_store v) =
      map pki_aid [0..<length certs] @ static_aids @ [gp_container_aid, msft_container_aid]"
    "a < length (applet_store v) \<Longrightarrow> vcard_find_applet v (aid (applet_store v ! a)) = Some a"
proof -
  obtain as bs where v: "applet_store v = as @ bs" "applets_linked v"
      "map aid (as @ bs) =
        map pki_aid [0..<length certs] @ static_aids @ [gp_container_aid, msft_container_aid]"
    using init_done(3) [OF assms] by blast
  then show aids: "map aid (applet_store v) =
      map pki_aid [0..<length certs] @ static_aids @ [gp_container_aid, msft_container_aid]"
    by simp
  then have "distinct (map aid (applet_store v))"
    using aids_distinct [OF init_done(1) [OF assms]] by (simp only:)
  then show "a < length (applet_store v) \<Longrightarrow> vcard_find_applet v (aid (applet_store v ! a)) = Some a"
    using find_distinct [OF v(2)] by blast
qed

text \<open>The PKI applet of the certificate \<open>i\<close>.\<close>

lemma init_pki_applet:
  assumes "vcard_init nss VCARD_EMUL_CAC certs (vcard_new s) = Inr (VCARD_DONE, v)"
    and "i < length certs"
  obtains p where "applet_store v ! i = vcard_set_applet_private
      (vcard_new_applet Cac_applet_pki_process_apdu (Some Cac_applet_pki_reset) (pki_aid i)) p"
    "private_wf p" "applet_u p = PKI_Data [] (snd (certs ! i))" "coids p = [(0x01, of_nat i)]"
    "tag_buffer p = Some (file_of (tlv_tl_image (pki_buffer (fst (certs ! i)))))"
    "val_buffer p = Some (file_of (tlv_val_image (pki_buffer (fst (certs ! i)))))"
    "read_split (tlv_tl_image (pki_buffer (fst (certs ! i)))) (tlv_val_image (pki_buffer (fst (certs ! i)))) =
       Some (pki_buffer (fst (certs ! i)))"
proof -
  obtain as bs where v: "applet_store v = as @ bs" "pki_applets_from nss 0 certs = map (Inr \<circ> Some) as"
    using init_done(3) [OF assms(1)] by blast
  note certs = init_done(2) [OF assms(1)]
  have len: "length as = length certs"
    using v(2) by (metis list_all2_lengthD pki_from_good [OF certs] length_map length_upt add_diff_cancel_left')
  let ?cert = "fst (certs ! i)" and ?key = "snd (certs ! i)"
  have a: "cac_new_pki_applet nss i ?cert ?key = Some (applet_store v ! i)"
    using pki_from_nth [OF assms(2), of nss 0] v len assms(2) by (simp add: nth_append)
  then obtain p where p: "cac_new_pki_applet_private nss i ?cert ?key = Some p"
    by (cases "cac_new_pki_applet_private nss i ?cert ?key") (simp_all add: cac_new_pki_applet_def)
  have "length ?cert < 0xffff" using certs assms(2) by simp
  then have "list_all leaf_ok (pki_buffer ?cert)"
    by (intro encodable_leaf_ok) (simp_all add: pki_buffer_def tag_ok_def)
  then have "read_split (tlv_tl_image (pki_buffer ?cert)) (tlv_val_image (pki_buffer ?cert)) =
      Some (pki_buffer ?cert)"
    by (rule read_split_leaves)
  then show thesis
    using that [of p] a p pki_private_eq(2) [OF p] by (simp add: cac_new_pki_applet_def)
qed

section \<open>Properties\<close>

text \<open>Initialising a CAC card cannot fault, whatever the certificates and keys: it always ends in a
  well-formed VM card, and it succeeds exactly when there are at most ten certificates, each
  short enough for a SimpleTLV length.\<close>

theorem vcard_init_total:
  "\<exists>st v. vcard_init nss VCARD_EMUL_CAC certs (vcard_new s) = Inr (st, v) \<and>
    card_wf applet_ok v \<and> card_type v = VCARD_VM \<and>
    (st = VCARD_DONE \<longleftrightarrow> length certs \<le> 10 \<and> (\<forall>c \<in> set certs. length (fst c) < 0xffff))"
  by (rule vcard_init_ok) (rule card_wf_new)

theorem vcard_init_total_witness:
  "\<exists>v. vcard_init demo_nss VCARD_EMUL_CAC [([0x30, 0x00], None)] (vcard_new True) = Inr (VCARD_DONE, v) \<and>
     card_wf applet_ok v \<and> card_type v = VCARD_VM"
  using vcard_init_total [of demo_nss "[([0x30, 0x00], None)]" True] by auto

text \<open>C10: An initialised card has one PKI applet per certificate, the thirteen applets of every CAC card
  and the two discovery containers, all under different AIDs, and SELECT by AID finds each of
  them.\<close>

theorem vcard_init_applets:
  assumes "vcard_init nss VCARD_EMUL_CAC certs (vcard_new s) = Inr (VCARD_DONE, v)"
  shows "map aid (applet_store v) =
      map pki_aid [0..<length certs] @ static_aids @ [gp_container_aid, msft_container_aid] \<and>
    (\<forall>a < length (applet_store v). vcard_find_applet v (aid (applet_store v ! a)) = Some a)"
  using init_applets [OF assms] by blast

theorem vcard_init_applets_witness:
  "\<exists>v. vcard_init demo_nss VCARD_EMUL_CAC [([0x30, 0x00], None)] (vcard_new True) =
       Inr (VCARD_DONE, v) \<and>
     map aid (applet_store v) =
       map pki_aid [0..<1] @ static_aids @ [gp_container_aid, msft_container_aid] \<and>
     (\<forall>a < length (applet_store v). vcard_find_applet v (aid (applet_store v ! a)) = Some a)"
proof -
  obtain v where v: "vcard_init demo_nss VCARD_EMUL_CAC [([0x30, 0x00], None)] (vcard_new True) =
      Inr (VCARD_DONE, v)"
    using vcard_init_ok [OF card_wf_new, of demo_nss "[([0x30, 0x00], None)]" True] by auto
  show ?thesis using v vcard_init_applets [OF v] by simp
qed

text \<open>The files of the PKI applet for a certificate hold that certificate: read as the client reads
  them, header by header from the tag file and value by value from the value file, they are the
  certificate information, the certificate byte for byte, and two empty records; each file begins
  with its length. The applet has the key of the certificate and an empty signing buffer.\<close>

theorem vcard_init_certificate:
  assumes "vcard_init nss VCARD_EMUL_CAC certs (vcard_new s) = Inr (VCARD_DONE, v)"
    and "i < length certs"
  shows "\<exists>p tags vals. applet_private (applet_store v ! i) = Some p \<and>
    process_apdu (applet_store v ! i) = Cac_applet_pki_process_apdu \<and>
    tag_buffer p = Some (ushort2lebytes (of_nat (length tags)) @ tags) \<and>
    val_buffer p = Some (ushort2lebytes (of_nat (length vals)) @ vals) \<and>
    read_split tags vals = Some
      [TLV_LEAF CAC_PKI_TAG_CERTINFO [0x00], TLV_LEAF CAC_PKI_TAG_CERTIFICATE (fst (certs ! i)),
       TLV_LEAF CAC_PKI_TAG_MSCUID [], TLV_LEAF CAC_PKI_TAG_ERROR_DETECTION_CODE []] \<and>
    applet_u p = PKI_Data [] (snd (certs ! i)) \<and> coids p = [(0x01, of_nat i)]"
  using assms
  by (rule init_pki_applet)
    (simp add: vcard_set_applet_private_def vcard_new_applet_def file_of_def pki_buffer_def)

theorem vcard_init_certificate_witness:
  "\<exists>v p tags vals. vcard_init demo_nss VCARD_EMUL_CAC [([0x30, 0x00], None)] (vcard_new True) =
       Inr (VCARD_DONE, v) \<and>
     applet_private (applet_store v ! 0) = Some p \<and>
     val_buffer p = Some (ushort2lebytes (of_nat (length vals)) @ vals) \<and>
     read_split tags vals = Some
       [TLV_LEAF CAC_PKI_TAG_CERTINFO [0x00], TLV_LEAF CAC_PKI_TAG_CERTIFICATE [0x30, 0x00],
        TLV_LEAF CAC_PKI_TAG_MSCUID [], TLV_LEAF CAC_PKI_TAG_ERROR_DETECTION_CODE []]"
proof -
  obtain v where v: "vcard_init demo_nss VCARD_EMUL_CAC [([0x30, 0x00], None)] (vcard_new True) =
      Inr (VCARD_DONE, v)"
    using vcard_init_ok [OF card_wf_new, of demo_nss "[([0x30, 0x00], None)]" True] by auto
  show ?thesis using v vcard_init_certificate [OF v, of 0] by fastforce
qed

end
