(* ===== verification/Card_System.thy ===== *)
theory Card_System
  imports Cac_Init
begin

text \<open>
  The card as the guest sees it: the calls through the function pointers of the applets, the
  reader's \<open>vreader_xfr_bytes\<close> and power switch (\<open>src/vreader.c\<close>), and what a sequence of them does
  to an initialised card. The interpretation of \<open>applet_interface\<close> is here.
\<close>

section \<open>Calls through function pointers\<close>

text \<open>The functions of \<open>src/capcsc.c\<close> would take the private data of these cards for a reader.\<close>

fun call_process :: "'s nss \<Rightarrow> VCardProcessAPDU \<Rightarrow> VCardAPDU \<Rightarrow> 's cac_card \<Rightarrow> 's cac_card handled" where
  "call_process nss Cac_common_process_apdu_read = cac_common_process_apdu_read"
| "call_process nss Cac_applet_pki_process_apdu = cac_applet_pki_process_apdu nss"
| "call_process nss Cac_applet_aca_process_apdu = cac_applet_aca_process_apdu"
| "call_process nss Cac_passthrough_container_process_apdu = cac_passthrough_container_process_apdu nss"
| "call_process nss Gp_applet_container_process_apdu = gp_applet_container_process_apdu"
| "call_process nss Msft_applet_container_process_apdu = msft_applet_container_process_apdu"
| "call_process nss Capcsc_apdu_cb = (\<lambda>apdu vcard. Inl Union_Misread)"

fun call_reset :: "VCardResetApplet \<Rightarrow> nat \<Rightarrow> 's cac_card \<Rightarrow> fault + 's cac_card" where
  "call_reset Cac_applet_pki_reset = cac_applet_pki_reset"
| "call_reset Cac_applet_passthrough_reset = cac_applet_passthrough_reset"
| "call_reset Capcsc_reset_cb = (\<lambda>channel vcard. Inl Union_Misread)"

definition card_process_apdu :: "'s nss \<Rightarrow> 's cac_card \<Rightarrow> VCardAPDU \<Rightarrow> 's cac_card handled" where
  "card_process_apdu nss vcard apdu =
     vcard_process_apdu nss (call_process nss) call_reset vcard apdu"

definition card_reset :: "'s nss \<Rightarrow> 's cac_card \<Rightarrow> VCardPower \<Rightarrow> fault + 's cac_card" where
  "card_reset nss vcard pwr = vcard_reset nss call_reset vcard pwr"

section \<open>The interface of the applets, interpreted\<close>

lemma call_process_ok:
  assumes "nss_ok nss" and "card_wf applet_ok vcard" and "apdu_ok apdu"
    and "current_applet vcard ! a_channel apdu = Some a"
  shows "handled_ok applet_ok vcard (a_Le apdu)
    (call_process nss (process_apdu (applet_store vcard ! a)) apdu vcard)"
proof -
  have ch: "a_channel apdu < MAX_CHANNEL" using assms(3) by (simp add: apdu_ok_def MAX_CHANNEL_def)
  show ?thesis
  proof (cases "process_apdu (applet_store vcard ! a)")
    case Cac_common_process_apdu_read
    then obtain p where p: "applet_private (applet_store vcard ! a) = Some p"
      using selected(2) [OF assms(2) ch assms(4)] by (auto simp: applet_ok_def split: option.splits)
    then have "vcard_get_current_applet_private vcard (a_channel apdu) = Some p" "private_wf p"
      using selected(2,3) [OF assms(2) ch assms(4)] by (auto dest: applet_ok_private)
    then show ?thesis
      using read_ok [OF assms(2)] Cac_common_process_apdu_read by simp
  next
    case Cac_applet_pki_process_apdu
    then show ?thesis using pki_ok [OF assms(1,2) ch assms(4)] by simp
  next
    case Cac_applet_aca_process_apdu
    then show ?thesis using aca_ok [OF assms(2) ch assms(4)] by simp
  next
    case Cac_passthrough_container_process_apdu
    then show ?thesis using passthrough_ok [OF assms(2) ch assms(4)] by simp
  next
    case Capcsc_apdu_cb
    then show ?thesis using selected(2) [OF assms(2) ch assms(4)] by (auto simp: applet_ok_def split: option.splits)
  qed (use gp_ok [OF assms(2)] msft_ok [OF assms(2)] in simp_all)
qed

lemma call_reset_ok:
  assumes "card_wf applet_ok vcard" and "ch < MAX_CHANNEL" and "current_applet vcard ! ch = Some a"
    and "reset_applet (applet_store vcard ! a) = Some f"
  shows "\<exists>vcard'. call_reset f ch vcard = Inr vcard' \<and> card_wf applet_ok vcard' \<and>
    applets_only vcard vcard'"
  using pki_reset_ok [OF assms(1-3)] passthrough_reset_ok [OF assms(1-3)] assms(4) selected(2) [OF assms(1-3)]
  by (cases f) (auto simp: applet_ok_def)

interpretation applets: applet_interface call_process call_reset applet_ok
proof
  show "applet_ok a \<Longrightarrow> length (aid a) \<le> 16" for a
    by (simp add: applet_ok_def)
qed (rule call_process_ok call_reset_ok; assumption)+

section \<open>The reader\<close>

datatype VReaderStatus = VREADER_OK | VREADER_NO_CARD | VREADER_OUT_OF_MEMORY

record 's VReader =
  reader_card :: "'s cac_card option"
  reader_name :: string
  reader_id :: "32 word"

definition vreader_new :: "string \<Rightarrow> 's VReader" where
  "vreader_new name = \<lparr>reader_card = None, reader_name = name, reader_id = -1\<rparr>"

definition vreader_card_is_present :: "'s VReader \<Rightarrow> VReaderStatus" where
  "vreader_card_is_present reader =
     (case reader_card reader of None \<Rightarrow> VREADER_NO_CARD | Some _ \<Rightarrow> VREADER_OK)"

text \<open>\<open>vreader_reset\<close>: the card is reset, and the answer to reset copied when the caller has room
  for it (\<open>atr_len\<close> of \<open>None\<close> is the null pointer of \<open>vreader_power_off\<close>).\<close>

definition vreader_reset ::
  "'s nss \<Rightarrow> 's VReader \<Rightarrow> VCardPower \<Rightarrow> nat option \<Rightarrow> fault + VReaderStatus \<times> bytes \<times> 's VReader" where
  "vreader_reset nss reader pwr atr_len =
     (case reader_card reader of
        None \<Rightarrow> Inr (VREADER_NO_CARD, [], reader)
      | Some vcard \<Rightarrow> (case card_reset nss vcard pwr of
          Inl f \<Rightarrow> Inl f
        | Inr vcard \<Rightarrow>
            Inr (VREADER_OK, (case atr_len of None \<Rightarrow> [] | Some n \<Rightarrow> vcard_get_atr vcard n),
                 reader\<lparr>reader_card := Some vcard\<rparr>)))"

definition vreader_power_on :: "'s nss \<Rightarrow> 's VReader \<Rightarrow> nat \<Rightarrow> fault + VReaderStatus \<times> bytes \<times> 's VReader" where
  "vreader_power_on nss reader atr_len = vreader_reset nss reader VCARD_POWER_ON (Some atr_len)"

definition vreader_power_off :: "'s nss \<Rightarrow> 's VReader \<Rightarrow> fault + VReaderStatus \<times> bytes \<times> 's VReader" where
  "vreader_power_off nss reader = vreader_reset nss reader VCARD_POWER_OFF None"

text \<open>\<open>vreader_xfr_bytes\<close>: the status, what was written to the receive buffer of \<open>cap\<close> bytes, and
  the reader.\<close>

definition vreader_xfr_bytes ::
  "'s nss \<Rightarrow> 's VReader \<Rightarrow> bytes \<Rightarrow> nat \<Rightarrow> fault + VReaderStatus \<times> bytes \<times> 's VReader" where
  "vreader_xfr_bytes nss reader send_buf cap =
     (case reader_card reader of
        None \<Rightarrow> Inr (VREADER_NO_CARD, [], reader)
      | Some vcard \<Rightarrow>
         (case (case vcard_apdu_new send_buf of
                  Inl status \<Rightarrow> Inr (VCARD_DONE, Some (vcard_make_response status), vcard)
                | Inr apdu \<Rightarrow> card_process_apdu nss vcard apdu) of
            Inl f \<Rightarrow> Inl f
          | Inr (card_status, response, vcard) \<Rightarrow>
             (let reader = reader\<lparr>reader_card := Some vcard\<rparr> in
              if card_status = VCARD_FAIL then Inr (VREADER_NO_CARD, [], reader)
              else (case response of
                  None \<Rightarrow> Inl Assertion_Failure
                | Some r \<Rightarrow>
                    if card_status \<noteq> VCARD_DONE then Inl Assertion_Failure
                    else Inr (VREADER_OK, take (min cap (b_total_len r)) (b_data r), reader)))))"

section \<open>What the guest can do\<close>

text \<open>The guest sends bytes or switches the power; \<open>reachable\<close> are the readers it can bring
  about from one with an initialised card.\<close>

definition reader_ok :: "'s VReader \<Rightarrow> bool" where
  "reader_ok reader \<longleftrightarrow>
     (\<exists>vcard. reader_card reader = Some vcard \<and> card_wf applet_ok vcard \<and> card_type vcard = VCARD_VM)"

inductive reachable :: "'s nss \<Rightarrow> 's VReader \<Rightarrow> 's VReader \<Rightarrow> bool" for nss reader0 where
  start: "reachable nss reader0 reader0"
| xfr: "reachable nss reader0 reader \<Longrightarrow>
    vreader_xfr_bytes nss reader send_buf cap = Inr (st, out, reader') \<Longrightarrow>
    reachable nss reader0 reader'"
| power: "reachable nss reader0 reader \<Longrightarrow>
    vreader_reset nss reader pwr atr_len = Inr (st, atr, reader') \<Longrightarrow>
    reachable nss reader0 reader'"

lemma reset_ok:
  assumes "card_wf applet_ok vcard" and "card_type vcard = VCARD_VM"
  shows "\<exists>vcard'. card_reset nss vcard pwr = Inr vcard' \<and> card_wf applet_ok vcard' \<and>
    card_type vcard' = VCARD_VM \<and> current_applet vcard' = replicate MAX_CHANNEL None \<and>
    vcard_buffer_response vcard' = None \<and>
    vcard_private vcard' = vcard_private (vcard_emul_reset nss vcard pwr)"
proof -
  let ?w = "vcard\<lparr>current_applet := replicate MAX_CHANNEL None, vcard_buffer_response := None\<rparr>"
  have w: "card_wf applet_ok ?w" using assms(1) by (auto simp: card_wf_def applets_linked_def)
  have "card_reset nss vcard pwr = Inr (vcard_emul_reset nss ?w pwr)"
  proof (cases "vcard_buffer_response vcard")
    case None
    then have same: "vcard\<lparr>current_applet := replicate MAX_CHANNEL None\<rparr> = ?w"
      by (cases vcard) simp
    have "card_reset nss vcard pwr =
        Inr (vcard_emul_reset nss (vcard\<lparr>current_applet := replicate MAX_CHANNEL None\<rparr>) pwr)"
      using assms(2) None by (simp add: card_reset_def vcard_reset_def Let_def)
    then show ?thesis
      by (rule trans) (rule arg_cong [where f = "\<lambda>v. Inr (vcard_emul_reset nss v pwr)", OF same])
  next
    case (Some b)
    then show ?thesis
      using assms(2) by (simp add: card_reset_def vcard_reset_def Let_def)
  qed
  then show ?thesis
    using w card_wf_frame(4) [OF w] assms(2)
    by (simp add: vcard_emul_reset_def vcard_emul_logout_def)
qed

lemma xfr_ok:
  assumes "nss_ok nss" and "reader_ok reader"
  shows "\<exists>r reader'. vreader_xfr_bytes nss reader send_buf cap =
      Inr (VREADER_OK, take cap (response_bytes r), reader') \<and> reader_ok reader' \<and> response_ok r"
proof -
  obtain vcard where vcard: "reader_card reader = Some vcard" "card_wf applet_ok vcard"
      "card_type vcard = VCARD_VM"
    using assms(2) by (auto simp: reader_ok_def)
  have "\<exists>r v. (case vcard_apdu_new send_buf of
        Inl status \<Rightarrow> Inr (VCARD_DONE, Some (vcard_make_response status), vcard)
      | Inr apdu \<Rightarrow> card_process_apdu nss vcard apdu) = Inr (VCARD_DONE, Some r, v) \<and>
      response_ok r \<and> card_wf applet_ok v \<and> card_type v = VCARD_VM"
  proof (cases "vcard_apdu_new send_buf")
    case (Inl st)
    then show ?thesis using vcard by (simp add: resp_simps)
  next
    case (Inr apdu)
    then have "apdu_ok apdu" by (rule apdu_new_ok)
    then obtain r v where "card_process_apdu nss vcard apdu = Inr (VCARD_DONE, Some r, v)"
        "response_ok r" "card_wf applet_ok v" "card_type v = VCARD_VM"
      using applets.process_apdu_ok [OF assms(1) vcard(2,3)] by (metis card_process_apdu_def)
    then show ?thesis unfolding Inr sum.case by blast
  qed
  then obtain r v where run: "(case vcard_apdu_new send_buf of
        Inl status \<Rightarrow> Inr (VCARD_DONE, Some (vcard_make_response status), vcard)
      | Inr apdu \<Rightarrow> card_process_apdu nss vcard apdu) = Inr (VCARD_DONE, Some r, v)"
    and ok: "response_ok r" "card_wf applet_ok v" "card_type v = VCARD_VM"
    by blast
  have "vreader_xfr_bytes nss reader send_buf cap =
      Inr (VREADER_OK, take cap (response_bytes r), reader\<lparr>reader_card := Some v\<rparr>)"
    unfolding vreader_xfr_bytes_def vcard(1) option.case run
    by (simp add: Let_def response_bytes_def)
  then show ?thesis using ok by (auto simp: reader_ok_def)
qed

lemma reader_reset_ok:
  assumes "reader_ok reader"
  shows "\<exists>atr reader'. vreader_reset nss reader pwr n = Inr (VREADER_OK, atr, reader') \<and> reader_ok reader'"
proof -
  obtain vcard where vcard: "reader_card reader = Some vcard" "card_wf applet_ok vcard"
      "card_type vcard = VCARD_VM"
    using assms by (auto simp: reader_ok_def)
  then show ?thesis
    using reset_ok [OF vcard(2,3), of nss pwr] by (auto simp: vreader_reset_def reader_ok_def)
qed

lemma reachable_ok:
  assumes "nss_ok nss" and "reader_ok reader0" and "reachable nss reader0 reader"
  shows "reader_ok reader"
  using assms(3)
proof induction
  case start
  then show ?case by (rule assms(2))
next
  case (xfr reader send_buf cap st out reader')
  then show ?case using xfr_ok [OF assms(1) xfr.IH, of send_buf cap] by auto
next
  case (power reader pwr n st atr reader')
  then show ?case using reader_reset_ok [OF power.IH, of nss pwr n] by auto
qed

end
