(* ===== verification/Guest_Protocol.thy ===== *)
theory Guest_Protocol
  imports Card_System
begin

text \<open>
  The protocol the guest speaks with an initialised card, over all the layers: what it may send
  without harm, selecting an applet by its AID, fetching a long response in pieces, reset.
\<close>

section \<open>Commands that reach the card\<close>

text \<open>The instructions every applet leaves to the card.\<close>

definition for_card :: "VCardAPDU \<Rightarrow> bool" where
  "for_card apdu \<longleftrightarrow>
     a_ins apdu \<in> {VCARD7816_INS_GET_RESPONSE, VCARD7816_INS_VERIFY} \<or>
     a_ins apdu = VCARD7816_INS_SELECT_FILE \<and> a_p1 apdu \<noteq> 0x02"

lemma common_next:
  "for_card apdu \<Longrightarrow> vcard_get_current_applet_private vcard (a_channel apdu) \<noteq> None \<Longrightarrow>
   cac_common_process_apdu_read apdu vcard = Inr (VCARD_NEXT, None, vcard) \<and>
   cac_common_process_apdu apdu vcard = Inr (VCARD_NEXT, None, vcard)"
  by (auto simp: for_card_def cac_common_process_apdu_read_def cac_common_process_apdu_def
      common_select_file_def)

lemma applet_next:
  assumes "card_wf applet_ok vcard" and "apdu_ok apdu" and "for_card apdu"
  shows "vcard_process_applet_apdu (call_process nss) vcard apdu = Inr (VCARD_NEXT, None, vcard)"
proof (cases "current_applet vcard ! a_channel apdu")
  case None
  then show ?thesis by (simp add: vcard_process_applet_apdu_def)
next
  case (Some a)
  have ch: "a_channel apdu < MAX_CHANNEL" using apdu_okD(1) [OF assms(2)] by (simp add: MAX_CHANNEL_def)
  have ins: "a_ins apdu \<noteq> GP_GET_DATA" "a_ins apdu \<noteq> CAC_UPDATE_BUFFER" "a_ins apdu \<noteq> CAC_SIGN_DECRYPT"
    "a_ins apdu \<noteq> CAC_GET_ACR" "a_ins apdu \<noteq> CAC_READ_BUFFER"
    using assms(3) by (auto simp: for_card_def)
  note sel = selected [OF assms(1) ch Some]
  show ?thesis
  proof (cases "applet_private (applet_store vcard ! a)")
    case None
    then have "process_apdu (applet_store vcard ! a)
        \<in> {Gp_applet_container_process_apdu, Msft_applet_container_process_apdu}"
      using sel(2) by (simp add: applet_ok_def)
    then show ?thesis
      using Some ins
      by (auto simp: vcard_process_applet_apdu_def gp_applet_container_process_apdu_def
          msft_applet_container_process_apdu_def)
  next
    case p: (Some p)
    then have cur: "vcard_get_current_applet_private vcard (a_channel apdu) = Some p"
      using sel(3) by simp
    have "process_apdu (applet_store vcard ! a) \<noteq> Capcsc_apdu_cb"
      using sel(2) p by (auto simp: applet_ok_def)
    then show ?thesis
      using common_next [OF assms(3), of vcard] cur ins Some
      by (cases "process_apdu (applet_store vcard ! a)")
        (simp_all add: vcard_process_applet_apdu_def cac_applet_pki_process_apdu_def
          cac_applet_aca_process_apdu_def cac_passthrough_container_process_apdu_def
          gp_applet_container_process_apdu_def msft_applet_container_process_apdu_def)
  qed
qed

text \<open>The card a command is processed on: any command but GET RESPONSE drops the buffer.\<close>

definition dropped :: "VCardAPDU \<Rightarrow> 's cac_card \<Rightarrow> 's cac_card" where
  "dropped apdu vcard =
     (if a_ins apdu = VCARD7816_INS_GET_RESPONSE then vcard
      else vcard\<lparr>vcard_buffer_response := None\<rparr>)"

lemma buffer_same: "vcard_buffer_response vcard = b \<Longrightarrow> vcard\<lparr>vcard_buffer_response := b\<rparr> = vcard"
  by (cases vcard) simp

lemma dropped_eq:
  "(if vcard_buffer_response vcard \<noteq> None \<and> a_ins apdu \<noteq> VCARD7816_INS_GET_RESPONSE
    then vcard\<lparr>vcard_buffer_response := None\<rparr> else vcard) = dropped apdu vcard"
  by (simp add: dropped_def buffer_same)

lemma dropped_frame [frame_simps]:
  "card_type (dropped apdu vcard) = card_type vcard"
  "applet_store (dropped apdu vcard) = applet_store vcard"
  "applet_list (dropped apdu vcard) = applet_list vcard"
  "current_applet (dropped apdu vcard) = current_applet vcard"
  "vcard_private (dropped apdu vcard) = vcard_private vcard"
  "compat (dropped apdu vcard) = compat vcard"
  by (simp_all add: dropped_def)

lemma dropped_wf [wf_intros]: "card_wf A vcard \<Longrightarrow> card_wf A (dropped apdu vcard)"
  by (simp add: dropped_def wf_intros)

lemma not_pts: "apdu_ok apdu \<Longrightarrow> unat (a_type apdu) \<noteq> 2"
  using apdu_okD(7) by (metis of_nat_numeral of_nat_unat ucast_id)

lemma process_cases:
  assumes "apdu_ok apdu"
  shows "card_process_apdu nss vcard apdu =
    (case vcard_process_applet_apdu (call_process nss) (dropped apdu vcard) apdu of
        Inl f \<Rightarrow> Inl f
      | Inr (status, r, vcard) \<Rightarrow>
          (if status \<noteq> VCARD_NEXT then Inr (status, r, vcard)
           else (case card_type vcard of
               VCARD_FILE_SYSTEM \<Rightarrow> vcard7816_file_system_process_apdu vcard apdu
             | VCARD_VM \<Rightarrow> vcard7816_vm_process_apdu nss call_reset vcard apdu
             | VCARD_DIRECT \<Rightarrow> Inl Assertion_Failure)))"
  using not_pts [OF assms]
  unfolding card_process_apdu_def vcard_process_apdu_def Let_def dropped_eq by simp

lemma for_card_command:
  assumes "card_wf applet_ok vcard" and "card_type vcard = VCARD_VM" and "apdu_ok apdu"
    and "for_card apdu"
  shows "card_process_apdu nss vcard apdu =
    vcard7816_vm_process_apdu nss call_reset (dropped apdu vcard) apdu"
  using applet_next [OF dropped_wf [OF assms(1)] assms(3,4)] assms(2)
  by (simp add: process_cases [OF assms(3)] frame_simps)

section \<open>Commands as bytes\<close>

text \<open>A command on channel 0 in the short format.\<close>

definition command :: "byte \<Rightarrow> byte \<Rightarrow> byte \<Rightarrow> bytes \<Rightarrow> nat option \<Rightarrow> bytes" where
  "command i p q body le = build_apdu Short 0x00 i p q body le"

lemma command_decodes:
  assumes "apdu_args_ok Short body le"
  obtains apdu where "vcard_apdu_new (command i p q body le) = Inr apdu" "apdu_ok apdu"
    "a_gen_type apdu = VCARD_7816_ISO" "a_secure_messaging apdu = 0" "a_channel apdu = 0"
    "a_ins apdu = i" "a_p1 apdu = p" "a_p2 apdu = q" "apdu_body apdu = body"
    "a_Lc apdu = length body" "a_Le apdu = (case le of None \<Rightarrow> 0 | Some n \<Rightarrow> n)"
proof -
  obtain apdu where new: "vcard_apdu_new (command i p q body le) = Inr apdu" "a_cla apdu = 0"
    and fields: "a_ins apdu = i" "a_p1 apdu = p" "a_p2 apdu = q" "apdu_body apdu = body"
    "a_Lc apdu = length body" "a_Le apdu = (case le of None \<Rightarrow> 0 | Some n \<Rightarrow> n)"
    using build_decodes [OF assms, of 0 i p q] by (auto simp: command_def)
  show thesis
    using that [OF new(1) apdu_new_ok [OF new(1)] apdu_new_plain [OF new] fields] .
qed

lemma xfr_answered:
  assumes "reader_card reader = Some vcard" and "vcard_apdu_new raw = Inr apdu"
    and "card_process_apdu nss vcard apdu = answered (r, vcard')" and "response_ok r"
    and "length (response_data r) + 2 \<le> cap"
  shows "vreader_xfr_bytes nss reader raw cap =
    Inr (VREADER_OK, response_data r @ [b_sw1 r, b_sw2 r], reader\<lparr>reader_card := Some vcard'\<rparr>)"
proof -
  have "length (response_data r) = b_len r" "b_total_len r = b_len r + 2"
    using assms(4) by (simp_all add: response_ok_def response_data_def)
  then have "take (min cap (b_total_len r)) (b_data r) = response_data r @ [b_sw1 r, b_sw2 r]"
    using assms(5) response_bytes_split [OF assms(4)] by (simp add: response_bytes_def min_absorb2)
  then show ?thesis
    using assms(1-3) by (simp add: vreader_xfr_bytes_def answered_def Let_def)
qed

section \<open>Fetching a response in pieces\<close>

definition get_response_command :: "nat \<Rightarrow> bytes" where
  "get_response_command n = command VCARD7816_INS_GET_RESPONSE 0x00 0x00 [] (Some n)"

lemma reader_okE:
  assumes "reader_ok reader"
  obtains vcard where "reader_card reader = Some vcard" "card_wf applet_ok vcard"
    "card_type vcard = VCARD_VM"
  using assms by (auto simp: reader_ok_def)

text \<open>What the guest can still fetch from the card in a reader.\<close>

definition reader_pending :: "'s VReader \<Rightarrow> bytes" where
  "reader_pending reader = (case reader_card reader of None \<Rightarrow> [] | Some vcard \<Rightarrow> pending_data vcard)"

lemma get_response_ok:
  assumes "card_wf A vcard" and "get_response vcard apdu = (r, vcard')"
  shows "response_ok r" "card_wf A vcard'" "card_type vcard' = card_type vcard"
    "length (response_data r) \<le> a_Le apdu"
  using handled_get_response [OF assms(1), of apdu] assms(2) by (auto simp: handled_ok_def answered_def)

lemma xfr_get_response:
  assumes "reader_ok reader" and "1 \<le> n" and "n \<le> 256" and "n + 2 \<le> cap"
  shows "\<exists>sw1 sw2 reader'. vreader_xfr_bytes nss reader (get_response_command n) cap =
      Inr (VREADER_OK, take n (reader_pending reader) @ [sw1, sw2], reader') \<and>
    reader_ok reader' \<and> reader_pending reader' = drop n (reader_pending reader) \<and>
    (reader_pending reader \<noteq> [] \<longrightarrow>
       sw1 = (if length (reader_pending reader) \<le> n then VCARD7816_SW1_SUCCESS
              else VCARD7816_SW1_RESPONSE_BYTES))"
proof -
  obtain vcard where vcard: "reader_card reader = Some vcard" "card_wf applet_ok vcard"
      "card_type vcard = VCARD_VM"
    using assms(1) by (rule reader_okE)
  have "apdu_args_ok Short [] (Some n)" using assms by (simp add: apdu_args_ok_def)
  then obtain apdu where apdu: "vcard_apdu_new (get_response_command n) = Inr apdu" "apdu_ok apdu"
      "a_gen_type apdu = VCARD_7816_ISO" "a_secure_messaging apdu = 0"
      "a_ins apdu = VCARD7816_INS_GET_RESPONSE" "a_Le apdu = n"
    unfolding get_response_command_def by (rule command_decodes) simp
  obtain r v where get: "get_response vcard apdu = (r, v)" by fastforce
  have "for_card apdu" "dropped apdu vcard = vcard" using apdu(5) by (simp_all add: for_card_def dropped_def)
  then have run: "card_process_apdu nss vcard apdu = answered (r, v)"
    using for_card_command [OF vcard(2,3) apdu(2)] apdu(3-5) get
    by (simp add: vcard7816_vm_process_apdu_def unsupported_ins_def)
  note data = get_response_data [OF vcard(2) get] and ok = get_response_ok [OF vcard(2) get]
  have "length (response_data r) + 2 \<le> cap" using ok(4) apdu(6) assms(4) by simp
  note xfr = xfr_answered [OF vcard(1) apdu(1) run ok(1) this]
  have "reader_pending reader = pending_data vcard" using vcard(1) by (simp add: reader_pending_def)
  then show ?thesis
    using data ok(2,3) apdu(6) vcard(3)
    by (intro exI [of _ "b_sw1 r"] exI [of _ "b_sw2 r"] exI [of _ "reader\<lparr>reader_card := Some v\<rparr>"])
      (simp add: xfr reader_ok_def reader_pending_def)
qed

text \<open>The answers to a sequence of commands, and the reader after them.\<close>

fun transmit :: "'s nss \<Rightarrow> 's VReader \<Rightarrow> (bytes \<times> nat) list \<Rightarrow> fault + bytes list \<times> 's VReader" where
  "transmit nss reader [] = Inr ([], reader)"
| "transmit nss reader ((send_buf, cap) # rest) =
     (case vreader_xfr_bytes nss reader send_buf cap of
        Inl f \<Rightarrow> Inl f
      | Inr (st, out, reader) \<Rightarrow>
          (case transmit nss reader rest of
             Inl f \<Rightarrow> Inl f | Inr (outs, reader) \<Rightarrow> Inr (out # outs, reader)))"

text \<open>An answer without its status word.\<close>

definition answer_data :: "bytes \<Rightarrow> bytes" where
  "answer_data out = take (length out - 2) out"

definition answer_sw1 :: "bytes \<Rightarrow> byte" where
  "answer_sw1 out = out ! (length out - 2)"

lemma answer_split [simp]:
  "answer_data (d @ [sw1, sw2]) = d" "answer_sw1 (d @ [sw1, sw2]) = sw1"
  by (simp_all add: answer_data_def answer_sw1_def nth_append)

definition fetches :: "nat list \<Rightarrow> (bytes \<times> nat) list" where
  "fetches ns = map (\<lambda>n. (get_response_command n, n + 2)) ns"

lemma fetch_cons:
  "vreader_xfr_bytes nss reader (get_response_command n) (n + 2) = Inr (st, out, reader1) \<Longrightarrow>
   transmit nss reader1 (fetches ns) = Inr (outs, reader') \<Longrightarrow>
   transmit nss reader (fetches (n # ns)) = Inr (out # outs, reader')"
  by (simp add: fetches_def)

lemma fetch_all:
  "reader_ok reader \<Longrightarrow> \<forall>n \<in> set ns. 1 \<le> n \<and> n \<le> 256 \<Longrightarrow>
   \<exists>outs reader'. transmit nss reader (fetches ns) = Inr (outs, reader') \<and> reader_ok reader' \<and>
     concat (map answer_data outs) = take (sum_list ns) (reader_pending reader) \<and>
     reader_pending reader' = drop (sum_list ns) (reader_pending reader) \<and>
     (ns \<noteq> [] \<and> sum_list (butlast ns) < length (reader_pending reader) \<and>
      length (reader_pending reader) \<le> sum_list ns \<longrightarrow>
        map answer_sw1 outs =
          replicate (length ns - 1) VCARD7816_SW1_RESPONSE_BYTES @ [VCARD7816_SW1_SUCCESS])"
proof (induction ns arbitrary: reader)
  case Nil
  then show ?case by (simp add: fetches_def)
next
  case (Cons n ns)
  let ?d = "reader_pending reader"
  obtain sw1 sw2 reader1 where one: "vreader_xfr_bytes nss reader (get_response_command n) (n + 2) =
      Inr (VREADER_OK, take n ?d @ [sw1, sw2], reader1)"
      "reader_ok reader1" "reader_pending reader1 = drop n ?d"
    and sw: "?d \<noteq> [] \<longrightarrow> sw1 = (if length ?d \<le> n then VCARD7816_SW1_SUCCESS
              else VCARD7816_SW1_RESPONSE_BYTES)"
    using xfr_get_response [OF Cons.prems(1), of n "n + 2" nss] Cons.prems(2) by auto
  obtain outs reader' where rest: "transmit nss reader1 (fetches ns) = Inr (outs, reader')" "reader_ok reader'"
      "concat (map answer_data outs) = take (sum_list ns) (reader_pending reader1)"
      "reader_pending reader' = drop (sum_list ns) (reader_pending reader1)"
    and sws: "ns \<noteq> [] \<and> sum_list (butlast ns) < length (reader_pending reader1) \<and>
      length (reader_pending reader1) \<le> sum_list ns \<longrightarrow>
        map answer_sw1 outs =
          replicate (length ns - 1) VCARD7816_SW1_RESPONSE_BYTES @ [VCARD7816_SW1_SUCCESS]"
    using Cons.IH [OF one(2)] Cons.prems(2) by auto
  have "map answer_sw1 ((take n ?d @ [sw1, sw2]) # outs) =
      replicate (length (n # ns) - 1) VCARD7816_SW1_RESPONSE_BYTES @ [VCARD7816_SW1_SUCCESS]"
    if "sum_list (butlast (n # ns)) < length ?d" "length ?d \<le> sum_list (n # ns)"
  proof (cases ns)
    case Nil
    then have "outs = []" using rest(1) by (simp add: fetches_def)
    then show ?thesis using that sw Nil by auto
  next
    case (Cons m ms)
    then have "n < length ?d" "sum_list (butlast ns) < length ?d - n" "length ?d - n \<le> sum_list ns"
      using that by auto
    moreover have "length ns = Suc (length ns - 1)" using Cons by simp
    ultimately show ?thesis
      using sw sws one(3) Cons by (cases "?d = []") auto
  qed
  then show ?case
    using fetch_cons [OF one(1) rest(1)] rest(2-4) one(3)
    by (simp add: take_add add.commute)
qed

section \<open>Selecting an applet\<close>

definition select_command :: "bytes \<Rightarrow> nat \<Rightarrow> bytes" where
  "select_command wanted n = command VCARD7816_INS_SELECT_FILE 0x04 0x00 wanted (Some n)"

text \<open>What the guest learns of the applet it selected.\<close>

definition select_answer :: "'s cac_card \<Rightarrow> nat \<Rightarrow> bytes \<Rightarrow> bytes" where
  "select_answer vcard a wanted =
     (if vcard_find_applet vcard gp_aid = Some a then gp_response else fci_template wanted)"

lemma responds_answer:
  "responds_with vcard buf Le r vcard' \<Longrightarrow> vcard_buffer_response vcard = None \<Longrightarrow>
   response_data r @ pending_data vcard' = buf"
  by (auto simp: responds_with_def pending_data_def split: if_splits)

lemma xfr_select:
  assumes "reader_card reader = Some vcard" and "card_wf applet_ok vcard" and "card_type vcard = VCARD_VM"
    and "wanted \<noteq> []" and "length wanted \<le> 255" and "1 \<le> n" and "n \<le> 256" and "n + 2 \<le> cap"
  shows "\<exists>d sw1 sw2 v. vreader_xfr_bytes nss reader (select_command wanted n) cap =
      Inr (VREADER_OK, d @ [sw1, sw2], reader\<lparr>reader_card := Some v\<rparr>) \<and>
    card_wf applet_ok v \<and> card_type v = VCARD_VM \<and>
    current_applet v = (current_applet vcard)[0 := vcard_find_applet vcard wanted] \<and>
    vcard_private v = vcard_private vcard \<and>
    (\<exists>v0. vcard_select_applet call_reset (vcard\<lparr>vcard_buffer_response := None\<rparr>) 0
       (vcard_find_applet vcard wanted) = Inr v0 \<and> applet_store v = applet_store v0) \<and>
    (case vcard_find_applet vcard wanted of
       None \<Rightarrow> d = [] \<and> pending_data v = [] \<and> sw1 = 0x6a \<and> sw2 = 0x82
     | Some a \<Rightarrow> d @ pending_data v = select_answer vcard a wanted)"
proof -
  have "apdu_args_ok Short wanted (Some n)" using assms by (simp add: apdu_args_ok_def)
  then obtain apdu where apdu: "vcard_apdu_new (select_command wanted n) = Inr apdu" "apdu_ok apdu"
      "a_gen_type apdu = VCARD_7816_ISO" "a_secure_messaging apdu = 0" "a_channel apdu = 0"
      "a_ins apdu = VCARD7816_INS_SELECT_FILE" "a_p1 apdu = 0x04" "apdu_body apdu = wanted"
      "a_Le apdu = n"
    unfolding select_command_def by (rule command_decodes) simp
  let ?w = "dropped apdu vcard"
  define f where "f = vcard_find_applet vcard wanted"
  have w: "card_wf applet_ok ?w" "vcard_buffer_response ?w = None"
    using dropped_wf [OF assms(2), of apdu] apdu(6) by (simp_all add: dropped_def)
  have find: "vcard_find_applet ?w x = vcard_find_applet vcard x" for x
    by (simp add: vcard_find_applet_def frame_simps)
  have "for_card apdu" using apdu(6,7) by (simp add: for_card_def)
  then have run: "card_process_apdu nss vcard apdu =
      (case select_file call_reset ?w apdu of Inl f \<Rightarrow> Inl f | Inr rc \<Rightarrow> answered rc)"
    using for_card_command [OF assms(2,3) apdu(2)] apdu(3,4,6)
    by (simp add: vcard7816_vm_process_apdu_def unsupported_ins_def)
  have f: "f = vcard_find_applet ?w (apdu_body apdu)" by (simp add: f_def find apdu(8))
  obtain v r v' where sel: "select_file call_reset ?w apdu = Inr (r, v')" "card_wf applet_ok v"
      "vcard_select_applet call_reset ?w (a_channel apdu) f = Inr v"
    and only: "applets_only (?w\<lparr>current_applet := (current_applet ?w)[a_channel apdu := f]\<rparr>) v"
    and res: "if f = None then r = vcard_make_response VCARD7816_STATUS_ERROR_FILE_NOT_FOUND \<and> v' = v
     else (r, v') = vcard_response_new v
       (if f = vcard_find_applet ?w gp_aid then gp_response else fci_template (apdu_body apdu))
       (a_Le apdu) VCARD7816_STATUS_SUCCESS"
    using applets.select_file_result [OF w(1) apdu(2,7) f] by blast
  have v: "current_applet v = (current_applet vcard)[0 := f]" "card_type v = VCARD_VM"
      "vcard_buffer_response v = None" "vcard_private v = vcard_private vcard"
    using applets_only_frame [OF only] w(2) assms(3) apdu(5) by (simp_all add: frame_simps)
  have responds: "responds_with v (if f = None then [] else select_answer vcard (the f) wanted) n r v'"
    using res apdu(8,9)
    by (cases f) (auto simp: select_answer_def find responds_with_def resp_simps
        dest!: response_new_responds [OF sym])
  have frame: "response_ok r" "length (response_data r) \<le> n" "card_wf applet_ok v'"
      "current_applet v' = current_applet v" "card_type v' = card_type v"
      "applet_store v' = applet_store v" "vcard_private v' = vcard_private v"
    using responds_ok [OF responds] responds_length [OF responds] responds_wf [OF responds sel(2)]
      responds_frame [OF responds] by simp_all
  have "card_process_apdu nss vcard apdu = answered (r, v')" by (simp add: run sel(1))
  then have "vreader_xfr_bytes nss reader (select_command wanted n) cap =
      Inr (VREADER_OK, response_data r @ [b_sw1 r, b_sw2 r], reader\<lparr>reader_card := Some v'\<rparr>)"
    using xfr_answered [OF assms(1) apdu(1) _ frame(1)] frame(2) assms(8) by simp
  moreover have "case f of None \<Rightarrow> response_data r = [] \<and> pending_data v' = [] \<and> b_sw1 r = 0x6a \<and> b_sw2 r = 0x82
     | Some a \<Rightarrow> response_data r @ pending_data v' = select_answer vcard a wanted"
    using responds_answer [OF responds v(3)] res v(3)
    by (cases f) (auto simp: resp_simps)
  moreover have "vcard_select_applet call_reset (vcard\<lparr>vcard_buffer_response := None\<rparr>) 0 f = Inr v"
    using sel(3) apdu(5,6) by (simp add: dropped_def)
  ultimately show ?thesis
    using frame v unfolding f_def [symmetric]
    by (intro exI [of _ "response_data r"] exI [of _ "b_sw1 r"] exI [of _ "b_sw2 r"] exI [of _ v']) simp
qed

section \<open>Making a card\<close>

lemma make_card_ok:
  assumes "vcard_emul_make_card nss sha256 VCARD_EMUL_CAC (Some s) certs = Inr (Some vcard)"
  shows "card_wf applet_ok vcard" "card_type vcard = VCARD_VM"
proof -
  define v where "v = (if certs \<noteq> [] then vcard_emul_create_serial sha256 (vcard_new s) (fst (hd certs))
                       else vcard_new s)"
  have "card_wf applet_ok v"
    by (simp add: v_def vcard_emul_create_serial_def card_wf_new card_wf_serial split: option.split)
  then obtain st v' where "vcard_init nss VCARD_EMUL_CAC certs v = Inr (st, v')" "card_wf applet_ok v'"
      "card_type v' = VCARD_VM"
    using vcard_init_ok by blast
  then have "vcard_emul_make_card nss sha256 VCARD_EMUL_CAC (Some s) certs = Inr (Some v')"
    by (simp add: vcard_emul_make_card_def flip: v_def)
  then show "card_wf applet_ok vcard" "card_type vcard = VCARD_VM"
    using assms \<open>card_wf applet_ok v'\<close> \<open>card_type v' = VCARD_VM\<close> by simp_all
qed

section \<open>Properties\<close>



text \<open>C6: A response that did not fit is fetched with GET RESPONSE in pieces of the guest's choice: the
  pieces put together are the response, each piece is taken from where the last one ended, and
  when the last piece completes it the status words of the others say that there is more and the
  last one says success.\<close>

theorem response_fetched_in_pieces:
  assumes "reader_ok reader" and "\<forall>n \<in> set ns. 1 \<le> n \<and> n \<le> 256"
  shows "\<exists>outs reader'. transmit nss reader (fetches ns) = Inr (outs, reader') \<and>
     concat (map answer_data outs) = take (sum_list ns) (reader_pending reader) \<and>
     reader_pending reader' = drop (sum_list ns) (reader_pending reader) \<and>
     (ns \<noteq> [] \<and> sum_list (butlast ns) < length (reader_pending reader) \<and>
      length (reader_pending reader) \<le> sum_list ns \<longrightarrow>
        map answer_sw1 outs =
          replicate (length ns - 1) VCARD7816_SW1_RESPONSE_BYTES @ [VCARD7816_SW1_SUCCESS])"
  using fetch_all [OF assms] by blast

theorem response_fetched_in_pieces_witness:
  "\<exists>outs reader'. transmit demo_nss (vreader_new ''R''\<lparr>reader_card := Some ((vcard_new True)
       \<lparr>vcard_buffer_response := Some (vcard_buffer_response_new [1, 2, 3])\<rparr>)\<rparr>) (fetches [2, 1]) =
     Inr (outs, reader') \<and> concat (map answer_data outs) = [1, 2, 3] \<and>
     reader_pending reader' = [] \<and> map answer_sw1 outs = [0x61, 0x90]"
proof -
  let ?v = "(vcard_new True)\<lparr>vcard_buffer_response := Some (vcard_buffer_response_new [1, 2, 3])\<rparr> :: bool cac_card"
  have "card_wf applet_ok ?v" "card_type ?v = VCARD_VM" "pending_data ?v = [1, 2, 3]"
    by (auto simp: card_wf_def vcard_new_def applets_linked_def buffer_response_ok_def
        vcard_buffer_response_new_def pending_data_def pending_def)
  then show ?thesis
    using response_fetched_in_pieces [of "vreader_new ''R''\<lparr>reader_card := Some ?v\<rparr>" "[2, 1]" demo_nss]
    by (simp add: reader_ok_def reader_pending_def)
qed

text \<open>C9: A response that did not fit is never mistaken for the answer to a later command: any
  command but GET RESPONSE is processed as if nothing was left to fetch.\<close>

theorem command_drops_pending:
  assumes "apdu_ok apdu" and "a_ins apdu \<noteq> VCARD7816_INS_GET_RESPONSE"
  shows "card_process_apdu nss vcard apdu =
    card_process_apdu nss (vcard\<lparr>vcard_buffer_response := None\<rparr>) apdu"
  using assms(2) by (simp add: process_cases [OF assms(1)] dropped_def)

theorem command_drops_pending_witness:
  "\<exists>apdu. vcard_apdu_new [0, 0x20, 0, 0] = Inr apdu \<and>
     card_process_apdu demo_nss (vcard_new True\<lparr>vcard_buffer_response := Some (vcard_buffer_response_new [1])\<rparr>) apdu =
     card_process_apdu demo_nss (vcard_new True\<lparr>vcard_buffer_response := None\<rparr>) apdu"
proof -
  obtain apdu where "vcard_apdu_new [0, 0x20, 0, 0] = Inr apdu" "a_ins apdu = 0x20"
    by (auto simp: vcard_apdu_new_def vcard_apdu_set_class_def vcard_apdu_set_length_def
        raw_apdu_struct_def Let_def a_cla_def a_ins_def)
  then show ?thesis
    using command_drops_pending [OF apdu_new_ok, of "[0, 0x20, 0, 0]" apdu demo_nss
        "vcard_new True\<lparr>vcard_buffer_response := Some (vcard_buffer_response_new [1])\<rparr>"] by auto
qed



text \<open>C8: Switching the power forgets the session: no applet is selected on any channel, nothing is
  left to fetch, and a token that is logged in is logged out.\<close>

theorem power_forgets_session:
  assumes "reader_ok reader"
  shows "\<exists>atr reader' vcard. vreader_reset nss reader pwr n = Inr (VREADER_OK, atr, reader') \<and>
    reader_card reader' = Some vcard \<and> reader_pending reader' = [] \<and>
    current_applet vcard = replicate MAX_CHANNEL None \<and>
    (\<exists>s. s = vcard_private (the (reader_card reader)) \<and>
       vcard_private vcard = (if nss_emul_init nss \<and> PK11_IsLoggedIn nss s
                              then PK11_Logout nss s else s))"
proof -
  obtain vcard where vcard: "reader_card reader = Some vcard" "card_wf applet_ok vcard"
    "card_type vcard = VCARD_VM"
    using assms by (rule reader_okE)
  obtain v where v: "card_reset nss vcard pwr = Inr v" "current_applet v = replicate MAX_CHANNEL None"
    "vcard_buffer_response v = None" "vcard_private v = vcard_private (vcard_emul_reset nss vcard pwr)"
    using reset_ok [OF vcard(2,3), of nss pwr] by auto
  show ?thesis
    using vcard(1) v
    by (simp add: vreader_reset_def reader_pending_def pending_data_def vcard_emul_reset_def
        vcard_emul_logout_def)
qed

theorem power_forgets_session_witness:
  "\<exists>atr reader' vcard. vreader_reset demo_nss (vreader_new ''R''\<lparr>reader_card := Some (vcard_new True)\<rparr>)
      VCARD_POWER_OFF None = Inr (VREADER_OK, atr, reader') \<and>
    reader_card reader' = Some vcard \<and> vcard_private vcard = False"
proof -
  have "reader_ok (vreader_new ''R''\<lparr>reader_card := Some (vcard_new True)\<rparr>)"
    using card_wf_new [of applet_ok True] by (simp add: reader_ok_def vcard_new_def)
  from power_forgets_session [OF this, of demo_nss VCARD_POWER_OFF None]
  show ?thesis by (auto simp: demo_nss_def vcard_new_def)
qed

end
