(* ===== verification/Guest_Files.thy ===== *)
theory Guest_Files
  imports Guest_Protocol
begin

text \<open>
  What the guest does with an applet it has selected, over all the layers: reading the two files in
  pieces, and signing in pieces. The sessions start from a card made by \<open>vcard_init\<close>.
\<close>

section \<open>Reading a file in pieces\<close>

text \<open>The file of tags or of values of an applet.\<close>

definition applet_file :: "byte \<Rightarrow> VCardAppletPrivate \<Rightarrow> bytes option" where
  "applet_file kind p = (if kind = CAC_FILE_VALUE then val_buffer p
                         else if kind = CAC_FILE_TAG then tag_buffer p else None)"

definition read_command :: "byte \<Rightarrow> nat \<Rightarrow> nat \<Rightarrow> bytes" where
  "read_command kind off n =
     command CAC_READ_BUFFER (of_nat (off div 256)) (of_nat off) [kind, of_nat n] (Some n)"

lemma be16_split: "off < 65536 \<Longrightarrow> be16 (of_nat (off div 256)) (of_nat off) = off"
  by (simp add: be16_def unsigned_of_nat take_bit_eq_mod)

lemma read_file_now:
  assumes "n \<le> Le"
  shows "read_file vcard (Some f) n off Le =
    (if off \<le> length f
     then answered (vcard_response_set_status_bytes (vcard_response_new_data (take n (drop off f)))
                      VCARD7816_SW1_SUCCESS 0, vcard)
     else answered (vcard_make_response VCARD7816_STATUS_ERROR_P1_P2_INCORRECT, vcard))"
proof (cases "off \<le> length f")
  case True
  then have sz: "min (int n) (int (length f) - int off) = int (min n (length f - off))" by linarith
  have "take (min n (length f - off)) (drop off f) = take n (drop off f)"
    by (metis length_drop order.refl take_all take_take)
  moreover have "\<not> (Le < length f - off \<and> Le < n)" using assms by simp
  ultimately show ?thesis
    using True by (auto simp add: read_file_def file_len_def sz Let_def vcard_response_new_bytes_def)
qed (simp add: read_file_def file_len_def Let_def)

text \<open>The handlers whose READ BUFFER is the one of \<open>cac_common_process_apdu_read\<close>.\<close>

definition reads_files :: "VCardProcessAPDU \<Rightarrow> VCardAppletPrivate \<Rightarrow> bool" where
  "reads_files f p \<longleftrightarrow> f \<in> {Cac_common_process_apdu_read, Cac_applet_pki_process_apdu} \<or>
     f = Cac_passthrough_container_process_apdu \<and> tag_buffer p \<noteq> None \<and> val_buffer p \<noteq> None"

lemma process_read:
  assumes "current_applet vcard ! a_channel apdu = Some a"
    and "applet_private (applet_store vcard ! a) = Some p"
    and "reads_files (process_apdu (applet_store vcard ! a)) p" and "a_ins apdu = CAC_READ_BUFFER"
    and "apdu_ok apdu"
  shows "card_process_apdu nss vcard apdu = cac_common_process_apdu_read apdu (dropped apdu vcard)"
proof -
  let ?w = "dropped apdu vcard"
  have cur: "vcard_get_current_applet_private ?w (a_channel apdu) = Some p"
    using assms(1,2) by (simp add: vcard_get_current_applet_private_def frame_simps)
  have run: "vcard_process_applet_apdu (call_process nss) ?w apdu =
      cac_common_process_apdu_read apdu ?w"
    using assms(1,3,4) cur
    by (cases "process_apdu (applet_store vcard ! a)")
      (auto simp: vcard_process_applet_apdu_def frame_simps reads_files_def
        cac_applet_pki_process_apdu_def cac_passthrough_container_process_apdu_def)
  have "\<exists>r v. cac_common_process_apdu_read apdu ?w = answered (r, v)"
    using read_buffer_answers [OF cur assms(4)] by (auto simp: answers_def)
  then show ?thesis
    unfolding process_cases [OF assms(5)] run by (auto simp: answered_def)
qed

text \<open>The reader with this applet selected on channel 0.\<close>

definition selected_on ::
  "'s VReader \<Rightarrow> 's cac_card \<Rightarrow> nat \<Rightarrow> VCardAppletPrivate \<Rightarrow> bool" where
  "selected_on reader vcard a p \<longleftrightarrow> reader_card reader = Some vcard \<and> card_wf applet_ok vcard \<and>
     card_type vcard = VCARD_VM \<and> current_applet vcard ! 0 = Some a \<and>
     applet_private (applet_store vcard ! a) = Some p"

lemma xfr_read:
  assumes "selected_on reader vcard a p" and "reads_files (process_apdu (applet_store vcard ! a)) p"
    and "applet_file kind p = Some f" and "off < 65536" and "1 \<le> n" and "n \<le> 255" and "n + 2 \<le> cap"
  shows "\<exists>reader'. vreader_xfr_bytes nss reader (read_command kind off n) cap =
      Inr (VREADER_OK, if off \<le> length f then take n (drop off f) @ [0x90, 0x00] else [0x6a, 0x86],
           reader') \<and>
    selected_on reader' (vcard\<lparr>vcard_buffer_response := None\<rparr>) a p"
proof -
  have "apdu_args_ok Short [kind, of_nat n] (Some n)" using assms by (simp add: apdu_args_ok_def)
  then obtain apdu where apdu: "vcard_apdu_new (read_command kind off n) = Inr apdu" "apdu_ok apdu"
      "a_channel apdu = 0" "a_ins apdu = CAC_READ_BUFFER" "a_p1 apdu = of_nat (off div 256)"
      "a_p2 apdu = of_nat off" "apdu_body apdu = [kind, of_nat n]" "a_Lc apdu = 2" "a_Le apdu = n"
    unfolding read_command_def by (rule command_decodes) (simp add: numeral_2_eq_2)
  let ?w = "vcard\<lparr>vcard_buffer_response := None\<rparr>"
  have sel: "reader_card reader = Some vcard" "card_wf applet_ok vcard" "card_type vcard = VCARD_VM"
    "current_applet vcard ! 0 = Some a" "applet_private (applet_store vcard ! a) = Some p"
    using assms(1) by (simp_all add: selected_on_def)
  have "a_body apdu \<noteq> None" using apdu(2,8) by (auto simp: apdu_ok_def split: option.splits)
  moreover have "dropped apdu vcard = ?w" using apdu(4) by (simp add: dropped_def)
  moreover have "vcard_get_current_applet_private ?w 0 = Some p"
    using sel(4,5) by (simp add: vcard_get_current_applet_private_def)
  moreover have "unat (of_nat n :: byte) = n" using assms(6) by (simp add: of_nat_byte_inverse)
  moreover have "kind = CAC_FILE_VALUE \<and> val_buffer p = Some f \<or> kind = CAC_FILE_TAG \<and> tag_buffer p = Some f"
    using assms(3) by (simp add: applet_file_def split: if_splits)
  ultimately have run: "card_process_apdu nss vcard apdu = read_file ?w (Some f) n off n"
    using process_read [of vcard apdu a p nss] assms(2,4) sel apdu be16_split [OF assms(4)]
    by (auto simp: cac_common_process_apdu_read_def)
  have w: "card_wf applet_ok ?w" using sel(2) by (rule card_wf_frame(5))
  define r where "r = (if off \<le> length f
      then vcard_response_set_status_bytes (vcard_response_new_data (take n (drop off f)))
             VCARD7816_SW1_SUCCESS 0
      else vcard_make_response VCARD7816_STATUS_ERROR_P1_P2_INCORRECT)"
  have r: "response_ok r" "length (response_data r) + 2 \<le> cap"
      "response_data r @ [b_sw1 r, b_sw2 r] =
        (if off \<le> length f then take n (drop off f) @ [0x90, 0x00] else [0x6a, 0x86])"
    using assms(7) by (auto simp add: r_def resp_simps min_def)
  have "card_process_apdu nss vcard apdu = answered (r, ?w)"
    by (simp add: run read_file_now r_def)
  then show ?thesis
    using xfr_answered [OF sel(1) apdu(1) _ r(1,2)] r(3) w sel
    by (simp add: selected_on_def)
qed

definition reads :: "byte \<Rightarrow> nat \<Rightarrow> nat \<Rightarrow> nat \<Rightarrow> (bytes \<times> nat) list" where
  "reads kind k i m = map (\<lambda>j. (read_command kind (j * k) k, k + 2)) [i..<m]"

lemma reads_step: "i < m \<Longrightarrow> reads kind k i m = (read_command kind (i * k) k, k + 2) # reads kind k (Suc i) m"
  by (simp add: reads_def upt_conv_Cons)

lemma read_all:
  "selected_on reader vcard a p \<Longrightarrow> reads_files (process_apdu (applet_store vcard ! a)) p \<Longrightarrow>
   applet_file kind p = Some f \<Longrightarrow> 1 \<le> k \<Longrightarrow> k \<le> 255 \<Longrightarrow> m * k \<le> 65536 \<Longrightarrow> i \<le> m \<Longrightarrow>
   \<exists>outs reader' b. transmit nss reader (reads kind k i m) = Inr (outs, reader') \<and>
     selected_on reader' (vcard\<lparr>vcard_buffer_response := b\<rparr>) a p \<and>
     concat (map answer_data outs) = take ((m - i) * k) (drop (i * k) f)"
proof (induction "m - i" arbitrary: i reader vcard)
  case 0
  then have "vcard\<lparr>vcard_buffer_response := vcard_buffer_response vcard\<rparr> = vcard" by simp
  then show ?case using 0 by (intro exI [of _ "[]"] exI [of _ reader] exI [of _ "vcard_buffer_response vcard"]) (simp add: reads_def)
next
  case (Suc d)
  then have im: "i < m" by simp
  then have off: "i * k < 65536"
    using Suc.prems(4,6) by (metis less_le_trans mult_less_cancel2 One_nat_def Suc_le_eq)
  let ?w = "vcard\<lparr>vcard_buffer_response := None\<rparr>"
  obtain reader1 where one: "vreader_xfr_bytes nss reader (read_command kind (i * k) k) (k + 2) =
      Inr (VREADER_OK, if i * k \<le> length f then take k (drop (i * k) f) @ [0x90, 0x00] else [0x6a, 0x86],
           reader1)" "selected_on reader1 ?w a p"
    using xfr_read [OF Suc.prems(1-3) off Suc.prems(4,5) order.refl, of nss] by blast
  have "reads_files (process_apdu (applet_store ?w ! a)) p" using Suc.prems(2) by simp
  moreover have d: "d = m - Suc i" using Suc.hyps(2) by simp
  ultimately obtain outs reader' b where rest: "transmit nss reader1 (reads kind k (Suc i) m) = Inr (outs, reader')"
      "selected_on reader' (?w\<lparr>vcard_buffer_response := b\<rparr>) a p"
      "concat (map answer_data outs) = take ((m - Suc i) * k) (drop (Suc i * k) f)"
    using Suc.hyps(1) [OF d one(2) _ Suc.prems(3-6)] im by auto
  have "(m - i) * k = k + (m - Suc i) * k" using im by (metis Suc_diff_Suc mult_Suc)
  moreover have "answer_data (if i * k \<le> length f then take k (drop (i * k) f) @ [0x90, 0x00] else [0x6a, 0x86])
      = take k (drop (i * k) f)"
    using answer_split(1) [of "take k (drop (i * k) f)" "0x90" "0x00"]
    by (cases "i * k \<le> length f") (simp_all add: answer_data_def [of "[a, b]" for a b])
  ultimately have "concat (map answer_data ((if i * k \<le> length f then take k (drop (i * k) f) @ [0x90, 0x00]
      else [0x6a, 0x86]) # outs)) = take ((m - i) * k) (drop (i * k) f)"
    using rest(3) by (simp add: take_add add.commute)
  moreover have "transmit nss reader (reads kind k i m) = Inr ((if i * k \<le> length f
      then take k (drop (i * k) f) @ [0x90, 0x00] else [0x6a, 0x86]) # outs, reader')"
    unfolding reads_step [OF im] transmit.simps one(1) sum.case prod.case rest(1) ..
  moreover have "selected_on reader' (vcard\<lparr>vcard_buffer_response := b\<rparr>) a p" using rest(2) by simp
  ultimately show ?case by blast
qed

section \<open>Reading back a certificate\<close>

lemma transmit_append:
  "transmit nss reader (xs @ ys) =
     (case transmit nss reader xs of
        Inl f \<Rightarrow> Inl f
      | Inr (outs, reader) \<Rightarrow>
          (case transmit nss reader ys of
             Inl f \<Rightarrow> Inl f | Inr (outs', reader) \<Rightarrow> Inr (outs @ outs', reader)))"
  by (induction nss reader xs rule: transmit.induct) (auto split: sum.split prod.split)

lemma transmit_length: "transmit nss reader xs = Inr (outs, reader') \<Longrightarrow> length outs = length xs"
  by (induction nss reader xs arbitrary: outs rule: transmit.induct) (auto split: sum.splits prod.splits)

text \<open>Selecting a PKI applet empties its signing buffer and leaves its files.\<close>

lemma select_pki:
  assumes "card_wf applet_ok vcard" and "a < length (applet_store vcard)"
    and "applet_private (applet_store vcard ! a) = Some p" and "applet_u p = PKI_Data sb key"
    and "reset_applet (applet_store vcard ! a) = Some Cac_applet_pki_reset"
    and "vcard_select_applet call_reset vcard 0 (Some a) = Inr v"
  shows "applet_store v = (applet_store vcard)[a := (applet_store vcard ! a)
    \<lparr>applet_private := Some (p\<lparr>applet_u := PKI_Data [] key\<rparr>)\<rparr>]"
proof -
  have "0 < length (current_applet vcard)" using assms(1) by (simp add: card_wf_def MAX_CHANNEL_def)
  then show ?thesis
    using assms(3-6)
    by (auto simp: vcard_select_applet_def MAX_CHANNEL_def Let_def cac_applet_pki_reset_def
        vcard_get_current_applet_private_def update_private_def)
qed

lemma init_card_ok:
  assumes "vcard_init nss VCARD_EMUL_CAC certs (vcard_new s) = Inr (st, v)"
  shows "card_wf applet_ok v" "card_type v = VCARD_VM"
  using vcard_init_ok [OF card_wf_new, of nss certs s] assms by auto

text \<open>A reader with a freshly selected PKI applet.\<close>

lemma select_pki_applet:
  assumes "vcard_init nss VCARD_EMUL_CAC certs (vcard_new s) = Inr (VCARD_DONE, vcard)"
    and "i < length certs" and "reader_card reader = Some vcard"
  obtains out reader1 v p where
    "vreader_xfr_bytes nss reader (select_command (pki_aid i) 256) 258 = Inr (VREADER_OK, out, reader1)"
    "selected_on reader1 v i p" "process_apdu (applet_store v ! i) = Cac_applet_pki_process_apdu"
    "applet_u p = PKI_Data [] (snd (certs ! i))" "vcard_private v = vcard_private vcard"
    "tag_buffer p = Some (file_of (tlv_tl_image (pki_buffer (fst (certs ! i)))))"
    "val_buffer p = Some (file_of (tlv_val_image (pki_buffer (fst (certs ! i)))))"
    "read_split (tlv_tl_image (pki_buffer (fst (certs ! i)))) (tlv_val_image (pki_buffer (fst (certs ! i)))) =
       Some (pki_buffer (fst (certs ! i)))"
proof -
  obtain p where p: "applet_store vcard ! i = vcard_set_applet_private
      (vcard_new_applet Cac_applet_pki_process_apdu (Some Cac_applet_pki_reset) (pki_aid i)) p"
    "private_wf p" "applet_u p = PKI_Data [] (snd (certs ! i))" "coids p = [(0x01, of_nat i)]"
    and files: "tag_buffer p = Some (file_of (tlv_tl_image (pki_buffer (fst (certs ! i)))))"
    "val_buffer p = Some (file_of (tlv_val_image (pki_buffer (fst (certs ! i)))))"
    "read_split (tlv_tl_image (pki_buffer (fst (certs ! i)))) (tlv_val_image (pki_buffer (fst (certs ! i)))) =
       Some (pki_buffer (fst (certs ! i)))"
    using assms(1,2) by (rule init_pki_applet)
  note wf = init_card_ok [OF assms(1)]
  have "length (map aid (applet_store vcard)) \<ge> length certs"
    unfolding init_applets(1) [OF assms(1)] by simp
  then have i: "i < length (applet_store vcard)" using assms(2) by simp
  have find: "vcard_find_applet vcard (pki_aid i) = Some i"
    using init_applets(2) [OF assms(1) i] p(1)
    by (simp add: vcard_set_applet_private_def vcard_new_applet_def)
  have "pki_aid i \<noteq> []" "length (pki_aid i) \<le> 255" by (simp_all add: pki_aid_def)
  then obtain d sw1 sw2 v v0 where run: "vreader_xfr_bytes nss reader (select_command (pki_aid i) 256) 258 =
      Inr (VREADER_OK, d @ [sw1, sw2], reader\<lparr>reader_card := Some v\<rparr>)"
    and v: "card_wf applet_ok v" "card_type v = VCARD_VM"
      "current_applet v = (current_applet vcard)[0 := Some i]"
      "vcard_private v = vcard_private vcard"
      "vcard_select_applet call_reset (vcard\<lparr>vcard_buffer_response := None\<rparr>) 0 (Some i) = Inr v0"
      "applet_store v = applet_store v0"
    using xfr_select [OF assms(3) wf, of "pki_aid i" 256 258 nss] unfolding find by auto
  have priv: "applet_private (applet_store vcard ! i) = Some p"
      "reset_applet (applet_store vcard ! i) = Some Cac_applet_pki_reset"
      "process_apdu (applet_store vcard ! i) = Cac_applet_pki_process_apdu"
    using p(1) by (simp_all add: vcard_set_applet_private_def vcard_new_applet_def)
  have store: "applet_store v = (applet_store vcard)[i := (applet_store vcard ! i)
      \<lparr>applet_private := Some (p\<lparr>applet_u := PKI_Data [] (snd (certs ! i))\<rparr>)\<rparr>]"
    using select_pki [of "vcard\<lparr>vcard_buffer_response := None\<rparr>" i p] card_wf_frame(5) [OF wf(1)]
      i priv p(3) v(5,6) by simp
  have "0 < length (current_applet vcard)" using wf(1) by (simp add: card_wf_def MAX_CHANNEL_def)
  then have "selected_on (reader\<lparr>reader_card := Some v\<rparr>) v i (p\<lparr>applet_u := PKI_Data [] (snd (certs ! i))\<rparr>)"
    using v(1-3) i by (simp add: selected_on_def store)
  then show thesis
    using that [OF run] files priv(3) v(4) i by (simp add: store)
qed

lemma pki_file_lengths:
  "length (file_of (tlv_tl_image (pki_buffer cert))) \<le> length cert + 12"
  "length (file_of (tlv_val_image (pki_buffer cert))) \<le> length cert + 12"
  by (simp_all add: file_of_def pki_buffer_def tlv_header_def ushort2lebytes_def)

lemma drop_length [simp]: "drop 2 (file_of img) = img"
  by (simp add: file_of_def ushort2lebytes_def)

lemma read_both:
  assumes "selected_on reader vcard a p" and "process_apdu (applet_store vcard ! a) = Cac_applet_pki_process_apdu"
    and "tag_buffer p = Some t" and "val_buffer p = Some u" and "1 \<le> k" and "k \<le> 255" and "m * k \<le> 65536"
    and "length t \<le> m * k" and "length u \<le> m * k"
  shows "\<exists>tags vals reader'. transmit nss reader (reads CAC_FILE_TAG k 0 m @ reads CAC_FILE_VALUE k 0 m) =
      Inr (tags @ vals, reader') \<and> length tags = m \<and>
    concat (map answer_data tags) = t \<and> concat (map answer_data vals) = u"
proof -
  have f: "applet_file CAC_FILE_TAG p = Some t" "applet_file CAC_FILE_VALUE p = Some u"
    using assms(3,4) by (simp_all add: applet_file_def)
  have r: "reads_files (process_apdu (applet_store vcard ! a)) p" using assms(2) by (simp add: reads_files_def)
  obtain tags reader1 b where tags: "transmit nss reader (reads CAC_FILE_TAG k 0 m) = Inr (tags, reader1)"
      "selected_on reader1 (vcard\<lparr>vcard_buffer_response := b\<rparr>) a p"
      "concat (map answer_data tags) = take ((m - 0) * k) (drop (0 * k) t)"
    using read_all [OF assms(1) r f(1) assms(5-7), of 0 nss] by auto
  have r1: "reads_files (process_apdu (applet_store (vcard\<lparr>vcard_buffer_response := b\<rparr>) ! a)) p" using r by simp
  obtain vals reader2 b' where vals: "transmit nss reader1 (reads CAC_FILE_VALUE k 0 m) = Inr (vals, reader2)"
      "concat (map answer_data vals) = take ((m - 0) * k) (drop (0 * k) u)"
    using read_all [OF tags(2) r1 f(2) assms(5-7), of 0 nss] by auto
  have "length tags = m" using transmit_length [OF tags(1)] by (simp add: reads_def)
  then show ?thesis
    using tags vals assms(8,9)
    by (intro exI [of _ tags] exI [of _ vals] exI [of _ reader2]) (simp add: transmit_append)
qed

section \<open>Signing in pieces\<close>

text \<open>Pieces of the input with P1 \<open>0x80\<close>, the last one with P1 0.\<close>

definition sign_command :: "byte \<Rightarrow> bytes \<Rightarrow> bytes" where
  "sign_command p1 part = command CAC_SIGN_DECRYPT p1 0x00 part (Some 256)"

definition store_key :: "'s cac_card \<Rightarrow> VCardAppletPrivate \<Rightarrow> bytes \<Rightarrow> VCardKey option \<Rightarrow> 's cac_card" where
  "store_key vcard p sb key = update_private vcard 0 (p\<lparr>applet_u := PKI_Data sb key\<rparr>)"

lemma store_selected:
  assumes "selected_on reader vcard a p" and "process_apdu (applet_store vcard ! a) = Cac_applet_pki_process_apdu"
  shows "selected_on (reader\<lparr>reader_card := Some (store_key vcard p sb key)\<rparr>) (store_key vcard p sb key) a
      (p\<lparr>applet_u := PKI_Data sb key\<rparr>)"
    "process_apdu (applet_store (store_key vcard p sb key) ! a) = Cac_applet_pki_process_apdu"
    "vcard_private (store_key vcard p sb key) = vcard_private vcard"
    "store_key (store_key vcard p sb key) p sb' key' = store_key vcard p sb' key'"
    "store_key vcard (p\<lparr>applet_u := u\<rparr>) sb key = store_key vcard p sb key"
proof -
  have sel: "reader_card reader = Some vcard" "card_wf applet_ok vcard" "card_type vcard = VCARD_VM"
    "current_applet vcard ! 0 = Some a" "applet_private (applet_store vcard ! a) = Some p"
    using assms(1) by (simp_all add: selected_on_def)
  have ch: "(0 :: nat) < MAX_CHANNEL" by (simp add: MAX_CHANNEL_def)
  note ok = selected [OF sel(2) ch sel(4)]
  have "private_wf (p\<lparr>applet_u := PKI_Data sb key\<rparr>)"
    using applet_ok_private(1) [OF ok(2) sel(5)] by (simp add: private_wf_def)
  then have "card_wf applet_ok (store_key vcard p sb key)"
    unfolding store_key_def using wf_update [OF sel(2) ch sel(4,5)] assms(2) by simp
  then show "selected_on (reader\<lparr>reader_card := Some (store_key vcard p sb key)\<rparr>) (store_key vcard p sb key) a
      (p\<lparr>applet_u := PKI_Data sb key\<rparr>)"
    using sel ok(1) by (simp add: selected_on_def store_key_def update_private_def)
  show "process_apdu (applet_store (store_key vcard p sb key) ! a) = Cac_applet_pki_process_apdu"
    "vcard_private (store_key vcard p sb key) = vcard_private vcard"
    "store_key (store_key vcard p sb key) p sb' key' = store_key vcard p sb' key'"
    "store_key vcard (p\<lparr>applet_u := u\<rparr>) sb key = store_key vcard p sb key"
    using sel ok(1) assms(2) by (simp_all add: store_key_def update_private_def)
qed

lemma process_sign:
  assumes "selected_on reader vcard a p" and "process_apdu (applet_store vcard ! a) = Cac_applet_pki_process_apdu"
    and "a_ins apdu = CAC_SIGN_DECRYPT" and "a_channel apdu = 0" and "apdu_ok apdu"
    and "pki_sign_decrypt nss apdu (vcard\<lparr>vcard_buffer_response := None\<rparr>) p = answered (r, v)"
  shows "card_process_apdu nss vcard apdu = answered (r, v)"
proof -
  have sel: "current_applet vcard ! 0 = Some a" "applet_private (applet_store vcard ! a) = Some p"
    using assms(1) by (simp_all add: selected_on_def)
  let ?w = "vcard\<lparr>vcard_buffer_response := None\<rparr>"
  have w: "dropped apdu vcard = ?w" using assms(3) by (simp add: dropped_def)
  have "vcard_get_current_applet_private ?w 0 = Some p"
    using sel by (simp add: vcard_get_current_applet_private_def)
  then have "vcard_process_applet_apdu (call_process nss) ?w apdu = answered (r, v)"
    using sel assms(2-4,6) by (simp add: vcard_process_applet_apdu_def cac_applet_pki_process_apdu_def)
  then show ?thesis
    unfolding process_cases [OF assms(5)] w by (simp add: answered_def)
qed

text \<open>The reader with this key selected, and the pieces it has collected.\<close>

definition signing :: "'s VReader \<Rightarrow> bytes \<Rightarrow> VCardKey option \<Rightarrow> 's \<Rightarrow> bool" where
  "signing reader sb key s \<longleftrightarrow> (\<exists>vcard a p. selected_on reader vcard a p \<and>
     process_apdu (applet_store vcard ! a) = Cac_applet_pki_process_apdu \<and>
     applet_u p = PKI_Data sb key \<and> vcard_private vcard = s)"

lemma signingI:
  "selected_on reader vcard a p \<Longrightarrow> process_apdu (applet_store vcard ! a) = Cac_applet_pki_process_apdu \<Longrightarrow>
   applet_u p = PKI_Data sb key \<Longrightarrow> vcard_private vcard = s \<Longrightarrow> signing reader sb key s"
  by (auto simp: signing_def)

lemma without_buffer:
  assumes "selected_on reader vcard a p"
  shows "selected_on (reader\<lparr>reader_card := Some (vcard\<lparr>vcard_buffer_response := None\<rparr>)\<rparr>)
    (vcard\<lparr>vcard_buffer_response := None\<rparr>) a p"
  using assms card_wf_frame(5) by (auto simp: selected_on_def)

lemma xfr_sign_part:
  assumes "signing reader sb key s" and "part \<noteq> []" and "length part \<le> 255"
  shows "\<exists>reader'. vreader_xfr_bytes nss reader (sign_command 0x80 part) 258 =
      Inr (VREADER_OK, [0x90, 0x00], reader') \<and> signing reader' (sb @ part) key s"
proof -
  obtain vcard a p where sel: "selected_on reader vcard a p"
      "process_apdu (applet_store vcard ! a) = Cac_applet_pki_process_apdu"
      "applet_u p = PKI_Data sb key" "vcard_private vcard = s"
    using assms(1) by (auto simp: signing_def)
  have "apdu_args_ok Short part (Some 256)" using assms by (simp add: apdu_args_ok_def)
  then obtain apdu where apdu: "vcard_apdu_new (sign_command 0x80 part) = Inr apdu" "apdu_ok apdu"
      "a_channel apdu = 0" "a_ins apdu = CAC_SIGN_DECRYPT" "a_p1 apdu = 0x80" "a_p2 apdu = 0"
      "apdu_body apdu = part"
    unfolding sign_command_def by (rule command_decodes) simp
  let ?w = "vcard\<lparr>vcard_buffer_response := None\<rparr>"
  let ?v = "store_key ?w p (sb @ part) key"
  have w: "process_apdu (applet_store ?w ! a) = Cac_applet_pki_process_apdu" using sel(2) by simp
  note stored = store_selected(1-3) [OF without_buffer [OF sel(1)] w, of "sb @ part" key]
  have "pki_sign_decrypt nss apdu ?w p = answered (vcard_make_response VCARD7816_STATUS_SUCCESS, ?v)"
    using sel(3) apdu by (simp add: pki_sign_decrypt_def Let_def store_key_def)
  note run = process_sign [OF sel(1,2) apdu(4,3,2) this]
  have card: "reader_card reader = Some vcard" using sel(1) by (simp add: selected_on_def)
  have "vreader_xfr_bytes nss reader (sign_command 0x80 part) 258 =
      Inr (VREADER_OK, [0x90, 0x00], reader\<lparr>reader_card := Some ?v\<rparr>)"
    using xfr_answered [OF card apdu(1) run] by (simp add: resp_simps)
  moreover have "selected_on (reader\<lparr>reader_card := Some ?v\<rparr>) ?v a
      (p\<lparr>applet_u := PKI_Data (sb @ part) key\<rparr>)"
    using stored(1) by simp
  then have "signing (reader\<lparr>reader_card := Some ?v\<rparr>) (sb @ part) key s"
    by (rule signingI) (use stored(2,3) sel(4) in simp_all)
  ultimately show ?thesis by blast
qed

lemma sign_parts:
  "signing reader sb key s \<Longrightarrow> \<forall>part \<in> set parts. part \<noteq> [] \<and> length part \<le> 255 \<Longrightarrow>
   \<exists>reader'. transmit nss reader (map (\<lambda>part. (sign_command 0x80 part, 258)) parts) =
       Inr (replicate (length parts) [0x90, 0x00], reader') \<and>
     signing reader' (sb @ concat parts) key s"
proof (induction parts arbitrary: reader sb)
  case (Cons part parts)
  obtain reader1 where one: "vreader_xfr_bytes nss reader (sign_command 0x80 part) 258 =
      Inr (VREADER_OK, [0x90, 0x00], reader1)" "signing reader1 (sb @ part) key s"
    using xfr_sign_part [OF Cons.prems(1), of part nss] Cons.prems(2) by auto
  then show ?case
    using Cons.IH [OF one(2)] Cons.prems(2) by auto
qed simp

text \<open>The last piece runs the operation on all that was collected.\<close>

lemma xfr_sign_last:
  assumes "signing reader sb key s" and "part \<noteq> []" and "length part \<le> 255"
    and "vcard_emul_rsa_op nss key (sb @ part) s = Inr (st, out, key', s')"
  shows "\<exists>d sw1 sw2 reader'. vreader_xfr_bytes nss reader (sign_command 0x00 part) 258 =
      Inr (VREADER_OK, d @ [sw1, sw2], reader') \<and> signing reader' [] key' s' \<and>
    (if st = VCARD7816_STATUS_SUCCESS then d @ reader_pending reader' = out
     else d = [] \<and> sw1 = ucast (drop_bit 8 st) \<and> sw2 = ucast (st AND 0xff))"
proof -
  obtain vcard a p where sel: "selected_on reader vcard a p"
      "process_apdu (applet_store vcard ! a) = Cac_applet_pki_process_apdu"
      "applet_u p = PKI_Data sb key" "vcard_private vcard = s"
    using assms(1) by (auto simp: signing_def)
  have "apdu_args_ok Short part (Some 256)" using assms by (simp add: apdu_args_ok_def)
  then obtain apdu where apdu: "vcard_apdu_new (sign_command 0x00 part) = Inr apdu" "apdu_ok apdu"
      "a_channel apdu = 0" "a_ins apdu = CAC_SIGN_DECRYPT" "a_p1 apdu = 0x00" "a_p2 apdu = 0"
      "apdu_body apdu = part" "a_Le apdu = 256"
    unfolding sign_command_def by (rule command_decodes) simp
  let ?w = "vcard\<lparr>vcard_buffer_response := None, vcard_private := s'\<rparr>"
  let ?v = "store_key ?w p [] key'"
  have w: "selected_on (reader\<lparr>reader_card := Some ?w\<rparr>) ?w a p"
    "process_apdu (applet_store ?w ! a) = Cac_applet_pki_process_apdu"
    using sel card_wf_frame(4) [OF card_wf_frame(5)] by (auto simp: selected_on_def)
  note stored = store_selected(1-3) [OF w, of "[]" key']
  obtain r v where r: "(if st \<noteq> VCARD7816_STATUS_SUCCESS then (vcard_make_response st, ?v)
      else vcard_response_new ?v out 256 VCARD7816_STATUS_SUCCESS) = (r, v)"
    by fastforce
  have "vcard_buffer_response ?v = None" by (simp add: store_key_def frame_simps)
  have responds: "responds_with ?v (if st = VCARD7816_STATUS_SUCCESS then out else []) 256 r v"
    using r by (auto simp: responds_with_def resp_simps dest!: response_new_responds split: if_splits)
  note frame = responds_ok [OF responds] responds_length [OF responds] responds_frame [OF responds]
  have "pki_sign_decrypt nss apdu (vcard\<lparr>vcard_buffer_response := None\<rparr>) p = answered (r, v)"
    using sel(3,4) apdu assms(4) r
    by (auto simp: pki_sign_decrypt_def Let_def store_key_def)
  note run = process_sign [OF sel(1,2) apdu(4,3,2) this]
  have card: "reader_card reader = Some vcard" using sel(1) by (simp add: selected_on_def)
  let ?r = "reader\<lparr>reader_card := Some v\<rparr>"
  have xfr: "vreader_xfr_bytes nss reader (sign_command 0x00 part) 258 =
      Inr (VREADER_OK, response_data r @ [b_sw1 r, b_sw2 r], ?r)"
    using xfr_answered [OF card apdu(1) run frame(1)] frame(2) by simp
  have "selected_on ?r v a (p\<lparr>applet_u := PKI_Data [] key'\<rparr>)"
    using stored(1) frame(3) responds_wf [OF responds] by (simp add: selected_on_def)
  then have "signing ?r [] key' s'"
    by (rule signingI) (use stored(2,3) frame(3) in simp_all)
  moreover have "if st = VCARD7816_STATUS_SUCCESS then response_data r @ reader_pending ?r = out
     else response_data r = [] \<and> b_sw1 r = ucast (drop_bit 8 st) \<and> b_sw2 r = ucast (st AND 0xff)"
    using responds_answer [OF responds \<open>vcard_buffer_response ?v = None\<close>] r
    by (auto simp: reader_pending_def resp_simps)
  ultimately show ?thesis using xfr by blast
qed

section \<open>Properties\<close>

text \<open>C4: The guest can read back the certificate the card was made with: it selects the PKI applet
  and reads the file of tags and the file of values in pieces of \<open>k\<close> bytes, until both are covered;
  without their length bytes they are, header by header and value by value, the certificate
  information, the certificate itself and two empty records.\<close>

theorem certificate_read_back:
  assumes "vcard_init nss VCARD_EMUL_CAC certs (vcard_new s) = Inr (VCARD_DONE, vcard)"
    and "i < length certs" and "reader_card reader = Some vcard"
    and "1 \<le> k" and "k \<le> 255" and "m * k \<le> 65536" and "length (fst (certs ! i)) + 12 \<le> m * k"
  shows "\<exists>out tags vals reader'. transmit nss reader
      ((select_command (pki_aid i) 256, 258) # reads CAC_FILE_TAG k 0 m @ reads CAC_FILE_VALUE k 0 m) =
      Inr (out # tags @ vals, reader') \<and> length tags = m \<and>
    read_split (drop 2 (concat (map answer_data tags))) (drop 2 (concat (map answer_data vals))) =
      Some [TLV_LEAF CAC_PKI_TAG_CERTINFO [0x00], TLV_LEAF CAC_PKI_TAG_CERTIFICATE (fst (certs ! i)),
        TLV_LEAF CAC_PKI_TAG_MSCUID [], TLV_LEAF CAC_PKI_TAG_ERROR_DETECTION_CODE []]"
proof -
  let ?t = "file_of (tlv_tl_image (pki_buffer (fst (certs ! i))))"
  let ?u = "file_of (tlv_val_image (pki_buffer (fst (certs ! i))))"
  obtain out reader1 v p where
    run: "vreader_xfr_bytes nss reader (select_command (pki_aid i) 256) 258 = Inr (VREADER_OK, out, reader1)"
    and sel: "selected_on reader1 v i p" "process_apdu (applet_store v ! i) = Cac_applet_pki_process_apdu"
      "tag_buffer p = Some ?t" "val_buffer p = Some ?u"
    and split: "read_split (tlv_tl_image (pki_buffer (fst (certs ! i))))
        (tlv_val_image (pki_buffer (fst (certs ! i)))) = Some (pki_buffer (fst (certs ! i)))"
    using assms(1-3) by (rule select_pki_applet)
  have "length ?t \<le> m * k" "length ?u \<le> m * k"
    using pki_file_lengths [of "fst (certs ! i)"] assms(7) by linarith+
  then obtain tags vals reader' where
    "transmit nss reader1 (reads CAC_FILE_TAG k 0 m @ reads CAC_FILE_VALUE k 0 m) = Inr (tags @ vals, reader')"
    "length tags = m" "concat (map answer_data tags) = ?t" "concat (map answer_data vals) = ?u"
    using read_both [OF sel assms(4-6), of nss] by blast
  then show ?thesis
    using run split by (intro exI [of _ out] exI [of _ tags] exI [of _ vals]) (simp add: pki_buffer_def)
qed

theorem certificate_read_back_witness:
  "\<exists>vcard out tags vals reader'. vcard_init demo_nss VCARD_EMUL_CAC [([0x30, 0x00], None)] (vcard_new True) =
      Inr (VCARD_DONE, vcard) \<and>
    transmit demo_nss (vreader_new ''R''\<lparr>reader_card := Some vcard\<rparr>)
      ((select_command (pki_aid 0) 256, 258) # reads CAC_FILE_TAG 10 0 2 @ reads CAC_FILE_VALUE 10 0 2) =
      Inr (out # tags @ vals, reader') \<and> length tags = 2 \<and>
    read_split (drop 2 (concat (map answer_data tags))) (drop 2 (concat (map answer_data vals))) =
      Some [TLV_LEAF CAC_PKI_TAG_CERTINFO [0x00], TLV_LEAF CAC_PKI_TAG_CERTIFICATE [0x30, 0x00],
        TLV_LEAF CAC_PKI_TAG_MSCUID [], TLV_LEAF CAC_PKI_TAG_ERROR_DETECTION_CODE []]"
proof -
  obtain v where v: "vcard_init demo_nss VCARD_EMUL_CAC [([0x30, 0x00], None)] (vcard_new True) =
      Inr (VCARD_DONE, v)"
    using vcard_init_ok [OF card_wf_new, of demo_nss "[([0x30, 0x00], None)]" True] by auto
  show ?thesis
    using certificate_read_back [OF v, of 0 "vreader_new ''R''\<lparr>reader_card := Some v\<rparr>" 10 2] v
    by (intro exI [of _ v]) simp
qed



end
