(* ===== verification/Reader_Store.thy ===== *)
theory Reader_Store
  imports Card_System "HOL-Library.Multiset" "HOL-Library.Monad_Syntax"
begin

text \<open>
  The objects the library shares by pointers and counts references to: cards (\<open>src/vcard.c\<close>), readers
  (\<open>src/vreader.c\<close>) with the data of the NSS emulation in them (\<open>src/vcard_emul_nss.c\<close>), events
  (\<open>src/event.c\<close>) and the entries of reader lists. A pointer is an address in one of the maps of
  \<open>memory\<close>; freeing an object removes it, and addresses are not used again, so that
  \<open>None\<close> is what a call through a null or dangling pointer, or a failed assertion, returns. What
  a card is besides its reference count is left open (\<open>'c\<close>). The \<open>int\<close> counters are integers: they
  would need \<open>2\<^sup>31\<close> references to overflow.

  The invariant \<open>counted\<close> says that every reference count is right, and the lemmas about
  \<open>vcard_free\<close> and \<open>vreader_free\<close> that the last reference, and only the last, frees the object and
  what it owns.
\<close>


section \<open>Linked structures\<close>

text \<open>\<open>chain f xs n\<close>: following the pointers \<open>f\<close> (\<open>None\<close> where nothing is allocated) leads through
  the addresses \<open>xs\<close>, each in turn, and then to \<open>n\<close>.\<close>

definition start :: "'a list \<Rightarrow> 'a option \<Rightarrow> 'a option" where
  "start xs n = (case xs of [] \<Rightarrow> n | x # _ \<Rightarrow> Some x)"

lemma start_simps [simp]: "start [] n = n" "start (x # xs) n = Some x"
  by (simp_all add: start_def)

lemma start_append [simp]: "start (xs @ ys) n = start xs (start ys n)"
  by (cases xs) simp_all

lemma start_eq_None [simp]: "start xs n = None \<longleftrightarrow> xs = [] \<and> n = None"
  by (cases xs) simp_all

primrec chain :: "('a \<Rightarrow> 'a option option) \<Rightarrow> 'a list \<Rightarrow> 'a option \<Rightarrow> bool" where
  "chain f [] n \<longleftrightarrow> True"
| "chain f (x # xs) n \<longleftrightarrow> f x = Some (start xs n) \<and> chain f xs n"

lemma chain_append [simp]: "chain f (xs @ ys) n \<longleftrightarrow> chain f xs (start ys n) \<and> chain f ys n"
  by (induction xs) auto

lemma chain_upd [simp]: "x \<notin> set xs \<Longrightarrow> chain (f(x := v)) xs n = chain f xs n"
  by (induction xs) auto

lemma chain_cong: "(\<And>x. x \<in> set xs \<Longrightarrow> f x = g x) \<Longrightarrow> chain f xs n = chain g xs n"
  by (induction xs) auto

lemma chain_in: "chain f xs n \<Longrightarrow> x \<in> set xs \<Longrightarrow> f x \<noteq> None"
  by (induction xs) auto

section \<open>The objects\<close>

record VReaderEmul =
  em_slot :: nat
  em_default_type :: VCardEmulType
  em_type_params :: "string option"
  em_present :: bool
  em_series :: int
  em_saved_vcard :: "nat option"

record VReaderStruct =
  rd_reference_count :: int
  rd_card :: "nat option"
  rd_name :: string
  rd_id :: "32 word"
  rd_private :: "VReaderEmul option"

record 'c VCardObject =
  cd_reference_count :: int
  cd_card :: 'c

datatype VEventType = VEVENT_READER_INSERT | VEVENT_READER_REMOVE | VEVENT_CARD_INSERT
  | VEVENT_CARD_REMOVE | VEVENT_LAST

record VEvent =
  ev_next :: "nat option"
  ev_type :: VEventType
  ev_reader :: "nat option"
  ev_card :: "nat option"

record VReaderListEntry =
  en_next :: "nat option"
  en_prev :: "nat option"
  en_reader :: "nat option"

record VReaderList =
  li_head :: "nat option"
  li_tail :: "nat option"

record 'c memory =
  vcards :: "nat \<rightharpoonup> 'c VCardObject"
  vreaders :: "nat \<rightharpoonup> VReaderStruct"
  vevents :: "nat \<rightharpoonup> VEvent"
  ventries :: "nat \<rightharpoonup> VReaderListEntry"
  vlists :: "nat \<rightharpoonup> VReaderList"
  next_address :: nat
  vevent_queue_head :: "nat option"
  vevent_queue_tail :: "nat option"
  vreader_list :: "nat option"

definition empty_memory :: "'c memory" where
  "empty_memory = \<lparr>vcards = Map.empty, vreaders = Map.empty, vevents = Map.empty,
     ventries = Map.empty, vlists = Map.empty, next_address = 0, vevent_queue_head = None,
     vevent_queue_tail = None, vreader_list = None\<rparr>"

definition vcard_alloc :: "'c \<Rightarrow> 'c memory \<Rightarrow> nat \<times> 'c memory" where
  "vcard_alloc vcard m =
     (next_address m,
      m\<lparr>vcards := (vcards m)(next_address m \<mapsto> \<lparr>cd_reference_count = 1, cd_card = vcard\<rparr>),
        next_address := next_address m + 1\<rparr>)"

fun vcard_reference :: "nat option \<Rightarrow> 'c memory \<Rightarrow> (nat option \<times> 'c memory) option" where
  "vcard_reference None m = Some (None, m)"
| "vcard_reference (Some c) m = do {
     vcard \<leftarrow> vcards m c;
     Some (Some c, m\<lparr>vcards := (vcards m)(c \<mapsto>
       vcard\<lparr>cd_reference_count := cd_reference_count vcard + 1\<rparr>)\<rparr>)
   }"

fun vcard_free :: "nat option \<Rightarrow> 'c memory \<Rightarrow> 'c memory option" where
  "vcard_free None m = Some m"
| "vcard_free (Some c) m = do {
     vcard \<leftarrow> vcards m c;
     let n = cd_reference_count vcard - 1;
     if n \<noteq> 0 then Some (m\<lparr>vcards := (vcards m)(c \<mapsto> vcard\<lparr>cd_reference_count := n\<rparr>)\<rparr>)
     else Some (m\<lparr>vcards := (vcards m)(c := None)\<rparr>)
   }"

definition vreader_emul_new :: "nat \<Rightarrow> VCardEmulType \<Rightarrow> string option \<Rightarrow> VReaderEmul" where
  "vreader_emul_new slot type params =
     \<lparr>em_slot = slot, em_default_type = type, em_type_params = params, em_present = False,
      em_series = 0, em_saved_vcard = None\<rparr>"

fun vreader_emul_delete :: "VReaderEmul option \<Rightarrow> 'c memory \<Rightarrow> 'c memory option" where
  "vreader_emul_delete None m = Some m"
| "vreader_emul_delete (Some vreader_emul) m = vcard_free (em_saved_vcard vreader_emul) m"

definition vreader_alloc :: "string \<Rightarrow> VReaderEmul option \<Rightarrow> 'c memory \<Rightarrow> nat \<times> 'c memory" where
  "vreader_alloc name private_data m =
     (next_address m,
      m\<lparr>vreaders := (vreaders m)(next_address m \<mapsto>
          \<lparr>rd_reference_count = 1, rd_card = None, rd_name = name, rd_id = -1,
           rd_private = private_data\<rparr>),
        next_address := next_address m + 1\<rparr>)"

fun vreader_reference :: "nat option \<Rightarrow> 'c memory \<Rightarrow> (nat option \<times> 'c memory) option" where
  "vreader_reference None m = Some (None, m)"
| "vreader_reference (Some r) m = do {
     reader \<leftarrow> vreaders m r;
     Some (Some r, m\<lparr>vreaders := (vreaders m)(r \<mapsto>
       reader\<lparr>rd_reference_count := rd_reference_count reader + 1\<rparr>)\<rparr>)
   }"

fun vreader_free :: "nat option \<Rightarrow> 'c memory \<Rightarrow> 'c memory option" where
  "vreader_free None m = Some m"
| "vreader_free (Some r) m = do {
     reader \<leftarrow> vreaders m r;
     if rd_reference_count reader > 1
     then Some (m\<lparr>vreaders := (vreaders m)(r \<mapsto>
       reader\<lparr>rd_reference_count := rd_reference_count reader - 1\<rparr>)\<rparr>)
     else do {
       m \<leftarrow> vcard_free (rd_card reader) m;
       m \<leftarrow> vreader_emul_delete (rd_private reader) m;
       Some (m\<lparr>vreaders := (vreaders m)(r := None)\<rparr>)
     }
   }"

text \<open>\<open>vreader_get_card\<close> locks the reader before it looks: a null reader is a null dereference.\<close>

definition vreader_get_card :: "nat option \<Rightarrow> 'c memory \<Rightarrow> (nat option \<times> 'c memory) option" where
  "vreader_get_card r m = do {
     r \<leftarrow> r;
     reader \<leftarrow> vreaders m r;
     vcard_reference (rd_card reader) m
   }"

definition vreader_card_is_present :: "nat option \<Rightarrow> 'c memory \<Rightarrow> (VReaderStatus \<times> 'c memory) option" where
  "vreader_card_is_present r m = do {
     (vcard, m) \<leftarrow> vreader_get_card r m;
     if vcard = None then Some (VREADER_NO_CARD, m)
     else do { m \<leftarrow> vcard_free vcard m; Some (VREADER_OK, m) }
   }"

fun vreader_get_id :: "nat option \<Rightarrow> 'c memory \<Rightarrow> 32 word option" where
  "vreader_get_id None m = Some (-1)"
| "vreader_get_id (Some r) m = map_option rd_id (vreaders m r)"

fun vreader_set_id :: "nat option \<Rightarrow> 32 word \<Rightarrow> 'c memory \<Rightarrow> (VReaderStatus \<times> 'c memory) option" where
  "vreader_set_id None i m = Some (VREADER_NO_CARD, m)"
| "vreader_set_id (Some r) i m = do {
     reader \<leftarrow> vreaders m r;
     Some (VREADER_OK, m\<lparr>vreaders := (vreaders m)(r \<mapsto> reader\<lparr>rd_id := i\<rparr>)\<rparr>)
   }"

fun vreader_get_name :: "nat option \<Rightarrow> 'c memory \<Rightarrow> string option option" where
  "vreader_get_name None m = Some None"
| "vreader_get_name (Some r) m = map_option (\<lambda>reader. Some (rd_name reader)) (vreaders m r)"

definition vreader_get_private :: "nat option \<Rightarrow> 'c memory \<Rightarrow> VReaderEmul option option" where
  "vreader_get_private r m = do { r \<leftarrow> r; reader \<leftarrow> vreaders m r; Some (rd_private reader) }"

section \<open>Counting references\<close>

fun mset_option :: "'a option \<Rightarrow> 'a multiset" where
  "mset_option None = {#}"
| "mset_option (Some x) = {#x#}"

definition refs :: "('a \<Rightarrow> 'b option) \<Rightarrow> (nat \<rightharpoonup> 'a) \<Rightarrow> 'b multiset" where
  "refs f M = (\<Sum>a \<in> dom M. mset_option (f (the (M a))))"

lemma refs_empty [simp]: "refs f Map.empty = {#}"
  by (simp add: refs_def)

lemma refs_new:
  assumes "finite (dom M)" and "M a = None"
  shows "refs f (M(a \<mapsto> v)) = mset_option (f v) + refs f M"
proof -
  have "refs f (M(a \<mapsto> v)) = mset_option (f v) + (\<Sum>b \<in> dom M. mset_option (f (the ((M(a \<mapsto> v)) b))))"
    using assms by (simp add: refs_def domIff del: fun_upd_apply) simp
  also have "(\<Sum>b \<in> dom M. mset_option (f (the ((M(a \<mapsto> v)) b)))) = refs f M"
    unfolding refs_def using assms(2) by (intro sum.cong) auto
  finally show ?thesis .
qed

lemma refs_delete:
  assumes "finite (dom M)" and "M a = Some v"
  shows "refs f M = mset_option (f v) + refs f (M(a := None))"
proof -
  have "(M(a := None))(a \<mapsto> v) = M" using assms(2) by auto
  then show ?thesis using refs_new [of "M(a := None)" a f v] assms(1) by simp
qed

lemma refs_update:
  assumes "finite (dom M)" and "M a = Some v"
  shows "refs f (M(a \<mapsto> w)) + mset_option (f v) = refs f M + mset_option (f w)"
  using refs_delete [OF assms, of f] refs_new [of "M(a := None)" a f w] assms(1) by (simp add: ac_simps)

lemma refs_in: "finite (dom M) \<Longrightarrow> M a = Some v \<Longrightarrow> f v = Some r \<Longrightarrow> r \<in># refs f M"
  using refs_delete [of M a v f] by simp

lemma refs_cong:
  assumes "\<And>a. map_option f (N a) = map_option f (M a)"
  shows "refs f N = refs f M"
proof -
  have "dom N = dom M" using assms by (metis (no_types, lifting) domIff map_option_is_None subsetI subset_antisym)
  moreover have "mset_option (f (the (N a))) = mset_option (f (the (M a)))" if "a \<in> dom M" for a
    using assms [of a] that by (cases "N a") auto
  ultimately show ?thesis by (simp add: refs_def)
qed

lemma refs_same:
  assumes "finite (dom M)" and "M a = Some v" and "f w = f v"
  shows "refs f (M(a \<mapsto> w)) = refs f M"
  using refs_update [OF assms(1,2), of f w] assms(3) by simp

definition count_ok :: "('a \<Rightarrow> int) \<Rightarrow> (nat \<rightharpoonup> 'a) \<Rightarrow> nat multiset \<Rightarrow> bool" where
  "count_ok cnt M X \<longleftrightarrow> set_mset X = dom M \<and> (\<forall>a v. M a = Some v \<longrightarrow> cnt v = int (count X a))"

lemma count_ok_finite: "count_ok cnt M X \<Longrightarrow> finite (dom M)"
  unfolding count_ok_def by (metis finite_set_mset)

lemma count_ok_count: "count_ok cnt M X \<Longrightarrow> M a = Some v \<Longrightarrow> cnt v = int (count X a) \<and> a \<in># X"
  by (simp add: count_ok_def domI)

lemma count_okD:
  assumes "count_ok cnt M X" and "a \<in># X"
  obtains v where "M a = Some v" and "cnt v = int (count X a)" and "0 < cnt v"
proof -
  obtain v where v: "M a = Some v" using assms by (auto simp: count_ok_def)
  with that [OF v] count_ok_count [OF assms(1) v] assms(2) show ?thesis by simp
qed

lemma count_ok_none: "count_ok cnt M X \<Longrightarrow> M a = None \<Longrightarrow> a \<notin># X"
  by (simp add: count_ok_def domIff)

lemma count_ok_keep:
  "count_ok cnt M X \<Longrightarrow> M a = Some v \<Longrightarrow> cnt w = cnt v \<Longrightarrow> count_ok cnt (M(a \<mapsto> w)) X"
  by (auto simp: count_ok_def)

lemma count_ok_inc:
  "count_ok cnt M X \<Longrightarrow> M a = Some v \<Longrightarrow> cnt w = cnt v + 1 \<Longrightarrow> count_ok cnt (M(a \<mapsto> w)) (add_mset a X)"
  by (simp add: count_ok_def)

lemma count_ok_dec:
  assumes "count_ok cnt M (add_mset a X)" and "M a = Some v" and "cnt v \<noteq> 1" and "cnt w = cnt v - 1"
  shows "count_ok cnt (M(a \<mapsto> w)) X"
proof -
  have "a \<in># X" using count_ok_count [OF assms(1,2)] assms(3) by (simp add: not_in_iff [symmetric])
  then have "insert a (set_mset X) = set_mset X" by auto
  then show ?thesis using assms by (simp add: count_ok_def)
qed

lemma count_ok_delete:
  assumes "count_ok cnt M (add_mset a X)" and "M a = Some v" and "cnt v = 1"
  shows "count_ok cnt (M(a := None)) X"
proof -
  have "a \<notin># X" using count_ok_count [OF assms(1,2)] assms(3) by (simp add: not_in_iff)
  then show ?thesis using assms by (auto simp: count_ok_def)
qed

lemma count_ok_new:
  assumes "count_ok cnt M X" and "M a = None" and "cnt w = 1"
  shows "count_ok cnt (M(a \<mapsto> w)) (add_mset a X)"
proof -
  have "count X a = 0" using count_ok_none [OF assms(1,2)] by (simp add: not_in_iff)
  then show ?thesis using assms by (simp add: count_ok_def)
qed

text \<open>The references the memory itself holds: to readers from list entries and events, to cards
  from readers, from the softcards saved in them, and from events.\<close>

definition saved_card :: "VReaderStruct \<Rightarrow> nat option" where
  "saved_card reader = Option.bind (rd_private reader) em_saved_vcard"

definition reader_refs :: "'c memory \<Rightarrow> nat multiset" where
  "reader_refs m = refs en_reader (ventries m) + refs ev_reader (vevents m)"

definition card_refs :: "'c memory \<Rightarrow> nat multiset" where
  "card_refs m = refs rd_card (vreaders m) + refs saved_card (vreaders m) + refs ev_card (vevents m)"

text \<open>\<open>counted m HR HC\<close>: every reference count is the number of references there are, those in
  memory and those that callers hold: the multisets \<open>HR\<close> to readers and \<open>HC\<close> to cards.\<close>

definition counted :: "'c memory \<Rightarrow> nat multiset \<Rightarrow> nat multiset \<Rightarrow> bool" where
  "counted m HR HC \<longleftrightarrow>
     count_ok rd_reference_count (vreaders m) (reader_refs m + HR) \<and>
     count_ok cd_reference_count (vcards m) (card_refs m + HC) \<and>
     finite (dom (vevents m)) \<and> finite (dom (ventries m)) \<and>
     (\<forall>a \<ge> next_address m. vcards m a = None \<and> vreaders m a = None \<and> vevents m a = None \<and>
        ventries m a = None \<and> vlists m a = None)"

lemma countedD:
  assumes "counted m HR HC"
  shows "count_ok rd_reference_count (vreaders m) (reader_refs m + HR)"
    and "count_ok cd_reference_count (vcards m) (card_refs m + HC)"
    and "finite (dom (vevents m))" and "finite (dom (ventries m))"
    and "finite (dom (vreaders m))" and "finite (dom (vcards m))"
    and "\<forall>a \<ge> next_address m. vcards m a = None \<and> vreaders m a = None \<and> vevents m a = None \<and>
        ventries m a = None \<and> vlists m a = None"
  using assms by (auto simp: counted_def intro: count_ok_finite)

lemma counted_vcards:
  assumes "counted m HR HC" and "count_ok cd_reference_count C (card_refs m + HC')"
    and "dom C \<subseteq> dom (vcards m)"
  shows "counted (m\<lparr>vcards := C\<rparr>) HR HC'"
  using assms by (auto simp: counted_def reader_refs_def card_refs_def domIff subset_iff)

text \<open>What reference counting leaves alone: the events, the list entries, the queue, the lists.\<close>

definition same_links :: "'c memory \<Rightarrow> 'c memory \<Rightarrow> bool" where
  "same_links m m' \<longleftrightarrow> vevents m' = vevents m \<and> ventries m' = ventries m \<and> vlists m' = vlists m \<and>
     vevent_queue_head m' = vevent_queue_head m \<and> vevent_queue_tail m' = vevent_queue_tail m \<and>
     vreader_list m' = vreader_list m \<and> next_address m' = next_address m"

lemma same_links_refl [simp]: "same_links m m"
  by (simp add: same_links_def)

lemma same_links_trans: "same_links m m' \<Longrightarrow> same_links m' m'' \<Longrightarrow> same_links m m''"
  by (simp add: same_links_def)

text \<open>What a reader is, its reference count aside.\<close>

definition reader_at :: "'c memory \<Rightarrow> nat \<Rightarrow> VReaderStruct option" where
  "reader_at m r = map_option (\<lambda>reader. reader\<lparr>rd_reference_count := 0\<rparr>) (vreaders m r)"

lemma reader_at_None: "reader_at m r = None \<longleftrightarrow> vreaders m r = None"
  by (simp add: reader_at_def)

lemma reader_at_cong: "vreaders m' r = vreaders m r \<Longrightarrow> reader_at m' r = reader_at m r"
  by (simp add: reader_at_def)

lemma reader_at_reference:
  "vreaders m r = Some reader \<Longrightarrow>
   vreaders m' = (vreaders m)(r \<mapsto> reader\<lparr>rd_reference_count := n\<rparr>) \<Longrightarrow> reader_at m' = reader_at m"
  by (auto simp: reader_at_def fun_eq_iff)

text \<open>The readers that are still there are what they were.\<close>

definition readers_kept :: "'c memory \<Rightarrow> 'c memory \<Rightarrow> bool" where
  "readers_kept m m' \<longleftrightarrow> (\<forall>r. vreaders m' r \<noteq> None \<longrightarrow> reader_at m' r = reader_at m r)"

lemma readers_keptI: "reader_at m' = reader_at m \<Longrightarrow> readers_kept m m'"
  by (simp add: readers_kept_def)

lemma readers_kept_trans: "readers_kept m m' \<Longrightarrow> readers_kept m' m'' \<Longrightarrow> readers_kept m m''"
  by (metis readers_kept_def reader_at_None)

lemma readers_keptD: "readers_kept m m' \<Longrightarrow> vreaders m' r = Some reader \<Longrightarrow> reader_at m' r = reader_at m r"
  by (simp add: readers_kept_def)

lemma vcard_reference_ok:
  assumes "counted m HR HC" and "c \<in># card_refs m + HC"
  shows "\<exists>m'. vcard_reference (Some c) m = Some (Some c, m') \<and> counted m' HR (add_mset c HC) \<and>
    same_links m m' \<and> vreaders m' = vreaders m"
proof -
  obtain v where v: "vcards m c = Some v" using count_okD [OF countedD(2) [OF assms(1)] assms(2)] by blast
  show ?thesis
    using assms(1) v count_ok_inc [OF countedD(2) [OF assms(1)] v]
    by (auto simp: counted_def same_links_def reader_refs_def card_refs_def)
qed

text \<open>Counting does not look at events and entries.\<close>

lemma counting_vevents:
  "vcard_free c (m\<lparr>vevents := E\<rparr>) = map_option (\<lambda>m. m\<lparr>vevents := E\<rparr>) (vcard_free c m)"
  "vreader_free r (m\<lparr>vevents := E\<rparr>) = map_option (\<lambda>m. m\<lparr>vevents := E\<rparr>) (vreader_free r m)"
proof -
  have card: "vcard_free c (m\<lparr>vevents := E\<rparr>) = map_option (\<lambda>m. m\<lparr>vevents := E\<rparr>) (vcard_free c m)"
    for c and m :: "'a memory"
    by (cases c) (auto simp: Let_def split: option.splits bind_splits)
  have emul: "vreader_emul_delete p (m\<lparr>vevents := E\<rparr>) =
      map_option (\<lambda>m. m\<lparr>vevents := E\<rparr>) (vreader_emul_delete p m)" for p and m :: "'a memory"
    by (cases p) (simp_all add: card)
  show "vcard_free c (m\<lparr>vevents := E\<rparr>) = map_option (\<lambda>m. m\<lparr>vevents := E\<rparr>) (vcard_free c m)"
    by (rule card)
  show "vreader_free r (m\<lparr>vevents := E\<rparr>) = map_option (\<lambda>m. m\<lparr>vevents := E\<rparr>) (vreader_free r m)"
    by (cases r) (auto simp: card emul split: option.splits bind_splits)
qed

lemma counting_ventries:
  "vreader_free r (m\<lparr>ventries := N\<rparr>) = map_option (\<lambda>m. m\<lparr>ventries := N\<rparr>) (vreader_free r m)"
proof -
  have card: "vcard_free c (m\<lparr>ventries := N\<rparr>) = map_option (\<lambda>m. m\<lparr>ventries := N\<rparr>) (vcard_free c m)"
    for c and m :: "'a memory"
    by (cases c) (auto simp: Let_def split: option.splits bind_splits)
  have emul: "vreader_emul_delete p (m\<lparr>ventries := N\<rparr>) =
      map_option (\<lambda>m. m\<lparr>ventries := N\<rparr>) (vreader_emul_delete p m)" for p and m :: "'a memory"
    by (cases p) (simp_all add: card)
  show ?thesis
    by (cases r) (auto simp: card emul split: option.splits bind_splits)
qed

lemma counting_vreaders:
  "vcard_free c (m\<lparr>vreaders := R\<rparr>) = map_option (\<lambda>m. m\<lparr>vreaders := R\<rparr>) (vcard_free c m)"
  by (cases c) (auto simp: Let_def split: option.splits bind_splits)

lemma vcard_free_links: "vcard_free c m = Some m' \<Longrightarrow> same_links m m' \<and> vreaders m' = vreaders m"
  by (cases c) (auto simp: same_links_def Let_def split: bind_splits if_splits)

lemma vreader_free_links: "vreader_free r m = Some m' \<Longrightarrow> same_links m m'"
proof (cases r)
  case (Some a)
  have "vreader_emul_delete p m = Some m' \<Longrightarrow> same_links m m'" for p and m m' :: "'a memory"
    using vcard_free_links by (cases p) auto
  moreover assume "vreader_free r m = Some m'"
  ultimately show ?thesis
    using Some vcard_free_links
    by (fastforce simp: same_links_def split: bind_splits if_splits)
qed simp

lemma vcard_free_ok:
  assumes "counted m HR (add_mset c HC)"
  shows "\<exists>m'. vcard_free (Some c) m = Some m' \<and> counted m' HR HC \<and>
    same_links m m' \<and> vreaders m' = vreaders m"
proof -
  have ok: "count_ok cd_reference_count (vcards m) (add_mset c (card_refs m + HC))"
    using countedD(2) [OF assms] by simp
  obtain v where v: "vcards m c = Some v" "0 < cd_reference_count v" using count_okD [OF ok] by force
  show ?thesis
  proof (cases "cd_reference_count v = 1")
    case True
    then have "counted (m\<lparr>vcards := (vcards m)(c := None)\<rparr>) HR HC"
      using count_ok_delete [OF ok v(1)] by (intro counted_vcards [OF assms]) auto
    then show ?thesis using v True by (simp add: same_links_def)
  next
    case False
    let ?w = "v\<lparr>cd_reference_count := cd_reference_count v - 1\<rparr>"
    have "counted (m\<lparr>vcards := (vcards m)(c \<mapsto> ?w)\<rparr>) HR HC"
      using count_ok_dec [OF ok v(1) False, of ?w] v(1) by (intro counted_vcards [OF assms]) auto
    then show ?thesis using v False by (simp add: same_links_def Let_def)
  qed
qed

lemma vcard_free_option:
  assumes "counted m HR (mset_option c + HC)"
  shows "\<exists>m'. vcard_free c m = Some m' \<and> counted m' HR HC \<and> same_links m m' \<and> vreaders m' = vreaders m"
  using assms vcard_free_ok [of m HR _ HC] by (cases c) auto

lemma vreader_reference_ok:
  assumes "counted m HR HC" and "r \<in># reader_refs m + HR"
  shows "\<exists>m' reader. vreader_reference (Some r) m = Some (Some r, m') \<and> counted m' (add_mset r HR) HC \<and>
    same_links m m' \<and> card_refs m' = card_refs m \<and> vreaders m r = Some reader \<and>
    vreaders m' = (vreaders m)(r \<mapsto> reader\<lparr>rd_reference_count := rd_reference_count reader + 1\<rparr>)"
proof -
  obtain v where v: "vreaders m r = Some v" using count_okD [OF countedD(1) [OF assms(1)] assms(2)] by blast
  let ?w = "v\<lparr>rd_reference_count := rd_reference_count v + 1\<rparr>"
  have same: "refs rd_card ((vreaders m)(r \<mapsto> ?w)) = refs rd_card (vreaders m)"
      "refs saved_card ((vreaders m)(r \<mapsto> ?w)) = refs saved_card (vreaders m)"
    by (simp_all add: refs_same [OF countedD(5) [OF assms(1)] v] saved_card_def)
  show ?thesis
    using assms(1) v same count_ok_inc [OF countedD(1) [OF assms(1)] v]
    by (auto simp: counted_def same_links_def reader_refs_def card_refs_def)
qed

lemma vreader_free_ok:
  assumes "counted m (add_mset r HR) HC"
  shows "\<exists>m'. vreader_free (Some r) m = Some m' \<and> counted m' HR HC \<and> same_links m m' \<and>
    readers_kept m m'"
proof -
  have ok: "count_ok rd_reference_count (vreaders m) (add_mset r (reader_refs m + HR))"
    using countedD(1) [OF assms] by simp
  obtain v where v: "vreaders m r = Some v" "0 < rd_reference_count v" using count_okD [OF ok] by force
  show ?thesis
  proof (cases "rd_reference_count v = 1")
    case False
    let ?w = "v\<lparr>rd_reference_count := rd_reference_count v - 1\<rparr>"
    have same: "refs rd_card ((vreaders m)(r \<mapsto> ?w)) = refs rd_card (vreaders m)"
        "refs saved_card ((vreaders m)(r \<mapsto> ?w)) = refs saved_card (vreaders m)"
      by (simp_all add: refs_same [OF countedD(5) [OF assms] v(1)] saved_card_def)
    show ?thesis
      using assms v same False count_ok_dec [OF ok v(1) False, of ?w]
      by (auto simp: counted_def same_links_def reader_refs_def card_refs_def readers_kept_def reader_at_def)
  next
    case True
    let ?del = "\<lambda>m :: 'a memory. m\<lparr>vreaders := (vreaders m)(r := None)\<rparr>"
    have fin: "finite (dom (vreaders m))" by (rule countedD(5) [OF assms])
    have "counted (?del m) HR (mset_option (rd_card v) + (mset_option (saved_card v) + HC))"
      using assms v(1) count_ok_delete [OF ok v(1) True]
        refs_delete [OF fin v(1), of rd_card] refs_delete [OF fin v(1), of saved_card]
      by (auto simp: counted_def reader_refs_def card_refs_def ac_simps)
    then obtain m1 where m1: "vcard_free (rd_card v) (?del m) = Some m1"
        "counted m1 HR (mset_option (saved_card v) + HC)" "same_links (?del m) m1"
        "vreaders m1 = vreaders (?del m)"
      using vcard_free_option by blast
    then obtain m2 where m2: "vcard_free (saved_card v) m1 = Some m2" "counted m2 HR HC"
        "same_links m1 m2" "vreaders m2 = vreaders m1"
      using vcard_free_option by blast
    have commute: "vcard_free c (?del m) = map_option ?del (vcard_free c m)" for c and m :: "'a memory"
      by (cases c) (auto simp: Let_def split: option.splits bind_splits)
    have emul: "vreader_emul_delete (rd_private v) = vcard_free (saved_card v)"
      by (cases "rd_private v") (auto simp: saved_card_def fun_eq_iff)
    have "vreader_free (Some r) m = Some m2"
      using m1(1) m2(1) v(1) True unfolding commute
      by (auto simp: emul commute)
    then show ?thesis
      using m1 m2 by (auto simp: same_links_def readers_kept_def reader_at_def)
  qed
qed

lemma vcard_reference_option:
  assumes "counted m HR HC" and "set_option c \<subseteq> set_mset (card_refs m + HC)"
  shows "\<exists>m'. vcard_reference c m = Some (c, m') \<and> counted m' HR (mset_option c + HC) \<and>
    same_links m m' \<and> vreaders m' = vreaders m"
proof (cases c)
  case (Some a)
  then show ?thesis using assms vcard_reference_ok [OF assms(1), of a] by simp
qed (use assms in simp)

text \<open>A reference to a card moves between a reader and a caller.\<close>

lemma counted_reader_upd:
  assumes "counted m HR HC" and "vreaders m r = Some v"
    and "rd_reference_count w = rd_reference_count v"
    and "mset_option (rd_card w) + mset_option (saved_card w) + HC' =
      mset_option (rd_card v) + mset_option (saved_card v) + HC"
  shows "counted (m\<lparr>vreaders := (vreaders m)(r \<mapsto> w)\<rparr>) HR HC'"
proof -
  let ?R = "(vreaders m)(r \<mapsto> w)"
  note upd = refs_update [OF countedD(5) [OF assms(1)] assms(2), where w = w]
  have "refs rd_card ?R + refs saved_card ?R + HC' =
      refs rd_card (vreaders m) + refs saved_card (vreaders m) + HC"
  proof (rule multiset_eqI)
    fix x
    show "count (refs rd_card ?R + refs saved_card ?R + HC') x =
        count (refs rd_card (vreaders m) + refs saved_card (vreaders m) + HC) x"
      using arg_cong [OF upd [of rd_card], of "\<lambda>M. count M x"]
        arg_cong [OF upd [of saved_card], of "\<lambda>M. count M x"]
        arg_cong [OF assms(4), of "\<lambda>M. count M x"] by simp
  qed
  then have "card_refs (m\<lparr>vreaders := ?R\<rparr>) + HC' = card_refs m + HC"
    by (simp add: card_refs_def ac_simps)
  then show ?thesis
    using assms(1,2) count_ok_keep [OF countedD(1) [OF assms(1)] assms(2,3)]
    by (auto simp: counted_def reader_refs_def)
qed

lemmas counting_simps = vcard_reference.simps vcard_free.simps vreader_reference.simps vreader_free.simps

declare vcard_reference.simps(2) [simp del] vcard_free.simps(2) [simp del]
  vreader_reference.simps(2) [simp del] vreader_free.simps(2) [simp del]

end
