(* ===== verification/Event_Queue.thy ===== *)
theory Event_Queue
  imports Reader_Store
begin

text \<open>
  The event queue of \<open>src/event.c\<close>: a list linked through the events with a pointer to its head and
  one to its tail, which is not reset when the queue runs empty. \<open>event_queue m es\<close> reads the queue
  as the list \<open>es\<close> of events. The locale \<open>fifo\<close> is the contract the readers and the event
  loop rely on; its interpretation \<open>event_fifo\<close> discharges it for the pointers.
  \<open>vevent_wait_next_vevent\<close> is \<open>vevent_get_next_vevent\<close> once there is an event to return.
\<close>


section \<open>Operations\<close>

definition vevent_new :: "VEventType \<Rightarrow> nat option \<Rightarrow> nat option \<Rightarrow> 'c memory \<Rightarrow> (nat \<times> 'c memory) option" where
  "vevent_new type r c m = do {
     let new_vevent = next_address m;
     let m = m\<lparr>next_address := new_vevent + 1\<rparr>;
     (r, m) \<leftarrow> vreader_reference r m;
     (c, m) \<leftarrow> vcard_reference c m;
     Some (new_vevent, m\<lparr>vevents := (vevents m)(new_vevent \<mapsto>
       \<lparr>ev_next = None, ev_type = type, ev_reader = r, ev_card = c\<rparr>)\<rparr>)
   }"

fun vevent_delete :: "nat option \<Rightarrow> 'c memory \<Rightarrow> 'c memory option" where
  "vevent_delete None m = Some m"
| "vevent_delete (Some e) m = do {
     vevent \<leftarrow> vevents m e;
     m \<leftarrow> vreader_free (ev_reader vevent) m;
     m \<leftarrow> vcard_free (ev_card vevent) m;
     Some (m\<lparr>vevents := (vevents m)(e := None)\<rparr>)
   }"

definition vevent_queue_init :: "'c memory \<Rightarrow> 'c memory" where
  "vevent_queue_init m = m\<lparr>vevent_queue_head := None, vevent_queue_tail := None\<rparr>"

definition vevent_set_next :: "nat \<Rightarrow> nat option \<Rightarrow> 'c memory \<Rightarrow> 'c memory option" where
  "vevent_set_next e n m = do {
     vevent \<leftarrow> vevents m e;
     Some (m\<lparr>vevents := (vevents m)(e \<mapsto> vevent\<lparr>ev_next := n\<rparr>)\<rparr>)
   }"

text \<open>A null tail behind a head fails the assertion.\<close>

definition vevent_queue_vevent :: "nat \<Rightarrow> 'c memory \<Rightarrow> 'c memory option" where
  "vevent_queue_vevent e m = do {
     m \<leftarrow> vevent_set_next e None m;
     m \<leftarrow> (if vevent_queue_head m \<noteq> None
           then do { t \<leftarrow> vevent_queue_tail m; vevent_set_next t (Some e) m }
           else Some (m\<lparr>vevent_queue_head := Some e\<rparr>));
     Some (m\<lparr>vevent_queue_tail := Some e\<rparr>)
   }"

definition vevent_dequeue_vevent :: "'c memory \<Rightarrow> (nat option \<times> 'c memory) option" where
  "vevent_dequeue_vevent m =
     (case vevent_queue_head m of
        None \<Rightarrow> Some (None, m)
      | Some e \<Rightarrow> do {
          vevent \<leftarrow> vevents m e;
          m \<leftarrow> vevent_set_next e None (m\<lparr>vevent_queue_head := ev_next vevent\<rparr>);
          Some (Some e, m)
        })"

definition vevent_get_next_vevent :: "'c memory \<Rightarrow> (nat option \<times> 'c memory) option" where
  "vevent_get_next_vevent m = vevent_dequeue_vevent m"

section \<open>The queue as a list\<close>

definition event_nexts :: "(nat \<rightharpoonup> VEvent) \<Rightarrow> nat \<Rightarrow> nat option option" where
  "event_nexts E e = map_option ev_next (E e)"

lemma event_nexts_upd [simp]: "event_nexts (E(e := x)) = (event_nexts E)(e := map_option ev_next x)"
  by (auto simp: event_nexts_def)

definition event_queue :: "'c memory \<Rightarrow> nat list \<Rightarrow> bool" where
  "event_queue m es \<longleftrightarrow> distinct es \<and> chain (event_nexts (vevents m)) es None \<and>
     vevent_queue_head m = start es None \<and> (es \<noteq> [] \<longrightarrow> vevent_queue_tail m = Some (last es))"

lemma event_queue_empty [simp]: "event_queue (vevent_queue_init m) []"
  by (simp add: event_queue_def vevent_queue_init_def)

lemma event_queue_in: "event_queue m es \<Longrightarrow> e \<in> set es \<Longrightarrow> \<exists>v. vevents m e = Some v"
  using chain_in [of "event_nexts (vevents m)" es None e] by (auto simp: event_queue_def event_nexts_def)

lemma queue_vevent_correct:
  assumes "event_queue m es" and "vevents m e = Some v" and "e \<notin> set es"
  shows "\<exists>m'. vevent_queue_vevent e m = Some m' \<and> event_queue m' (es @ [e]) \<and>
    dom (vevents m') = dom (vevents m)"
proof (cases es rule: rev_cases)
  case Nil
  then show ?thesis
    using assms by (auto simp: vevent_queue_vevent_def vevent_set_next_def event_queue_def)
next
  case (snoc ys t)
  obtain w where w: "vevents m t = Some w" using event_queue_in [OF assms(1)] snoc by auto
  have "e \<noteq> t" "e \<notin> set ys" "t \<notin> set ys" using assms(1,3) snoc by (auto simp: event_queue_def)
  then show ?thesis
    using assms w snoc
    by (cases ys) (auto simp: vevent_queue_vevent_def vevent_set_next_def event_queue_def)
qed

lemma dequeue_vevent_empty: "event_queue m [] \<Longrightarrow> vevent_dequeue_vevent m = Some (None, m)"
  by (simp add: vevent_dequeue_vevent_def event_queue_def)

lemma dequeue_vevent_correct:
  assumes "event_queue m (e # es)"
  shows "\<exists>m'. vevent_dequeue_vevent m = Some (Some e, m') \<and> event_queue m' es \<and>
    dom (vevents m') = dom (vevents m)"
proof -
  obtain v where v: "vevents m e = Some v" using event_queue_in [OF assms] by auto
  then have "ev_next v = start es None" using assms by (simp add: event_queue_def event_nexts_def)
  then show ?thesis
    using assms v by (auto simp: vevent_dequeue_vevent_def vevent_set_next_def event_queue_def)
qed

section \<open>First in, first out\<close>

text \<open>The contract of a queue for those that post to it and those that wait for it. A trace of
  operations is run on the queue and on a list.\<close>

datatype 'a queue_op = Enq 'a | Deq

primrec run_ops :: "('a \<Rightarrow> 'm \<Rightarrow> 'm option) \<Rightarrow> ('m \<Rightarrow> ('a option \<times> 'm) option) \<Rightarrow>
    'a queue_op list \<Rightarrow> 'm \<Rightarrow> ('a option list \<times> 'm) option" where
  "run_ops enq deq [] m = Some ([], m)"
| "run_ops enq deq (op # ops) m = do {
     (out, m) \<leftarrow> (case op of
         Enq x \<Rightarrow> do { m \<leftarrow> enq x m; Some ([], m) }
       | Deq \<Rightarrow> do { (x, m) \<leftarrow> deq m; Some ([x], m) });
     (outs, m) \<leftarrow> run_ops enq deq ops m;
     Some (out @ outs, m)
   }"

fun list_ops :: "'a queue_op list \<Rightarrow> 'a list \<Rightarrow> 'a option list \<times> 'a list" where
  "list_ops [] xs = ([], xs)"
| "list_ops (Enq x # ops) xs = list_ops ops (xs @ [x])"
| "list_ops (Deq # ops) [] = (case list_ops ops [] of (outs, xs) \<Rightarrow> (None # outs, xs))"
| "list_ops (Deq # ops) (x # xs) = (case list_ops ops xs of (outs, xs) \<Rightarrow> (Some x # outs, xs))"

text \<open>Nothing is queued that is in the queue already.\<close>

fun ops_ok :: "'a set \<Rightarrow> 'a queue_op list \<Rightarrow> 'a list \<Rightarrow> bool" where
  "ops_ok A [] xs \<longleftrightarrow> True"
| "ops_ok A (Enq x # ops) xs \<longleftrightarrow> x \<in> A \<and> x \<notin> set xs \<and> ops_ok A ops (xs @ [x])"
| "ops_ok A (Deq # ops) xs \<longleftrightarrow> ops_ok A ops (drop 1 xs)"

locale fifo =
  fixes enq :: "'a \<Rightarrow> 'm \<Rightarrow> 'm option" and deq :: "'m \<Rightarrow> ('a option \<times> 'm) option"
    and contents :: "'m \<Rightarrow> 'a list \<Rightarrow> bool" and items :: "'m \<Rightarrow> 'a set"
  assumes enq_snoc: "contents m xs \<Longrightarrow> x \<in> items m \<Longrightarrow> x \<notin> set xs \<Longrightarrow>
      \<exists>m'. enq x m = Some m' \<and> contents m' (xs @ [x]) \<and> items m' = items m"
    and deq_nil: "contents m [] \<Longrightarrow> deq m = Some (None, m)"
    and deq_cons: "contents m (x # xs) \<Longrightarrow>
      \<exists>m'. deq m = Some (Some x, m') \<and> contents m' xs \<and> items m' = items m"
begin

lemma run_ops_list:
  assumes "contents m xs" and "ops_ok (items m) ops xs"
  shows "\<exists>m'. run_ops enq deq ops m = Some (fst (list_ops ops xs), m') \<and>
    contents m' (snd (list_ops ops xs))"
  using assms
proof (induction ops arbitrary: m xs)
  case (Cons op ops)
  show ?case
  proof (cases op)
    case (Enq x)
    obtain m' where m': "enq x m = Some m'" "contents m' (xs @ [x])" "items m' = items m"
      using enq_snoc [of m xs x] Cons.prems Enq by auto
    then show ?thesis using Cons.IH [OF m'(2)] Cons.prems(2) Enq by auto
  next
    case Deq
    show ?thesis
    proof (cases xs)
      case Nil
      then show ?thesis
        using Cons.IH [of m "[]"] Cons.prems Deq deq_nil [of m] by (auto split: prod.splits)
    next
      case (Cons x ys)
      obtain m' where m': "deq m = Some (Some x, m')" "contents m' ys" "items m' = items m"
        using deq_cons [of m x ys] Cons.prems Cons by auto
      then show ?thesis
        using Cons.IH [OF m'(2)] Cons.prems(2) Cons Deq by (auto split: prod.splits)
    qed
  qed
qed simp

end

interpretation event_fifo: fifo vevent_queue_vevent vevent_get_next_vevent event_queue
  "\<lambda>m :: 'c memory. dom (vevents m)"
proof
  show "\<exists>m'. vevent_queue_vevent x m = Some m' \<and> event_queue m' (xs @ [x]) \<and>
      dom (vevents m') = dom (vevents m)"
    if "event_queue m xs" "x \<in> dom (vevents m)" "x \<notin> set xs" for m :: "'c memory" and xs x
    using queue_vevent_correct [OF that(1) _ that(3)] that(2) by auto
qed (simp_all add: vevent_get_next_vevent_def dequeue_vevent_empty dequeue_vevent_correct)

text \<open>C36: The event queue is a queue: for every sequence of calls to queue an event and to take the next
  one, the linked list with its head and tail pointers returns what a list of pending events
  returns, no call follows a null or dangling pointer, and the pending events at the end are
  those of the list.\<close>

theorem event_queue_fifo:
  assumes "event_queue m es" and "ops_ok (dom (vevents m)) ops es"
  shows "\<exists>m'. run_ops vevent_queue_vevent vevent_get_next_vevent ops m = Some (fst (list_ops ops es), m') \<and>
    event_queue m' (snd (list_ops ops es))"
  using assms by (rule event_fifo.run_ops_list)

theorem event_queue_fifo_witness:
  "let m = snd (the (vevent_new VEVENT_LAST None None (snd (the (vevent_new VEVENT_LAST None None
         (empty_memory :: unit memory)))))) in
   \<exists>m'. run_ops vevent_queue_vevent vevent_get_next_vevent [Deq, Enq 0, Enq 1, Deq, Enq 0] m =
     Some ([None, Some 0], m') \<and> event_queue m' [1, 0]"
proof -
  let ?m = "snd (the (vevent_new VEVENT_LAST None None (snd (the (vevent_new VEVENT_LAST None None
         (empty_memory :: unit memory))))))"
  have "event_queue ?m []" "ops_ok (dom (vevents ?m)) [Deq, Enq 0, Enq 1, Deq, Enq 0] []"
    by (simp_all add: vevent_new_def empty_memory_def event_queue_def)
  from event_queue_fifo [OF this] show ?thesis by (simp add: Let_def)
qed

section \<open>Reference counts\<close>

lemma counted_queue_fields [simp]:
  "counted (m\<lparr>vevent_queue_head := x\<rparr>) HR HC = counted m HR HC"
  "counted (m\<lparr>vevent_queue_tail := x\<rparr>) HR HC = counted m HR HC"
  by (simp_all add: counted_def reader_refs_def card_refs_def)

lemma counted_event_upd:
  assumes "counted m HR HC" and "vevents m e = Some v"
    and "ev_reader w = ev_reader v" and "ev_card w = ev_card v"
  shows "counted (m\<lparr>vevents := (vevents m)(e \<mapsto> w)\<rparr>) HR HC"
proof -
  note same = refs_same [OF countedD(3) [OF assms(1)] assms(2)]
  show ?thesis
    using assms(1,2) same [of ev_reader w] same [of ev_card w] assms(3,4)
    by (auto simp: counted_def reader_refs_def card_refs_def)
qed

text \<open>The list of readers is not touched by the queue.\<close>

definition same_lists :: "'c memory \<Rightarrow> 'c memory \<Rightarrow> bool" where
  "same_lists m m' \<longleftrightarrow> ventries m' = ventries m \<and> vlists m' = vlists m \<and> vreader_list m' = vreader_list m"

lemma set_next_counted:
  assumes "counted m HR HC" and "vevent_set_next e n m = Some m'"
  shows "counted m' HR HC \<and> same_lists m m' \<and> vreaders m' = vreaders m"
  using assms counted_event_upd [OF assms(1)]
  by (auto simp: vevent_set_next_def same_lists_def split: bind_splits)

lemma queue_vevent_counted:
  assumes "counted m HR HC" and "vevent_queue_vevent e m = Some m'"
  shows "counted m' HR HC \<and> same_lists m m' \<and> vreaders m' = vreaders m"
  using assms
  by (auto simp: vevent_queue_vevent_def same_lists_def split: bind_splits if_splits
      dest!: set_next_counted [rotated])

lemma dequeue_vevent_counted:
  assumes "counted m HR HC" and "vevent_dequeue_vevent m = Some (e, m')"
  shows "counted m' HR HC \<and> same_lists m m' \<and> vreaders m' = vreaders m"
  using assms
  by (auto simp: vevent_dequeue_vevent_def same_lists_def split: bind_splits option.splits
      dest!: set_next_counted [rotated])

lemma event_queue_cong:
  "vevents m' = vevents m \<Longrightarrow> vevent_queue_head m' = vevent_queue_head m \<Longrightarrow>
   vevent_queue_tail m' = vevent_queue_tail m \<Longrightarrow> event_queue m' es = event_queue m es"
  by (simp add: event_queue_def)

lemma same_links_lists: "same_links m m' \<Longrightarrow> same_lists m m'"
  by (simp add: same_links_def same_lists_def)

lemma same_lists_trans: "same_lists m m' \<Longrightarrow> same_lists m' m'' \<Longrightarrow> same_lists m m''"
  by (simp add: same_lists_def)

lemma vevent_new_ok:
  assumes "counted m HR HC" and "r \<in># reader_refs m + HR"
    and "set_option c \<subseteq> set_mset (card_refs m + HC)" and "event_queue m es"
  shows "\<exists>m'. vevent_new type (Some r) c m = Some (next_address m, m') \<and> counted m' HR HC \<and>
    same_lists m m' \<and> event_queue m' es \<and> reader_at m' = reader_at m \<and>
    vevents m' = (vevents m)(next_address m \<mapsto>
      \<lparr>ev_next = None, ev_type = type, ev_reader = Some r, ev_card = c\<rparr>)"
proof -
  let ?m0 = "m\<lparr>next_address := next_address m + 1\<rparr>"
  have new: "vevents m (next_address m) = None" using countedD(7) [OF assms(1)] by simp
  have m0: "counted ?m0 HR HC" "reader_refs ?m0 = reader_refs m" "card_refs ?m0 = card_refs m"
    using assms(1) by (simp_all add: counted_def reader_refs_def card_refs_def)
  obtain m1 reader where m1: "vreader_reference (Some r) ?m0 = Some (Some r, m1)"
      "counted m1 (add_mset r HR) HC" "same_links ?m0 m1" "card_refs m1 = card_refs ?m0" "vreaders m r = Some reader"
      "vreaders m1 = (vreaders m)(r \<mapsto> reader\<lparr>rd_reference_count := rd_reference_count reader + 1\<rparr>)"
    using vreader_reference_ok [OF m0(1), of r] assms(2) m0(2) by auto
  obtain m2 where m2: "vcard_reference c m1 = Some (c, m2)"
      "counted m2 (add_mset r HR) (mset_option c + HC)" "same_links m1 m2" "vreaders m2 = vreaders m1"
    using vcard_reference_option [OF m1(2), of c] assms(3) m1(4) m0(3) by auto
  let ?v = "\<lparr>ev_next = None, ev_type = type, ev_reader = Some r, ev_card = c\<rparr>"
  let ?m3 = "m2\<lparr>vevents := (vevents m2)(next_address m \<mapsto> ?v)\<rparr>"
  have ev: "vevents m2 = vevents m" "next_address m2 = next_address m + 1"
    using m1(3) m2(3) by (simp_all add: same_links_def)
  have "counted ?m3 HR HC"
    using m2(2) ev new refs_new [OF countedD(3) [OF assms(1)] new, of ev_reader ?v]
      refs_new [OF countedD(3) [OF assms(1)] new, of ev_card ?v]
    by (auto simp: counted_def reader_refs_def card_refs_def ac_simps)
  moreover have "event_queue ?m3 es"
  proof -
    have "next_address m \<notin> set es" using event_queue_in [OF assms(4), of "next_address m"] new by auto
    then show ?thesis
      using assms(4) ev m1(3) m2(3) by (simp add: event_queue_def same_links_def)
  qed
  moreover have "reader_at ?m3 = reader_at m"
    using m1(5,6) m2(4) by (auto simp: reader_at_def fun_eq_iff)
  moreover have "same_lists m ?m3" using m1(3) m2(3) by (simp add: same_links_def same_lists_def)
  ultimately show ?thesis
    using m1(1) m2(1) ev by (simp add: vevent_new_def Let_def)
qed

lemma vevent_delete_ok:
  assumes "counted m HR HC" and "vevents m e = Some v" and "event_queue m es" and "e \<notin> set es"
  shows "\<exists>m'. vevent_delete (Some e) m = Some m' \<and> counted m' HR HC \<and> same_lists m m' \<and>
    event_queue m' es \<and> readers_kept m m' \<and> vevents m' = (vevents m)(e := None)"
proof -
  let ?d = "m\<lparr>vevents := (vevents m)(e := None)\<rparr>"
  note del = refs_delete [OF countedD(3) [OF assms(1)] assms(2)]
  have d: "counted ?d (mset_option (ev_reader v) + HR) (mset_option (ev_card v) + HC)"
    using assms(1) del [of ev_reader] del [of ev_card]
    by (auto simp: counted_def reader_refs_def card_refs_def ac_simps)
  obtain m1 where m1: "vreader_free (ev_reader v) ?d = Some m1" "same_links ?d m1"
      "counted m1 HR (mset_option (ev_card v) + HC)"
      "readers_kept m m1"
  proof (cases "ev_reader v")
    case None
    then show ?thesis using that [of ?d] d by (simp add: readers_kept_def reader_at_def)
  next
    case (Some r)
    have "counted ?d (add_mset r HR) (mset_option (ev_card v) + HC)" using d Some by simp
    from vreader_free_ok [OF this] obtain m1 where "vreader_free (Some r) ?d = Some m1"
        "counted m1 HR (mset_option (ev_card v) + HC)" "same_links ?d m1"
        "readers_kept ?d m1" by blast
    then show ?thesis using that [of m1] Some by (simp add: readers_kept_def reader_at_def)
  qed
  obtain m2 where m2: "vcard_free (ev_card v) m1 = Some m2" "counted m2 HR HC"
      "same_links m1 m2" "vreaders m2 = vreaders m1"
    using vcard_free_option [OF m1(3)] by blast
  obtain n1 where n1: "vreader_free (ev_reader v) m = Some n1" "m1 = n1\<lparr>vevents := (vevents m)(e := None)\<rparr>"
    using m1(1) unfolding counting_vevents by auto
  then obtain n2 where n2: "vcard_free (ev_card v) n1 = Some n2" "m2 = n2\<lparr>vevents := (vevents m)(e := None)\<rparr>"
    using m2(1) by (auto simp: counting_vevents(1))
  have "vevents n2 = vevents m"
    using vreader_free_links [OF n1(1)] vcard_free_links [OF n2(1)] by (simp add: same_links_def)
  then have "vevent_delete (Some e) m = Some m2" using assms(2) n1(1) n2 by simp
  moreover have "event_queue m2 es"
    using assms(3,4) m1(2) m2(3) by (simp add: event_queue_def same_links_def)
  moreover have "same_lists m m2" using m1(2) m2(3) by (simp add: same_links_def same_lists_def)
  moreover have "vevents m2 = (vevents m)(e := None)" using m1(2) m2(3) by (simp add: same_links_def)
  ultimately show ?thesis using m2(2,4) m1(4) by (simp add: readers_kept_def reader_at_def)
qed

end
