(* ===== verification/Reader_List.thy ===== *)
theory Reader_List
  imports Event_Queue
begin

text \<open>
  The list of readers of \<open>src/vreader.c\<close>: doubly linked entries, each with a reference to a reader.
  First all operations, from the entries to \<open>vreader_insert_card\<close>, then the invariant \<open>list_at m l xs
  rs\<close>: the list \<open>l\<close> has the entries \<open>xs\<close>, linked both ways, with the readers \<open>rs\<close>; then the loops, by
  induction over the entries, and their effect on the reference counts.
\<close>


section \<open>Entries and lists\<close>

definition vreader_list_entry_new :: "nat option \<Rightarrow> 'c memory \<Rightarrow> (nat \<times> 'c memory) option" where
  "vreader_list_entry_new r m = do {
     let new_entry = next_address m;
     let m = m\<lparr>next_address := new_entry + 1\<rparr>;
     (r, m) \<leftarrow> vreader_reference r m;
     Some (new_entry, m\<lparr>ventries := (ventries m)(new_entry \<mapsto>
       \<lparr>en_next = None, en_prev = None, en_reader = r\<rparr>)\<rparr>)
   }"

fun vreader_list_entry_delete :: "nat option \<Rightarrow> 'c memory \<Rightarrow> 'c memory option" where
  "vreader_list_entry_delete None m = Some m"
| "vreader_list_entry_delete (Some e) m = do {
     entry \<leftarrow> ventries m e;
     m \<leftarrow> vreader_free (en_reader entry) m;
     Some (m\<lparr>ventries := (ventries m)(e := None)\<rparr>)
   }"

definition vreader_list_new :: "'c memory \<Rightarrow> nat \<times> 'c memory" where
  "vreader_list_new m =
     (next_address m,
      m\<lparr>vlists := (vlists m)(next_address m \<mapsto> \<lparr>li_head = None, li_tail = None\<rparr>),
        next_address := next_address m + 1\<rparr>)"

fun vreader_list_get_first :: "nat option \<Rightarrow> 'c memory \<Rightarrow> nat option option" where
  "vreader_list_get_first None m = Some None"
| "vreader_list_get_first (Some l) m = map_option li_head (vlists m l)"

fun vreader_list_get_next :: "nat option \<Rightarrow> 'c memory \<Rightarrow> nat option option" where
  "vreader_list_get_next None m = Some None"
| "vreader_list_get_next (Some e) m = map_option en_next (ventries m e)"

fun vreader_list_get_reader :: "nat option \<Rightarrow> 'c memory \<Rightarrow> (nat option \<times> 'c memory) option" where
  "vreader_list_get_reader None m = Some (None, m)"
| "vreader_list_get_reader (Some e) m = do { entry \<leftarrow> ventries m e; vreader_reference (en_reader entry) m }"

text \<open>An update of the entry or the list at an address.\<close>

definition set_entry :: "nat \<Rightarrow> (VReaderListEntry \<Rightarrow> VReaderListEntry) \<Rightarrow> 'c memory \<Rightarrow> 'c memory option" where
  "set_entry e f m = do { entry \<leftarrow> ventries m e; Some (m\<lparr>ventries := (ventries m)(e \<mapsto> f entry)\<rparr>) }"

definition set_list :: "nat \<Rightarrow> (VReaderList \<Rightarrow> VReaderList) \<Rightarrow> 'c memory \<Rightarrow> 'c memory option" where
  "set_list l f m = do { list \<leftarrow> vlists m l; Some (m\<lparr>vlists := (vlists m)(l \<mapsto> f list)\<rparr>) }"

fun vreader_queue :: "nat option \<Rightarrow> nat option \<Rightarrow> 'c memory \<Rightarrow> 'c memory option" where
  "vreader_queue l None m = Some m"
| "vreader_queue l (Some e) m = do {
     l \<leftarrow> l;
     m \<leftarrow> set_entry e (\<lambda>entry. entry\<lparr>en_next := None\<rparr>) m;
     list \<leftarrow> vlists m l;
     m \<leftarrow> set_entry e (\<lambda>entry. entry\<lparr>en_prev := li_tail list\<rparr>) m;
     m \<leftarrow> (if li_head list \<noteq> None
           then do { t \<leftarrow> li_tail list; set_entry t (\<lambda>entry. entry\<lparr>en_next := Some e\<rparr>) m }
           else set_list l (\<lambda>list. list\<lparr>li_head := Some e\<rparr>) m);
     set_list l (\<lambda>list. list\<lparr>li_tail := Some e\<rparr>) m
   }"

fun vreader_dequeue :: "nat option \<Rightarrow> nat option \<Rightarrow> 'c memory \<Rightarrow> 'c memory option" where
  "vreader_dequeue l None m = Some m"
| "vreader_dequeue l (Some e) m = do {
     l \<leftarrow> l;
     entry \<leftarrow> ventries m e;
     m \<leftarrow> (case en_next entry of
             None \<Rightarrow> set_list l (\<lambda>list. list\<lparr>li_tail := en_prev entry\<rparr>) m
           | Some n \<Rightarrow> (case en_prev entry of
               None \<Rightarrow> set_list l (\<lambda>list. list\<lparr>li_head := Some n\<rparr>) m
             | Some p \<Rightarrow> do {
                 m \<leftarrow> set_entry p (\<lambda>entry. entry\<lparr>en_next := Some n\<rparr>) m;
                 set_entry n (\<lambda>entry. entry\<lparr>en_prev := Some p\<rparr>) m }));
     list \<leftarrow> vlists m l;
     m \<leftarrow> (if li_tail list = None \<or> li_head list = None
           then set_list l (\<lambda>list. \<lparr>li_head = None, li_tail = None\<rparr>) m else Some m);
     set_entry e (\<lambda>entry. entry\<lparr>en_next := None, en_prev := None\<rparr>) m
   }"

definition vreader_list_init :: "'c memory \<Rightarrow> 'c memory" where
  "vreader_list_init m = (let (l, m) = vreader_list_new m in m\<lparr>vreader_list := Some l\<rparr>)"

section \<open>Loops over a list\<close>

partial_function (option) list_delete_loop :: "nat option \<Rightarrow> 'c memory \<Rightarrow> 'c memory option" where
  "list_delete_loop current_entry m =
     (if current_entry = None then Some m
      else do {
        next_entry \<leftarrow> vreader_list_get_next current_entry m;
        m \<leftarrow> vreader_list_entry_delete current_entry m;
        list_delete_loop next_entry m
      })"

definition vreader_list_delete :: "nat option \<Rightarrow> 'c memory \<Rightarrow> 'c memory option" where
  "vreader_list_delete l m = do {
     current_entry \<leftarrow> vreader_list_get_first l m;
     m \<leftarrow> list_delete_loop current_entry m;
     Some (case l of None \<Rightarrow> m | Some l \<Rightarrow> m\<lparr>vlists := (vlists m)(l := None)\<rparr>)
   }"

partial_function (option) copy_list_loop :: "nat \<Rightarrow> nat option \<Rightarrow> 'c memory \<Rightarrow> 'c memory option" where
  "copy_list_loop new_list current_entry m =
     (if current_entry = None then Some m
      else do {
        (reader, m) \<leftarrow> vreader_list_get_reader current_entry m;
        (new_entry, m) \<leftarrow> vreader_list_entry_new reader m;
        m \<leftarrow> vreader_free reader m;
        m \<leftarrow> vreader_queue (Some new_list) (Some new_entry) m;
        next_entry \<leftarrow> vreader_list_get_next current_entry m;
        copy_list_loop new_list next_entry m
      })"

definition vreader_copy_list :: "nat option \<Rightarrow> 'c memory \<Rightarrow> (nat \<times> 'c memory) option" where
  "vreader_copy_list l m = do {
     let (new_list, m) = vreader_list_new m;
     current_entry \<leftarrow> vreader_list_get_first l m;
     m \<leftarrow> copy_list_loop new_list current_entry m;
     Some (new_list, m)
   }"

definition vreader_get_reader_list :: "'c memory \<Rightarrow> (nat \<times> 'c memory) option" where
  "vreader_get_reader_list m = vreader_copy_list (vreader_list m) m"

text \<open>The loop of the lookups, with the test of each as the argument; a test that follows a null
  pointer is \<open>None\<close>. A reader that does not match is released again.\<close>

partial_function (option) find_reader_loop ::
  "(VReaderStruct \<Rightarrow> bool option) \<Rightarrow> nat option \<Rightarrow> 'c memory \<Rightarrow> (nat option \<times> 'c memory) option" where
  "find_reader_loop test current_entry m =
     (if current_entry = None then Some (None, m)
      else do {
        (creader, m) \<leftarrow> vreader_list_get_reader current_entry m;
        r \<leftarrow> creader;
        reader \<leftarrow> vreaders m r;
        found \<leftarrow> test reader;
        if found then Some (creader, m)
        else do {
          m \<leftarrow> vreader_free creader m;
          next_entry \<leftarrow> vreader_list_get_next current_entry m;
          find_reader_loop test next_entry m
        }
      })"

definition vreader_get_reader_by_id :: "32 word \<Rightarrow> 'c memory \<Rightarrow> (nat option \<times> 'c memory) option" where
  "vreader_get_reader_by_id i m =
     (if i = -1 then Some (None, m)
      else do {
        current_entry \<leftarrow> vreader_list_get_first (vreader_list m) m;
        find_reader_loop (\<lambda>reader. Some (rd_id reader = i)) current_entry m
      })"

definition vreader_get_reader_by_name :: "string \<Rightarrow> 'c memory \<Rightarrow> (nat option \<times> 'c memory) option" where
  "vreader_get_reader_by_name name m = do {
     current_entry \<leftarrow> vreader_list_get_first (vreader_list m) m;
     find_reader_loop (\<lambda>reader. Some (rd_name reader = name)) current_entry m
   }"

section \<open>Readers come and go\<close>

definition vreader_add_reader :: "nat option \<Rightarrow> 'c memory \<Rightarrow> (VReaderStatus \<times> 'c memory) option" where
  "vreader_add_reader r m = do {
     (reader_entry, m) \<leftarrow> vreader_list_entry_new r m;
     m \<leftarrow> vreader_queue (vreader_list m) (Some reader_entry) m;
     (vevent, m) \<leftarrow> vevent_new VEVENT_READER_INSERT r None m;
     m \<leftarrow> vevent_queue_vevent vevent m;
     Some (VREADER_OK, m)
   }"

partial_function (option) find_entry_loop :: "nat option \<Rightarrow> nat option \<Rightarrow> 'c memory \<Rightarrow> nat option option" where
  "find_entry_loop r current_entry m =
     (case current_entry of None \<Rightarrow> Some None
      | Some e \<Rightarrow> do {
          entry \<leftarrow> ventries m e;
          if en_reader entry = r then Some (Some e)
          else find_entry_loop r (en_next entry) m
        })"

definition vreader_remove_reader :: "nat option \<Rightarrow> 'c memory \<Rightarrow> (VReaderStatus \<times> 'c memory) option" where
  "vreader_remove_reader r m = do {
     current_entry \<leftarrow> vreader_list_get_first (vreader_list m) m;
     current_entry \<leftarrow> find_entry_loop r current_entry m;
     m \<leftarrow> vreader_dequeue (vreader_list m) current_entry m;
     (vevent, m) \<leftarrow> vevent_new VEVENT_READER_REMOVE r None m;
     m \<leftarrow> vevent_queue_vevent vevent m;
     m \<leftarrow> vreader_list_entry_delete current_entry m;
     Some (VREADER_OK, m)
   }"

definition vreader_queue_card_event :: "nat option \<Rightarrow> 'c memory \<Rightarrow> 'c memory option" where
  "vreader_queue_card_event r m = do {
     p \<leftarrow> r;
     reader \<leftarrow> vreaders m p;
     (vevent, m) \<leftarrow> vevent_new
       (if rd_card reader \<noteq> None then VEVENT_CARD_INSERT else VEVENT_CARD_REMOVE) r (rd_card reader) m;
     vevent_queue_vevent vevent m
   }"

definition set_reader_card :: "nat \<Rightarrow> nat option \<Rightarrow> 'c memory \<Rightarrow> 'c memory option" where
  "set_reader_card r c m = do {
     reader \<leftarrow> vreaders m r;
     Some (m\<lparr>vreaders := (vreaders m)(r \<mapsto> reader\<lparr>rd_card := c\<rparr>)\<rparr>)
   }"

definition vreader_insert_card :: "nat option \<Rightarrow> nat option \<Rightarrow> 'c memory \<Rightarrow> (VReaderStatus \<times> 'c memory) option" where
  "vreader_insert_card r c m = do {
     p \<leftarrow> r;
     reader \<leftarrow> vreaders m p;
     m \<leftarrow> (if rd_card reader \<noteq> None
           then do { m \<leftarrow> vcard_free (rd_card reader) m; set_reader_card p None m }
           else Some m);
     (c, m) \<leftarrow> vcard_reference c m;
     m \<leftarrow> set_reader_card p c m;
     m \<leftarrow> vreader_queue_card_event r m;
     Some (VREADER_OK, m)
   }"

definition vreader_init :: "'c memory \<Rightarrow> 'c memory" where
  "vreader_init m = vreader_list_init m"

section \<open>The list as a list\<close>

definition entry_nexts :: "(nat \<rightharpoonup> VReaderListEntry) \<Rightarrow> nat \<Rightarrow> nat option option" where
  "entry_nexts N e = map_option en_next (N e)"

definition entry_prevs :: "(nat \<rightharpoonup> VReaderListEntry) \<Rightarrow> nat \<Rightarrow> nat option option" where
  "entry_prevs N e = map_option en_prev (N e)"

definition entry_reader :: "(nat \<rightharpoonup> VReaderListEntry) \<Rightarrow> nat \<Rightarrow> nat option" where
  "entry_reader N e = Option.bind (N e) en_reader"

lemma entry_links_upd [simp]:
  "entry_reader (N(e := x)) = (entry_reader N)(e := Option.bind x en_reader)"
  "entry_nexts (N(e := x)) = (entry_nexts N)(e := map_option en_next x)"
  "entry_prevs (N(e := x)) = (entry_prevs N)(e := map_option en_prev x)"
  by (auto simp: entry_nexts_def entry_prevs_def entry_reader_def)

text \<open>The entries \<open>xs\<close>, linked both ways, with the readers \<open>rs\<close>.\<close>

definition entries_ok :: "(nat \<rightharpoonup> VReaderListEntry) \<Rightarrow> nat list \<Rightarrow> nat list \<Rightarrow> bool" where
  "entries_ok N xs rs \<longleftrightarrow> distinct xs \<and> chain (entry_nexts N) xs None \<and>
     chain (entry_prevs N) (rev xs) None \<and> map (entry_reader N) xs = map Some rs"

definition list_at :: "'c memory \<Rightarrow> nat \<Rightarrow> nat list \<Rightarrow> nat list \<Rightarrow> bool" where
  "list_at m l xs rs \<longleftrightarrow> entries_ok (ventries m) xs rs \<and>
     vlists m l = Some \<lparr>li_head = start xs None, li_tail = start (rev xs) None\<rparr>"

lemma entries_ok_upd:
  assumes "e \<notin> set xs"
  shows "entries_ok (N(e := x)) xs rs = entries_ok N xs rs"
  using assms by (simp add: entries_ok_def)

lemma entries_ok_in:
  assumes "entries_ok N xs rs" and "e \<in> set xs"
  obtains v r where "N e = Some v" and "en_reader v = Some r" and "r \<in> set rs"
proof -
  have "entry_reader N e \<in> set (map Some rs)"
    using assms unfolding entries_ok_def by (metis image_eqI list.set_map)
  then show ?thesis using that by (auto simp: entry_reader_def bind_eq_Some_conv)
qed

lemma queue_correct:
  assumes "list_at m l xs rs" and "e \<notin> set xs" and "ventries m e = Some v" and "en_reader v = Some r"
  shows "\<exists>N. vreader_queue (Some l) (Some e) m =
      Some (m\<lparr>ventries := N, vlists := (vlists m)(l \<mapsto>
        \<lparr>li_head = start (xs @ [e]) None, li_tail = Some e\<rparr>)\<rparr>) \<and>
    entries_ok N (xs @ [e]) (rs @ [r]) \<and> (\<forall>x. x \<notin> set (xs @ [e]) \<longrightarrow> N x = ventries m x) \<and>
    (\<forall>x. map_option en_reader (N x) = map_option en_reader (ventries m x))"
proof (cases xs rule: rev_cases)
  case Nil
  then show ?thesis
    using assms by (auto simp: set_entry_def set_list_def list_at_def entries_ok_def)
next
  case (snoc ys t)
  obtain w where w: "ventries m t = Some w"
    using entries_ok_in [of "ventries m" xs rs t] assms(1) snoc by (auto simp: list_at_def)
  have ne: "e \<noteq> t" "e \<notin> set ys" "t \<notin> set ys" using assms(1,2) snoc by (auto simp: list_at_def entries_ok_def)
  let ?N = "(ventries m)(e \<mapsto> v\<lparr>en_next := None, en_prev := Some t\<rparr>, t \<mapsto> w\<lparr>en_next := Some e\<rparr>)"
  have "vreader_queue (Some l) (Some e) m =
      Some (m\<lparr>ventries := ?N, vlists := (vlists m)(l \<mapsto>
        \<lparr>li_head = start (xs @ [e]) None, li_tail = Some e\<rparr>)\<rparr>)"
    using assms ne snoc w
    by (cases ys) (auto simp: set_entry_def set_list_def list_at_def)
  moreover have "en_prev w = start (rev ys) None"
    using assms(1) snoc w by (simp add: list_at_def entries_ok_def entry_prevs_def)
  then have "entries_ok ?N (xs @ [e]) (rs @ [r])"
    using assms ne w snoc by (auto simp: list_at_def entries_ok_def entry_reader_def)
  ultimately show ?thesis using snoc w assms(3) by auto
qed

lemma vreader_reference_free:
  assumes "vreader_reference (Some r) m = Some (p, m')" and "vreaders m r = Some reader"
    and "0 < rd_reference_count reader"
  shows "vreader_free p m' = Some m"
  using assms by (auto simp: counting_simps fun_upd_idem)

text \<open>\<open>vreader_dequeue\<close> is right for the only entry of a list and for one between two others.\<close>

lemma dequeue_correct:
  assumes "list_at m l xs rs" and "xs = ys @ e # zs" and "rs = qs @ r # ps" and "length qs = length ys"
    and "ys = [] \<longleftrightarrow> zs = []"
  shows "\<exists>N v L. vreader_dequeue (Some l) (Some e) m =
      Some (m\<lparr>ventries := N, vlists := (vlists m)(l \<mapsto> L)\<rparr>) \<and>
    entries_ok N (ys @ zs) (qs @ ps) \<and> L = \<lparr>li_head = start (ys @ zs) None, li_tail = start (rev (ys @ zs)) None\<rparr> \<and>
    N e = Some v \<and> en_reader v = Some r \<and>
    (\<forall>x. x \<notin> set xs \<longrightarrow> N x = ventries m x) \<and>
    (\<forall>x. map_option en_reader (N x) = map_option en_reader (ventries m x))"
proof -
  have ok: "entries_ok (ventries m) xs rs" using assms(1) by (simp add: list_at_def)
  obtain v where v: "ventries m e = Some v" using entries_ok_in [OF ok, of e] assms(2) by auto
  have rd: "map (entry_reader (ventries m)) ys = map Some qs" "en_reader v = Some r"
      "map (entry_reader (ventries m)) zs = map Some ps"
    using ok assms(2-4) v
    by (auto simp: entries_ok_def entry_reader_def append_eq_append_conv)
  have ln: "en_next v = start zs None" "en_prev v = start (rev ys) None"
    using ok assms(2) v by (simp_all add: entries_ok_def entry_nexts_def entry_prevs_def)
  show ?thesis
  proof (cases "ys = []")
    case True
    then show ?thesis
      using assms v rd ln
      by (intro exI [of _ "(ventries m)(e \<mapsto> v\<lparr>en_next := None, en_prev := None\<rparr>)"])
        (auto simp: set_entry_def set_list_def list_at_def entries_ok_def)
  next
    case False
    then obtain ys' p where ys: "ys = ys' @ [p]" by (metis rev_exhaust)
    obtain n zs' where zs: "zs = n # zs'" using False assms(5) by (cases zs) auto
    obtain w where w: "ventries m p = Some w" using entries_ok_in [OF ok, of p] assms(2) ys by auto
    obtain u where u: "ventries m n = Some u" using entries_ok_in [OF ok, of n] assms(2) zs by auto
    have ne: "p \<noteq> n" "p \<noteq> e" "n \<noteq> e" "p \<notin> set ys'" "n \<notin> set ys'" "e \<notin> set ys'"
        "p \<notin> set zs'" "n \<notin> set zs'" "e \<notin> set zs'"
      using ok assms(2) ys zs by (auto simp: entries_ok_def)
    have lw: "en_prev w = start (rev ys') None" "en_next u = start zs' None"
      using ok assms(2) ys zs w u by (simp_all add: entries_ok_def entry_nexts_def entry_prevs_def)
    let ?N = "(ventries m)(p \<mapsto> w\<lparr>en_next := Some n\<rparr>, n \<mapsto> u\<lparr>en_prev := Some p\<rparr>,
      e \<mapsto> v\<lparr>en_next := None, en_prev := None\<rparr>)"
    have "vreader_dequeue (Some l) (Some e) m = Some (m\<lparr>ventries := ?N\<rparr>)"
      using assms(1,2) v w u ln ys zs ne by (auto simp: set_entry_def list_at_def)
    moreover have "m\<lparr>ventries := ?N\<rparr> = m\<lparr>ventries := ?N, vlists := (vlists m)(l \<mapsto>
        \<lparr>li_head = start (ys @ zs) None, li_tail = start (rev (ys @ zs)) None\<rparr>)\<rparr>"
    proof -
      have "(vlists m)(l \<mapsto> \<lparr>li_head = start (ys @ zs) None, li_tail = start (rev (ys @ zs)) None\<rparr>) = vlists m"
        using assms(1,2) ys zs by (simp add: list_at_def fun_upd_idem)
      then show ?thesis by (cases m) simp
    qed
    moreover have "entries_ok ?N (ys @ zs) (qs @ ps)"
      using ok assms(2) ys zs ne rd lw w u
      by (auto simp: entries_ok_def entry_reader_def)
    ultimately show ?thesis
      using v w u rd(2) assms(2) ys zs by auto
  qed
qed

section \<open>The loops\<close>

lemma get_next_chain:
  "chain (entry_nexts (ventries m)) (e # xs) n \<Longrightarrow> vreader_list_get_next (Some e) m = Some (start xs n)"
  by (simp add: entry_nexts_def)

text \<open>The lookups return a reference to the first reader that matches, and leave everything else as
  it was. The test does not look at the reference count.\<close>

lemma find_reader_loop_correct:
  assumes "chain (entry_nexts (ventries m)) xs None" and "map (entry_reader (ventries m)) xs = map Some rs"
    and "\<forall>r \<in> set rs. \<exists>reader. vreaders m r = Some reader \<and> 0 < rd_reference_count reader \<and>
      test reader \<noteq> None"
    and "\<And>reader n. test (reader\<lparr>rd_reference_count := n\<rparr>) = test reader"
  shows "find_reader_loop test (start xs None) m =
    (case find (\<lambda>r. test (the (vreaders m r)) = Some True) rs of
       None \<Rightarrow> Some (None, m)
     | Some r \<Rightarrow> vreader_reference (Some r) m)"
  using assms(1-3)
proof (induction xs arbitrary: rs)
  case Nil
  then show ?case by (simp add: find_reader_loop.simps)
next
  case (Cons e xs)
  then obtain r ps where rs: "rs = r # ps" by (cases rs) auto
  obtain v where v: "ventries m e = Some v" "en_reader v = Some r"
    using Cons.prems(2) rs by (auto simp: entry_reader_def bind_eq_Some_conv)
  obtain reader b where reader: "vreaders m r = Some reader" "0 < rd_reference_count reader"
      and b: "test reader = Some b"
    using Cons.prems(3) rs by auto
  let ?r = "reader\<lparr>rd_reference_count := rd_reference_count reader + 1\<rparr>"
  let ?m = "m\<lparr>vreaders := (vreaders m)(r \<mapsto> ?r)\<rparr>"
  have ref: "vreader_reference (Some r) m = Some (Some r, ?m)"
    using reader by (simp add: vreader_reference.simps)
  have "vreader_free (Some r) ?m = Some m" by (rule vreader_reference_free [OF ref reader])
  moreover have "vreader_list_get_next (Some e) m = Some (start xs None)"
    using Cons.prems(1) by (rule get_next_chain)
  moreover have "find_reader_loop test (start xs None) m =
    (case find (\<lambda>r. test (the (vreaders m r)) = Some True) ps of
       None \<Rightarrow> Some (None, m) | Some r \<Rightarrow> vreader_reference (Some r) m)"
    using Cons rs by simp
  moreover have "test ?r = test reader" by (rule assms(4))
  ultimately show ?case
    using v ref reader b rs by (subst find_reader_loop.simps) simp
qed

lemma find_entry_loop_correct:
  assumes "chain (entry_nexts (ventries m)) xs None" and "map (entry_reader (ventries m)) xs = map Some rs"
  shows "find_entry_loop (Some r) (start xs None) m =
    Some (if r \<in> set rs then Some (xs ! length (takeWhile (\<lambda>p. p \<noteq> r) rs)) else None)"
  using assms
proof (induction xs arbitrary: rs)
  case Nil
  then show ?case by (simp add: find_entry_loop.simps)
next
  case (Cons e xs)
  then obtain p ps where rs: "rs = p # ps" by (cases rs) auto
  obtain v where v: "ventries m e = Some v" "en_reader v = Some p"
    using Cons.prems(2) rs by (auto simp: entry_reader_def bind_eq_Some_conv)
  have "en_next v = start xs None" using Cons.prems(1) v by (simp add: entry_nexts_def)
  then show ?case
    using Cons v rs by (subst find_entry_loop.simps) auto
qed

section \<open>Reference counts\<close>

definition same_events :: "'c memory \<Rightarrow> 'c memory \<Rightarrow> bool" where
  "same_events m m' \<longleftrightarrow> vevents m' = vevents m \<and> vevent_queue_head m' = vevent_queue_head m \<and>
     vevent_queue_tail m' = vevent_queue_tail m \<and> vreader_list m' = vreader_list m"

lemma same_events_trans: "same_events m m' \<Longrightarrow> same_events m' m'' \<Longrightarrow> same_events m m''"
  by (simp add: same_events_def)

lemma same_events_queue: "same_events m m' \<Longrightarrow> event_queue m' es = event_queue m es"
  by (simp add: same_events_def event_queue_def)

lemma counted_links:
  assumes "counted m HR HC" and "\<And>x. map_option en_reader (N x) = map_option en_reader (ventries m x)"
    and "dom L \<subseteq> dom (vlists m)"
  shows "counted (m\<lparr>ventries := N, vlists := L\<rparr>) HR HC"
proof -
  have dom: "N a = None \<longleftrightarrow> ventries m a = None" for a
    using assms(2) [of a] by (metis map_option_is_None)
  then have "dom N = dom (ventries m)" by (simp add: dom_def)
  then show ?thesis
    using assms(1,3) refs_cong [of en_reader N "ventries m", OF assms(2)] dom
    by (auto simp: counted_def reader_refs_def card_refs_def domIff subset_iff)
qed

lemma entry_new_ok:
  assumes "counted m HR HC" and "r \<in># reader_refs m + HR"
  shows "\<exists>m'. vreader_list_entry_new (Some r) m = Some (next_address m, m') \<and> counted m' HR HC \<and>
    ventries m' = (ventries m)(next_address m \<mapsto> \<lparr>en_next = None, en_prev = None, en_reader = Some r\<rparr>) \<and>
    vlists m' = vlists m \<and> same_events m m' \<and> reader_at m' = reader_at m \<and> card_refs m' = card_refs m"
proof -
  let ?m0 = "m\<lparr>next_address := next_address m + 1\<rparr>"
  have new: "ventries m (next_address m) = None" using countedD(7) [OF assms(1)] by simp
  have m0: "counted ?m0 HR HC" "reader_refs ?m0 = reader_refs m" "card_refs ?m0 = card_refs m"
    using assms(1) by (simp_all add: counted_def reader_refs_def card_refs_def)
  obtain m1 reader where m1: "vreader_reference (Some r) ?m0 = Some (Some r, m1)"
      "counted m1 (add_mset r HR) HC" "same_links ?m0 m1" "card_refs m1 = card_refs ?m0"
      "vreaders m r = Some reader"
      "vreaders m1 = (vreaders m)(r \<mapsto> reader\<lparr>rd_reference_count := rd_reference_count reader + 1\<rparr>)"
    using vreader_reference_ok [OF m0(1), of r] assms(2) m0(2) by auto
  let ?v = "\<lparr>en_next = None, en_prev = None, en_reader = Some r\<rparr>"
  let ?m2 = "m1\<lparr>ventries := (ventries m1)(next_address m \<mapsto> ?v)\<rparr>"
  have en: "ventries m1 = ventries m" "next_address m1 = next_address m + 1"
    using m1(3) by (simp_all add: same_links_def)
  have "counted ?m2 HR HC"
    using m1(2) en new refs_new [OF countedD(4) [OF assms(1)] new, of en_reader ?v]
    by (auto simp: counted_def reader_refs_def card_refs_def ac_simps)
  moreover have "card_refs ?m2 = card_refs m" using m1(4) m0(3) by (simp add: card_refs_def)
  moreover have "reader_at ?m2 = reader_at m"
    using reader_at_reference [OF m1(5), of m1] m1(6) by (simp add: reader_at_def fun_eq_iff)
  ultimately show ?thesis
    using m1(1,3) en by (simp add: vreader_list_entry_new_def Let_def same_links_def same_events_def)
qed

lemma entry_delete_ok:
  assumes "counted m HR HC" and "ventries m e = Some v" and "en_reader v = Some r"
  shows "\<exists>m'. vreader_list_entry_delete (Some e) m = Some m' \<and> counted m' HR HC \<and>
    ventries m' = (ventries m)(e := None) \<and> vlists m' = vlists m \<and> same_events m m' \<and> readers_kept m m'"
proof -
  let ?d = "m\<lparr>ventries := (ventries m)(e := None)\<rparr>"
  have d: "counted ?d (add_mset r HR) HC"
    using assms refs_delete [OF countedD(4) [OF assms(1)] assms(2), of en_reader]
    by (auto simp: counted_def reader_refs_def card_refs_def)
  obtain m1 where m1: "vreader_free (Some r) ?d = Some m1" "counted m1 HR HC" "same_links ?d m1"
      "readers_kept ?d m1"
    using vreader_free_ok [OF d] by blast
  obtain n where n: "vreader_free (Some r) m = Some n" "m1 = n\<lparr>ventries := (ventries m)(e := None)\<rparr>"
    using m1(1) unfolding counting_ventries by auto
  have "ventries n = ventries m" using vreader_free_links [OF n(1)] by (simp add: same_links_def)
  then have "vreader_list_entry_delete (Some e) m = Some m1" using assms n by simp
  then show ?thesis
    using m1 by (auto simp: same_links_def same_events_def readers_kept_def reader_at_def)
qed

lemma entry_reader_cong: "(\<And>x. x \<in> set xs \<Longrightarrow> N x = M x) \<Longrightarrow> map (entry_reader N) xs = map (entry_reader M) xs"
  by (simp add: entry_reader_def)

lemma entry_chain_cong:
  "(\<And>x. x \<in> set xs \<Longrightarrow> N x = M x) \<Longrightarrow> chain (entry_nexts N) xs n = chain (entry_nexts M) xs n"
  "(\<And>x. x \<in> set xs \<Longrightarrow> N x = M x) \<Longrightarrow> chain (entry_prevs N) xs n = chain (entry_prevs M) xs n"
  by (rule chain_cong, simp add: entry_nexts_def entry_prevs_def)+

lemma entry_at_chain:
  assumes "map (entry_reader N) xs = map Some rs" and "x \<in> set xs"
  shows "N x \<noteq> None"
proof -
  have "entry_reader N x \<in> set (map Some rs)" using assms by (metis image_eqI list.set_map)
  then show ?thesis by (auto simp: entry_reader_def bind_eq_Some_conv)
qed

lemma entry_of_reader:
  assumes "map (entry_reader N) xs = map Some rs" and "r \<in> set rs"
  obtains x v where "x \<in> set xs" and "N x = Some v" and "en_reader v = Some r"
proof -
  have "Some r \<in> set (map (entry_reader N) xs)" using assms by simp
  then obtain x where "x \<in> set xs" "entry_reader N x = Some r" by (metis imageE image_set)
  then show ?thesis using that by (auto simp: entry_reader_def bind_eq_Some_conv)
qed

lemma list_delete_loop_ok:
  assumes "counted m HR HC" and "chain (entry_nexts (ventries m)) xs None"
    and "map (entry_reader (ventries m)) xs = map Some rs" and "distinct xs"
  shows "\<exists>m'. list_delete_loop (start xs None) m = Some m' \<and> counted m' HR HC \<and>
    ventries m' = ventries m |` (- set xs) \<and> vlists m' = vlists m \<and> same_events m m' \<and> readers_kept m m'"
  using assms
proof (induction xs arbitrary: m rs)
  case Nil
  then show ?case by (simp add: list_delete_loop.simps same_events_def readers_kept_def)
next
  case (Cons e xs)
  then obtain r ps where rs: "rs = r # ps" by (cases rs) auto
  obtain v where v: "ventries m e = Some v" "en_reader v = Some r"
    using Cons.prems(3) rs by (auto simp: entry_reader_def bind_eq_Some_conv)
  obtain m1 where m1: "vreader_list_entry_delete (Some e) m = Some m1" "counted m1 HR HC"
      "ventries m1 = (ventries m)(e := None)" "vlists m1 = vlists m" "same_events m m1" "readers_kept m m1"
    using entry_delete_ok [OF Cons.prems(1) v] by blast
  have step: "chain (entry_nexts (ventries m1)) xs None" "map (entry_reader (ventries m1)) xs = map Some ps"
      "distinct xs"
    using Cons.prems m1(3) rs by simp_all
  obtain m2 where m2: "list_delete_loop (start xs None) m1 = Some m2" "counted m2 HR HC"
      "ventries m2 = ventries m1 |` (- set xs)" "vlists m2 = vlists m1" "same_events m1 m2" "readers_kept m1 m2"
    using Cons.IH [OF m1(2) step] by blast
  have "list_delete_loop (start (e # xs) None) m = Some m2"
    using get_next_chain [OF Cons.prems(2)] m1(1) m2(1)
    by (subst list_delete_loop.simps)
      (simp del: vreader_list_get_next.simps vreader_list_entry_delete.simps)
  moreover have "ventries m2 = ventries m |` (- set (e # xs))"
    using m1(3) m2(3) by (auto simp: restrict_map_def fun_eq_iff)
  ultimately show ?case
    using m1 m2 same_events_trans readers_kept_trans by metis
qed

lemma copy_list_loop_ok:
  assumes "counted m HR HC" and "chain (entry_nexts (ventries m)) xs None"
    and "map (entry_reader (ventries m)) xs = map Some rs" and "list_at m l ys qs" and "set xs \<inter> set ys = {}"
  shows "\<exists>m' zs. copy_list_loop l (start xs None) m = Some m' \<and> counted m' HR HC \<and>
    list_at m' l (ys @ zs) (qs @ rs) \<and> set zs \<inter> dom (ventries m) = {} \<and>
    (\<forall>a \<in> dom (ventries m) - set ys. ventries m' a = ventries m a) \<and> (\<forall>k. k \<noteq> l \<longrightarrow> vlists m' k = vlists m k) \<and>
    same_events m m' \<and> readers_kept m m' \<and> dom (ventries m') = dom (ventries m) \<union> set zs"
  using assms
proof (induction xs arbitrary: m ys qs rs)
  case Nil
  then show ?case
    by (intro exI [of _ m] exI [of _ "[]"])
      (simp add: copy_list_loop.simps same_events_def readers_kept_def)
next
  case (Cons e xs)
  then obtain r ps where rs: "rs = r # ps" by (cases rs) auto
  obtain v where v: "ventries m e = Some v" "en_reader v = Some r"
    using Cons.prems(3) rs by (auto simp: entry_reader_def bind_eq_Some_conv)
  let ?n = "next_address m"
  have fresh: "ventries m ?n = None" using countedD(7) [OF Cons.prems(1)] by simp
  then have ne: "?n \<noteq> e" "?n \<notin> set ys" "?n \<notin> set xs"
    using v(1) Cons.prems(3) entry_at_chain [of "ventries m" "e # xs" rs ?n]
      entry_at_chain [of "ventries m" ys qs ?n] Cons.prems(4)
    by (auto simp: list_at_def entries_ok_def)
  have "r \<in># reader_refs m + HR"
    using refs_in [of "ventries m" e v en_reader r] countedD(4) [OF Cons.prems(1)] v by (simp add: reader_refs_def)
  then obtain m1 where m1: "vreader_reference (Some r) m = Some (Some r, m1)" "counted m1 (add_mset r HR) HC"
      "same_links m m1" "reader_at m1 = reader_at m"
    using vreader_reference_ok [OF Cons.prems(1)] reader_at_reference by metis
  obtain m2 where m2: "vreader_list_entry_new (Some r) m1 = Some (?n, m2)" "counted m2 (add_mset r HR) HC"
      "ventries m2 = (ventries m)(?n \<mapsto> \<lparr>en_next = None, en_prev = None, en_reader = Some r\<rparr>)"
      "vlists m2 = vlists m" "same_events m m2" "reader_at m2 = reader_at m"
    using entry_new_ok [OF m1(2), of r] m1(3,4) by (auto simp: same_links_def same_events_def)
  obtain m3 where m3: "vreader_free (Some r) m2 = Some m3" "counted m3 HR HC" "same_links m2 m3" "readers_kept m2 m3"
    using vreader_free_ok [OF m2(2)] by blast
  have "list_at m3 l ys qs"
    using Cons.prems(4) m2(3,4) m3(3) ne(2) by (simp add: list_at_def same_links_def entries_ok_upd)
  from queue_correct [OF this ne(2), of "\<lparr>en_next = None, en_prev = None, en_reader = Some r\<rparr>" r]
  obtain N where N: "vreader_queue (Some l) (Some ?n) m3 = Some (m3\<lparr>ventries := N, vlists := (vlists m3)(l \<mapsto>
        \<lparr>li_head = start (ys @ [?n]) None, li_tail = Some ?n\<rparr>)\<rparr>)"
      "entries_ok N (ys @ [?n]) (qs @ [r])" "\<forall>x. x \<notin> set (ys @ [?n]) \<longrightarrow> N x = ventries m3 x"
      "\<forall>x. map_option en_reader (N x) = map_option en_reader (ventries m3 x)"
    using m2(3) m3(3) by (auto simp: same_links_def)
  define m4 where "m4 = m3\<lparr>ventries := N, vlists := (vlists m3)(l \<mapsto>
        \<lparr>li_head = start (ys @ [?n]) None, li_tail = Some ?n\<rparr>)\<rparr>"
  have "l \<in> dom (vlists m3)"
    using Cons.prems(4) m2(4) m3(3) by (auto simp: list_at_def same_links_def)
  then have m4: "counted m4 HR HC"
    unfolding m4_def using N(4) by (intro counted_links [OF m3(2)]) auto
  have m4_list: "list_at m4 l (ys @ [?n]) (qs @ [r])"
    using N(2) by (simp add: m4_def list_at_def)
  have m4_frame: "\<forall>x. x \<notin> set (ys @ [?n]) \<longrightarrow> ventries m4 x = ventries m x"
      "\<forall>k. k \<noteq> l \<longrightarrow> vlists m4 k = vlists m k" "same_events m m4"
    using N(3) m2(3-5) m3(3) by (simp_all add: m4_def same_links_def same_events_def)
  have "readers_kept m3 m4" by (simp add: m4_def readers_kept_def reader_at_def)
  then have m4_kept: "readers_kept m m4"
    using m2(6) m3(4) readers_kept_trans readers_keptI by metis
  have xs_same: "ventries m4 x = ventries m x" if "x \<in> set (e # xs)" for x
  proof -
    have "x \<noteq> ?n" using that ne by auto
    moreover have "x \<notin> set ys" using that Cons.prems(5) by auto
    ultimately show ?thesis using m4_frame(1) by simp
  qed
  have step: "chain (entry_nexts (ventries m4)) xs None" "map (entry_reader (ventries m4)) xs = map Some ps"
      "set xs \<inter> set (ys @ [?n]) = {}"
    using Cons.prems(2,3,5) rs ne(3) entry_chain_cong(1) [of xs "ventries m4" "ventries m"]
      entry_reader_cong [of xs "ventries m4" "ventries m"] xs_same by auto
  obtain m5 zs where m5: "copy_list_loop l (start xs None) m4 = Some m5" "counted m5 HR HC"
      "list_at m5 l ((ys @ [?n]) @ zs) ((qs @ [r]) @ ps)" "set zs \<inter> dom (ventries m4) = {}"
      "\<forall>a \<in> dom (ventries m4) - set (ys @ [?n]). ventries m5 a = ventries m4 a"
      "\<forall>k. k \<noteq> l \<longrightarrow> vlists m5 k = vlists m4 k" "same_events m4 m5" "readers_kept m4 m5"
      "dom (ventries m5) = dom (ventries m4) \<union> set zs"
    using Cons.IH [OF m4 step(1,2) m4_list step(3)] by blast
  have dom4: "dom (ventries m4) = insert ?n (dom (ventries m))"
  proof -
    have "dom N = dom (ventries m3)"
      using N(4) by (metis (no_types, lifting) domIff map_option_is_None subsetI subset_antisym)
    then show ?thesis using m2(3) m3(3) by (simp add: m4_def same_links_def)
  qed
  have "vreader_list_get_next (Some e) m4 = Some (start xs None)"
    using get_next_chain [OF Cons.prems(2)] xs_same by simp
  then have "copy_list_loop l (start (e # xs) None) m = Some m5"
    using v m1(1) m2(1) m3(1) N(1) [folded m4_def] m5(1)
    by (subst copy_list_loop.simps) (simp del: vreader_list_get_next.simps vreader_queue.simps)
  moreover have "set (?n # zs) \<inter> dom (ventries m) = {}" using m5(4) dom4 fresh by auto
  moreover have "\<forall>a \<in> dom (ventries m) - set ys. ventries m5 a = ventries m a"
  proof
    fix a assume a: "a \<in> dom (ventries m) - set ys"
    then have "a \<notin> set (ys @ [?n])" using fresh by auto
    moreover from this have "ventries m4 a = ventries m a" using m4_frame(1) by blast
    ultimately show "ventries m5 a = ventries m a" using m5(5) a by (metis DiffD1 DiffI domIff)
  qed
  moreover have "same_events m m5" using same_events_trans m4_frame(3) m5(7) .
  moreover have "readers_kept m m5" using readers_kept_trans m4_kept m5(8) .
  moreover have "\<forall>k. k \<noteq> l \<longrightarrow> vlists m5 k = vlists m k" using m5(6) m4_frame(2) by simp
  moreover have "list_at m5 l (ys @ ?n # zs) (qs @ rs)" using m5(3) rs by simp
  moreover have "dom (ventries m5) = dom (ventries m) \<union> set (?n # zs)" using m5(9) dom4 by simp
  ultimately show ?case using m5(2) by blast
qed

end
