(* ===== verification/Reader_System.thy ===== *)
theory Reader_System
  imports Reader_List
begin

text \<open>
  Readers and events together. The invariant \<open>system m HR HC HE NE evs rs\<close> describes the library as its
  clients see it: which references callers hold, which events are pending, which readers there
  are. Each operation of \<open>src/vreader.c\<close> and \<open>src/event.c\<close> succeeds under it and has the effect it
  promises. Programs that keep the rules of reference counting are sequences of \<open>client_call\<close>, and
  \<open>client_reaches\<close> are the states they come to.
\<close>


section \<open>The system of readers and events\<close>

text \<open>An event without its link.\<close>

definition event_at :: "'c memory \<Rightarrow> nat \<Rightarrow> (VEventType \<times> nat option \<times> nat option) option" where
  "event_at m e = map_option (\<lambda>v. (ev_type v, ev_reader v, ev_card v)) (vevents m e)"

lemma set_next_event_at: "vevent_set_next e n m = Some m' \<Longrightarrow> event_at m' = event_at m"
  by (auto simp: vevent_set_next_def event_at_def fun_eq_iff split: bind_splits)

lemma queue_vevent_event_at: "vevent_queue_vevent e m = Some m' \<Longrightarrow> event_at m' = event_at m"
  by (auto simp: vevent_queue_vevent_def split: bind_splits if_splits dest!: set_next_event_at)
    (simp_all add: event_at_def fun_eq_iff)

lemma dequeue_vevent_event_at: "vevent_dequeue_vevent m = Some (e, m') \<Longrightarrow> event_at m' = event_at m"
  by (auto simp: vevent_dequeue_vevent_def split: bind_splits option.splits dest!: set_next_event_at)
    (simp_all add: event_at_def fun_eq_iff)

text \<open>Posting an event: every \<open>vevent_queue_vevent (vevent_new \<dots>)\<close> of the source.\<close>

lemma post_ok:
  assumes "counted m HR HC" and "r \<in># reader_refs m + HR"
    and "set_option c \<subseteq> set_mset (card_refs m + HC)" and "event_queue m es"
  shows "\<exists>m1 m' e. vevent_new type (Some r) c m = Some (e, m1) \<and> vevent_queue_vevent e m1 = Some m' \<and>
    counted m' HR HC \<and> same_lists m m' \<and> event_queue m' (es @ [e]) \<and> vevents m e = None \<and>
    event_at m' = (event_at m)(e \<mapsto> (type, Some r, c)) \<and> reader_at m' = reader_at m"
proof -
  let ?e = "next_address m"
  let ?v = "\<lparr>ev_next = None, ev_type = type, ev_reader = Some r, ev_card = c\<rparr>"
  obtain m1 where m1: "vevent_new type (Some r) c m = Some (?e, m1)" "counted m1 HR HC"
      "same_lists m m1" "event_queue m1 es" "reader_at m1 = reader_at m"
      "vevents m1 = (vevents m)(?e \<mapsto> ?v)"
    using vevent_new_ok [OF assms] by blast
  have fresh: "vevents m ?e = None" using countedD(7) [OF assms(1)] by simp
  then have "?e \<notin> set es" using event_queue_in [OF assms(4), of ?e] by auto
  then obtain m2 where m2: "vevent_queue_vevent ?e m1 = Some m2" "event_queue m2 (es @ [?e])"
    using queue_vevent_correct [OF m1(4), of ?e ?v] m1(6) by auto
  note q = queue_vevent_counted [OF m1(2) m2(1)]
  have "event_at m2 = (event_at m)(?e \<mapsto> (type, Some r, c))"
    using queue_vevent_event_at [OF m2(1)] m1(6) by (auto simp: event_at_def fun_eq_iff)
  moreover have "reader_at m2 = reader_at m" using m1(5) q by (simp add: reader_at_def fun_eq_iff)
  moreover have "same_lists m m2" using m1(3) q same_lists_trans by blast
  ultimately show ?thesis using m1(1) m2 q fresh by blast
qed

text \<open>\<open>system m HR HC HE NE evs rs\<close>: reference counts are right, with the references \<open>HR\<close> and \<open>HC\<close> held
  by callers; the events \<open>evs\<close> are pending in this order, those at \<open>HE\<close> have been taken from
  the queue; the list of readers is \<open>rs\<close>.\<close>

definition system_at :: "'c memory \<Rightarrow> nat multiset \<Rightarrow> nat multiset \<Rightarrow> nat set \<Rightarrow> nat set \<Rightarrow> nat list \<Rightarrow>
    (VEventType \<times> nat option \<times> nat option) list \<Rightarrow> nat \<Rightarrow> nat list \<Rightarrow> nat list \<Rightarrow> bool" where
  "system_at m HR HC HE NE es evs l xs rs \<longleftrightarrow> counted m HR HC \<and> event_queue m es \<and>
     map (event_at m) es = map Some evs \<and> HE = dom (vevents m) - set es \<and>
     NE = dom (ventries m) - set xs \<and> vreader_list m = Some l \<and> list_at m l xs rs"

definition system :: "'c memory \<Rightarrow> nat multiset \<Rightarrow> nat multiset \<Rightarrow> nat set \<Rightarrow> nat set \<Rightarrow>
    (VEventType \<times> nat option \<times> nat option) list \<Rightarrow> nat list \<Rightarrow> bool" where
  "system m HR HC HE NE evs rs \<longleftrightarrow> (\<exists>es l xs. system_at m HR HC HE NE es evs l xs rs)"

lemma system_atD:
  assumes "system_at m HR HC HE NE es evs l xs rs"
  shows "counted m HR HC" and "event_queue m es" and "map (event_at m) es = map Some evs"
    and "HE = dom (vevents m) - set es" and "vreader_list m = Some l" and "list_at m l xs rs"
    and "NE = dom (ventries m) - set xs"
  using assms by (auto simp: system_at_def)

lemma event_at_upd_other:
  assumes "event_at m' = (event_at m)(e := v)" and "vevents m e = None"
    and "map (event_at m) es = map Some evs"
  shows "map (event_at m') es = map Some evs"
proof -
  have "event_at m e = None" using assms(2) by (simp add: event_at_def)
  then have "e \<notin> set es" using assms(3) by (metis image_eqI list.set_map option.distinct(1) imageE)
  then show ?thesis using assms(1,3) by simp
qed

lemma event_at_None: "event_at m e = None \<longleftrightarrow> vevents m e = None"
  by (simp add: event_at_def)

lemma system_post:
  assumes "system_at m HR HC HE NE es evs l xs rs" and "r \<in># reader_refs m + HR"
    and "set_option c \<subseteq> set_mset (card_refs m + HC)"
  shows "\<exists>m1 m' e. vevent_new type (Some r) c m = Some (e, m1) \<and> vevent_queue_vevent e m1 = Some m' \<and>
    system_at m' HR HC HE NE (es @ [e]) (evs @ [(type, Some r, c)]) l xs rs \<and> reader_at m' = reader_at m \<and>
    same_lists m m'"
proof -
  note sys = system_atD [OF assms(1)]
  obtain m1 m' e where post: "vevent_new type (Some r) c m = Some (e, m1)" "vevent_queue_vevent e m1 = Some m'"
      "counted m' HR HC" "same_lists m m'" "event_queue m' (es @ [e])" "vevents m e = None"
      "event_at m' = (event_at m)(e \<mapsto> (type, Some r, c))" "reader_at m' = reader_at m"
    using post_ok [OF sys(1) assms(2,3) sys(2)] by blast
  have "map (event_at m') es = map Some evs" by (rule event_at_upd_other [OF post(7,6) sys(3)])
  moreover have "HE = dom (vevents m') - set (es @ [e])"
  proof -
    have "dom (event_at m') = insert e (dom (event_at m))" using post(7) by simp
    moreover have "dom (event_at m'') = dom (vevents m'')" for m'' :: "'a memory"
      by (simp add: event_at_def dom_def)
    ultimately show ?thesis using sys(4) post(6) by auto
  qed
  ultimately have "system_at m' HR HC HE NE (es @ [e]) (evs @ [(type, Some r, c)]) l xs rs"
    using post sys(5,6,7) by (simp add: system_at_def same_lists_def list_at_def)
  then show ?thesis using post by blast
qed

lemma same_events_event_at: "same_events m m' \<Longrightarrow> event_at m' = event_at m"
  by (simp add: same_events_def event_at_def fun_eq_iff)

lemma system_keep:
  assumes "system_at m HR HC HE NE es evs l xs rs" and "same_events m m'"
    and "counted m' HR' HC'" and "list_at m' l xs' rs'" and "NE' = dom (ventries m') - set xs'"
  shows "system_at m' HR' HC' HE NE' es evs l xs' rs'"
  using assms same_events_event_at [OF assms(2)] same_events_queue [OF assms(2)]
  by (simp add: system_at_def same_events_def)

lemma entry_dom:
  assumes "\<And>x. map_option en_reader (N x) = map_option en_reader (M x)"
  shows "dom N = dom M"
proof -
  have "N x = None \<longleftrightarrow> M x = None" for x
    using assms [of x] by (cases "N x"; cases "M x") simp_all
  then show ?thesis by (simp add: dom_def)
qed

lemma add_reader_ok:
  assumes "system m HR HC HE NE evs rs" and "r \<in># HR"
  shows "\<exists>m'. vreader_add_reader (Some r) m = Some (VREADER_OK, m') \<and> reader_at m' = reader_at m \<and>
    system m' HR HC HE NE (evs @ [(VEVENT_READER_INSERT, Some r, None)]) (rs @ [r])"
proof -
  obtain es l xs where sys: "system_at m HR HC HE NE es evs l xs rs" using assms(1) by (auto simp: system_def)
  note s = system_atD [OF sys]
  let ?n = "next_address m" and ?v = "\<lparr>en_next = None, en_prev = None, en_reader = Some r\<rparr>"
  obtain m1 where m1: "vreader_list_entry_new (Some r) m = Some (?n, m1)" "counted m1 HR HC"
      "ventries m1 = (ventries m)(?n \<mapsto> ?v)" "vlists m1 = vlists m" "same_events m m1"
      "reader_at m1 = reader_at m"
    using entry_new_ok [OF s(1), of r] assms(2) by auto
  have "?n \<notin> set xs"
    using countedD(7) [OF s(1)] entries_ok_in [of "ventries m" xs rs ?n] s(6) by (auto simp: list_at_def)
  moreover from this have "list_at m1 l xs rs"
    using s(6) m1(3,4) by (simp add: list_at_def entries_ok_upd)
  ultimately obtain N where N: "vreader_queue (Some l) (Some ?n) m1 =
      Some (m1\<lparr>ventries := N, vlists := (vlists m1)(l \<mapsto>
        \<lparr>li_head = start (xs @ [?n]) None, li_tail = Some ?n\<rparr>)\<rparr>)"
      "entries_ok N (xs @ [?n]) (rs @ [r])"
      "\<forall>x. map_option en_reader (N x) = map_option en_reader (ventries m1 x)"
    using queue_correct [of m1 l xs rs ?n ?v r] m1(3) by auto
  define m2 where "m2 = m1\<lparr>ventries := N, vlists := (vlists m1)(l \<mapsto>
        \<lparr>li_head = start (xs @ [?n]) None, li_tail = Some ?n\<rparr>)\<rparr>"
  have "counted m2 HR HC"
    unfolding m2_def using N(3) s(6) m1(4) by (intro counted_links [OF m1(2)]) (auto simp: list_at_def)
  moreover have "list_at m2 l (xs @ [?n]) (rs @ [r])" using N(2) by (simp add: m2_def list_at_def)
  moreover have "same_events m m2" using m1(5) by (simp add: m2_def same_events_def)
  moreover have "NE = dom (ventries m2) - set (xs @ [?n])"
  proof -
    have "dom (ventries m2) = insert ?n (dom (ventries m))"
      using entry_dom [of N "ventries m1"] N(3) m1(3) by (simp add: m2_def)
    moreover have "?n \<notin> dom (ventries m)" using countedD(7) [OF s(1)] by auto
    ultimately show ?thesis using s(7) by auto
  qed
  ultimately have sys2: "system_at m2 HR HC HE NE es evs l (xs @ [?n]) (rs @ [r])"
    using system_keep [OF sys] by blast
  obtain m3 m4 e where post: "vevent_new VEVENT_READER_INSERT (Some r) None m2 = Some (e, m3)"
      "vevent_queue_vevent e m3 = Some m4" "reader_at m4 = reader_at m2"
      "system_at m4 HR HC HE NE (es @ [e]) (evs @ [(VEVENT_READER_INSERT, Some r, None)]) l (xs @ [?n]) (rs @ [r])"
    using system_post [OF sys2, of r None VEVENT_READER_INSERT] assms(2) by auto
  have "vreader_list m1 = Some l" using s(5) m1(5) by (simp add: same_events_def)
  then have "vreader_add_reader (Some r) m = Some (VREADER_OK, m4)"
    using m1(1) N(1) [folded m2_def] post(1,2)
    by (simp add: vreader_add_reader_def del: vreader_queue.simps)
  moreover have "reader_at m4 = reader_at m"
    using post(3) m1(6) by (simp add: m2_def reader_at_def fun_eq_iff)
  ultimately show ?thesis using post(4) by (auto simp: system_def)
qed

lemma system_readers:
  assumes "system_at m HR HC HE NE es evs l xs rs" and "counted (m\<lparr>vreaders := R\<rparr>) HR' HC'"
  shows "system_at (m\<lparr>vreaders := R\<rparr>) HR' HC' HE NE es evs l xs rs"
  by (rule system_keep [OF assms(1) _ assms(2)])
    (use system_atD(6,7) [OF assms(1)] in \<open>simp_all add: same_events_def list_at_def\<close>)

lemma system_links:
  assumes "system_at m HR HC HE NE es evs l xs rs" and "same_links m m'" and "counted m' HR' HC'"
  shows "system_at m' HR' HC' HE NE es evs l xs rs"
  by (rule system_keep [OF assms(1) _ assms(3)])
    (use system_atD(6,7) [OF assms(1)] assms(2) in \<open>simp_all add: same_links_def same_events_def list_at_def\<close>)

lemma system_reader_alive:
  assumes "system m HR HC HE NE evs rs" and "r \<in> set rs"
  shows "vreaders m r \<noteq> None"
proof -
  obtain es l xs where sys: "system_at m HR HC HE NE es evs l xs rs" using assms(1) by (auto simp: system_def)
  note s = system_atD [OF sys]
  have "map (entry_reader (ventries m)) xs = map Some rs"
    using s(6) by (simp add: list_at_def entries_ok_def)
  from entry_of_reader [OF this assms(2)] obtain x v where "ventries m x = Some v" "en_reader v = Some r"
    by blast
  then have "r \<in># reader_refs m + HR"
    using refs_in [OF countedD(4) [OF s(1)], of x v en_reader r] by (simp add: reader_refs_def)
  then show ?thesis using count_okD [OF countedD(1) [OF s(1)]] by (metis option.distinct(1))
qed

text \<open>What the lookups promise, in the list of readers or a copy of it: the first reader in the list that
  passes, with a reference for the caller.\<close>

lemma listed_reference:
  assumes "counted m HR HC" and "map (entry_reader (ventries m)) zs = map Some qs" and "r \<in> set qs"
  shows "r \<in># reader_refs m + HR"
proof -
  obtain x v where "x \<in> set zs" "ventries m x = Some v" "en_reader v = Some r"
    using entry_of_reader [OF assms(2,3)] by blast
  then show ?thesis using refs_in [OF countedD(4) [OF assms(1)], of x v en_reader r] by (simp add: reader_refs_def)
qed

lemma list_lookup_eq:
  assumes "counted m HR HC" and "list_at m k zs qs"
    and "\<And>reader n. test (reader\<lparr>rd_reference_count := n\<rparr>) = test reader"
    and "\<forall>r \<in> set qs. test (the (reader_at m r)) \<noteq> None"
  shows "find_reader_loop test (start zs None) m =
    (case find (\<lambda>r. test (the (reader_at m r)) = Some True) qs of
       None \<Rightarrow> Some (None, m) | Some r \<Rightarrow> vreader_reference (Some r) m)"
proof -
  have ch: "chain (entry_nexts (ventries m)) zs None" "map (entry_reader (ventries m)) zs = map Some qs"
    using assms(2) by (auto simp: list_at_def entries_ok_def)
  have live: "\<forall>r \<in> set qs. \<exists>reader. vreaders m r = Some reader \<and> 0 < rd_reference_count reader \<and>
      test reader \<noteq> None"
  proof
    fix r assume r: "r \<in> set qs"
    obtain reader where reader: "vreaders m r = Some reader" "0 < rd_reference_count reader"
      using count_okD [OF countedD(1) [OF assms(1)] listed_reference [OF assms(1) ch(2) r]] by blast
    then have "test reader \<noteq> None" using assms(4) r by (auto simp: reader_at_def assms(3))
    then show "\<exists>reader. vreaders m r = Some reader \<and> 0 < rd_reference_count reader \<and> test reader \<noteq> None"
      using reader by blast
  qed
  have "find (\<lambda>r. test (the (vreaders m r)) = Some True) qs = find (\<lambda>r. test (the (reader_at m r)) = Some True) qs"
    using live assms(3) by (intro find_cong) (auto simp: reader_at_def)
  with find_reader_loop_correct [OF ch live assms(3)] show ?thesis by simp
qed

lemma list_lookup_ok:
  assumes "system_at m HR HC HE NE es evs l xs rs" and "list_at m k zs qs"
    and "\<And>reader n. test (reader\<lparr>rd_reference_count := n\<rparr>) = test reader"
    and "\<forall>r \<in> set qs. test (the (reader_at m r)) \<noteq> None"
  shows "case find (\<lambda>r. test (the (reader_at m r)) = Some True) qs of
       None \<Rightarrow> find_reader_loop test (start zs None) m = Some (None, m)
     | Some r \<Rightarrow> \<exists>m'. find_reader_loop test (start zs None) m = Some (Some r, m') \<and>
         reader_at m' = reader_at m \<and> same_links m m' \<and>
         system_at m' (add_mset r HR) HC HE NE es evs l xs rs"
proof -
  note s = system_atD [OF assms(1)]
  note loop = list_lookup_eq [OF s(1) assms(2-4)]
  show ?thesis
  proof (cases "find (\<lambda>r. test (the (reader_at m r)) = Some True) qs")
    case None
    then show ?thesis using loop by simp
  next
    case (Some r)
    then have "r \<in> set qs" by (auto simp: find_Some_iff)
    then have "r \<in># reader_refs m + HR"
      using assms(2) by (intro listed_reference [OF s(1), of zs qs]) (simp_all add: list_at_def entries_ok_def)
    then obtain m' where m': "vreader_reference (Some r) m = Some (Some r, m')" "counted m' (add_mset r HR) HC"
        "same_links m m'" "reader_at m' = reader_at m"
      using vreader_reference_ok [OF s(1)] reader_at_reference by metis
    then show ?thesis using loop Some system_links [OF assms(1) m'(3,2)] by simp
  qed
qed

lemma lookup_ok:
  assumes "system m HR HC HE NE evs rs" and "\<And>reader n. test (reader\<lparr>rd_reference_count := n\<rparr>) = test reader"
    and "\<forall>r \<in> set rs. test (the (reader_at m r)) \<noteq> None"
  shows "\<exists>cur. vreader_list_get_first (vreader_list m) m = Some cur \<and>
    (case find (\<lambda>r. test (the (reader_at m r)) = Some True) rs of
       None \<Rightarrow> find_reader_loop test cur m = Some (None, m)
     | Some r \<Rightarrow> \<exists>m'. find_reader_loop test cur m = Some (Some r, m') \<and> reader_at m' = reader_at m \<and>
         system m' (add_mset r HR) HC HE NE evs rs)"
proof -
  obtain es l xs where sys: "system_at m HR HC HE NE es evs l xs rs" using assms(1) by (auto simp: system_def)
  have "vreader_list_get_first (vreader_list m) m = Some (start xs None)"
    using system_atD(5,6) [OF sys] by (simp add: list_at_def)
  with list_lookup_ok [OF sys system_atD(6) [OF sys] assms(2,3)] show ?thesis
    unfolding system_def by (auto split: option.splits)
qed

lemma queue_card_event_ok:
  assumes "system_at m HR HC HE NE es evs l xs rs" and "r \<in># HR" and "vreaders m r = Some v"
  shows "\<exists>m' e. vreader_queue_card_event (Some r) m = Some m' \<and> reader_at m' = reader_at m \<and>
    system_at m' HR HC HE NE (es @ [e]) (evs @ [(if rd_card v \<noteq> None then VEVENT_CARD_INSERT
      else VEVENT_CARD_REMOVE, Some r, rd_card v)]) l xs rs \<and> same_lists m m'"
proof -
  have "set_option (rd_card v) \<subseteq> set_mset (card_refs m + HC)"
    using refs_in [OF countedD(5) [OF system_atD(1) [OF assms(1)]] assms(3), of rd_card]
    by (cases "rd_card v") (auto simp: card_refs_def)
  with assms(2) system_post [OF assms(1), of r "rd_card v"]
  obtain m1 m' e where post: "vevent_new (if rd_card v \<noteq> None then VEVENT_CARD_INSERT
        else VEVENT_CARD_REMOVE) (Some r) (rd_card v) m = Some (e, m1)"
      "vevent_queue_vevent e m1 = Some m'" "reader_at m' = reader_at m"
      "system_at m' HR HC HE NE (es @ [e]) (evs @ [(if rd_card v \<noteq> None then VEVENT_CARD_INSERT
        else VEVENT_CARD_REMOVE, Some r, rd_card v)]) l xs rs" "same_lists m m'"
    by (metis union_iff)
  then have "vreader_queue_card_event (Some r) m = Some m'"
    using assms(3) by (simp add: vreader_queue_card_event_def)
  then show ?thesis using post by blast
qed

text \<open>Removing the card of a reader.\<close>

lemma eject_ok:
  assumes "system_at m HR HC HE NE es evs l xs rs" and "vreaders m r = Some v"
  shows "\<exists>m'. (if rd_card v \<noteq> None then do { m \<leftarrow> vcard_free (rd_card v) m; set_reader_card r None m }
      else Some m) = Some m' \<and> system_at m' HR HC HE NE es evs l xs rs \<and>
    vreaders m' = (vreaders m)(r \<mapsto> v\<lparr>rd_card := None\<rparr>)"
proof (cases "rd_card v")
  case None
  then show ?thesis using assms by (auto simp: fun_upd_idem)
next
  case (Some d)
  let ?m = "m\<lparr>vreaders := (vreaders m)(r \<mapsto> v\<lparr>rd_card := None\<rparr>)\<rparr>"
  have "counted ?m HR (add_mset d HC)"
    using Some by (intro counted_reader_upd [OF system_atD(1) [OF assms(1)] assms(2)])
      (simp_all add: saved_card_def)
  from vcard_free_ok [OF this] obtain m2 where m2: "vcard_free (Some d) ?m = Some m2" "counted m2 HR HC"
      "same_links ?m m2" "vreaders m2 = vreaders ?m"
    by blast
  then obtain m1 where m1: "vcard_free (Some d) m = Some m1" "m2 = m1\<lparr>vreaders := vreaders ?m\<rparr>"
    by (auto simp: counting_vreaders)
  have "vreaders m1 = vreaders m" using vcard_free_links [OF m1(1)] by simp
  then have "set_reader_card r None m1 = Some m2" using m1(2) assms(2) by (simp add: set_reader_card_def)
  moreover have "same_links m m2" using m2(3) by (simp add: same_links_def)
  ultimately show ?thesis
    using Some m1(1) m2 system_links [OF assms(1) _ m2(2)] by auto
qed

lemma insert_card_ok:
  assumes "system m HR HC HE NE evs rs" and "r \<in># HR" and "set_option c \<subseteq> set_mset HC"
  shows "\<exists>m'. vreader_insert_card (Some r) c m = Some (VREADER_OK, m') \<and>
    reader_at m' = (reader_at m)(r := map_option (\<lambda>v. v\<lparr>rd_card := c\<rparr>) (reader_at m r)) \<and>
    system m' HR HC HE NE (evs @ [(if c \<noteq> None then VEVENT_CARD_INSERT else VEVENT_CARD_REMOVE, Some r, c)]) rs"
proof -
  obtain es l xs where sys: "system_at m HR HC HE NE es evs l xs rs" using assms(1) by (auto simp: system_def)
  obtain v where v: "vreaders m r = Some v"
    using count_okD [OF countedD(1) [OF system_atD(1) [OF sys]], of r] assms(2) by auto
  obtain m1 where m1: "(if rd_card v \<noteq> None then do { m \<leftarrow> vcard_free (rd_card v) m; set_reader_card r None m }
      else Some m) = Some m1" "system_at m1 HR HC HE NE es evs l xs rs"
      "vreaders m1 = (vreaders m)(r \<mapsto> v\<lparr>rd_card := None\<rparr>)"
    using eject_ok [OF sys v] by blast
  obtain m2 where m2: "vcard_reference c m1 = Some (c, m2)" "counted m2 HR (mset_option c + HC)"
      "same_links m1 m2" "vreaders m2 = vreaders m1"
    using vcard_reference_option [OF system_atD(1) [OF m1(2)], of c] assms(3) by auto
  let ?m3 = "m2\<lparr>vreaders := (vreaders m2)(r \<mapsto> v\<lparr>rd_card := c\<rparr>)\<rparr>"
  have m3: "set_reader_card r c m2 = Some ?m3" using m1(3) m2(4) by (simp add: set_reader_card_def)
  have "counted ?m3 HR HC"
    using m1(3) m2(4) by (intro counted_reader_upd [OF m2(2), of r "v\<lparr>rd_card := None\<rparr>"])
      (simp_all add: saved_card_def)
  then have "system_at ?m3 HR HC HE NE es evs l xs rs"
    using system_readers system_links [OF m1(2) m2(3,2)] by blast
  then obtain m4 e where m4: "vreader_queue_card_event (Some r) ?m3 = Some m4" "reader_at m4 = reader_at ?m3"
      "system_at m4 HR HC HE NE (es @ [e]) (evs @ [(if c \<noteq> None then VEVENT_CARD_INSERT
        else VEVENT_CARD_REMOVE, Some r, c)]) l xs rs"
    using queue_card_event_ok [of ?m3 HR HC HE NE es evs l xs rs r "v\<lparr>rd_card := c\<rparr>"] assms(2) by auto
  have "vreader_insert_card (Some r) c m = Some (VREADER_OK, m4)"
    using v m1(1) m2(1) m3 m4(1) by (simp add: vreader_insert_card_def)
  moreover have "reader_at m4 = (reader_at m)(r := map_option (\<lambda>v. v\<lparr>rd_card := c\<rparr>) (reader_at m r))"
    using m4(2) m2(4) m1(3) v by (auto simp: reader_at_def fun_eq_iff)
  ultimately show ?thesis using m4(3) unfolding system_def by blast
qed

lemma system_kept:
  assumes "system_at m HR HC HE NE es evs l xs rs" and "counted m' HR' HC'" and "same_events m m'"
    and "vlists m' l = vlists m l" and "\<forall>e \<in> set xs. ventries m' e = ventries m e"
    and "NE' = dom (ventries m') - set xs"
  shows "system_at m' HR' HC' HE NE' es evs l xs rs"
proof (rule system_keep [OF assms(1,3,2) _ assms(6)])
  have "chain (entry_prevs (ventries m')) (rev xs) None = chain (entry_prevs (ventries m)) (rev xs) None"
    using assms(5) by (intro entry_chain_cong) simp
  then show "list_at m' l xs rs"
    using system_atD(6) [OF assms(1)] assms(4,5) entry_chain_cong(1) [of xs "ventries m'" "ventries m"]
      entry_reader_cong [of xs "ventries m'" "ventries m"]
    by (simp add: list_at_def entries_ok_def)
qed

lemma remove_reader_ok:
  assumes "system m HR HC HE NE evs rs" and "r \<in># HR"
    and "r \<notin> set rs \<and> rs' = rs \<or>
      (\<exists>qs ps. rs = qs @ r # ps \<and> r \<notin> set qs \<and> rs' = qs @ ps \<and> (qs = [] \<longleftrightarrow> ps = []))"
  shows "\<exists>m'. vreader_remove_reader (Some r) m = Some (VREADER_OK, m') \<and> readers_kept m m' \<and>
    system m' HR HC HE NE (evs @ [(VEVENT_READER_REMOVE, Some r, None)]) rs'"
proof -
  obtain es l xs where sys: "system_at m HR HC HE NE es evs l xs rs" using assms(1) by (auto simp: system_def)
  note s = system_atD [OF sys]
  have first: "vreader_list_get_first (Some l) m = Some (start xs None)"
    using s(6) by (simp add: list_at_def)
  have ch: "chain (entry_nexts (ventries m)) xs None" "map (entry_reader (ventries m)) xs = map Some rs"
    using s(6) by (auto simp: list_at_def entries_ok_def)
  note find = find_entry_loop_correct [OF ch, of r]
  show ?thesis
  proof (cases "r \<in> set rs")
    case False
    then have rs': "rs' = rs" using assms(3) by auto
    obtain m1 m2 e where post: "vevent_new VEVENT_READER_REMOVE (Some r) None m = Some (e, m1)"
        "vevent_queue_vevent e m1 = Some m2" "reader_at m2 = reader_at m"
        "system_at m2 HR HC HE NE (es @ [e]) (evs @ [(VEVENT_READER_REMOVE, Some r, None)]) l xs rs"
      using system_post [OF sys, of r None VEVENT_READER_REMOVE] assms(2) by auto
    have "vreader_remove_reader (Some r) m = Some (VREADER_OK, m2)"
      using first find False post(1,2) s(5)
      by (simp add: vreader_remove_reader_def del: vreader_list_get_first.simps)
    then show ?thesis using post(3,4) rs' readers_keptI unfolding system_def by blast
  next
    case True
    then obtain qs ps where rs: "rs = qs @ r # ps" "r \<notin> set qs" "rs' = qs @ ps" "qs = [] \<longleftrightarrow> ps = []"
      using assms(3) by auto
    let ?i = "length qs"
    have i: "length (takeWhile (\<lambda>p. p \<noteq> r) rs) = ?i" using rs(1,2) by (subst rs(1), subst takeWhile_append2) auto
    have len: "length xs = length rs" using ch(2) by (metis length_map)
    define e ys zs where "e = xs ! ?i" and "ys = take ?i xs" and "zs = drop (Suc ?i) xs"
    have xs: "xs = ys @ e # zs" "length qs = length ys"
      using len rs(1) by (simp_all add: e_def ys_def zs_def id_take_nth_drop)
    have "ys = [] \<longleftrightarrow> zs = []" using xs len rs(1,4) by auto
    from dequeue_correct [OF s(6) xs(1) rs(1) xs(2) this]
    obtain N v L where N: "vreader_dequeue (Some l) (Some e) m =
          Some (m\<lparr>ventries := N, vlists := (vlists m)(l \<mapsto> L)\<rparr>)"
        "entries_ok N (ys @ zs) (qs @ ps)"
        "L = \<lparr>li_head = start (ys @ zs) None, li_tail = start (rev (ys @ zs)) None\<rparr>"
        "N e = Some v" "en_reader v = Some r"
        "\<forall>x. map_option en_reader (N x) = map_option en_reader (ventries m x)"
      by blast
    define m1 where "m1 = m\<lparr>ventries := N, vlists := (vlists m)(l \<mapsto> L)\<rparr>"
    have m1: "counted m1 HR HC"
      unfolding m1_def using N(6) s(6) by (intro counted_links [OF s(1)]) (auto simp: list_at_def)
    have e: "e \<notin> set (ys @ zs)" using s(6) xs(1) by (auto simp: list_at_def entries_ok_def)
    have dom: "dom (ventries m1) = dom (ventries m)" using entry_dom [of N "ventries m"] N(6) by (simp add: m1_def)
    then have NE: "insert e NE = dom (ventries m1) - set (ys @ zs)"
      using s(7) xs(1) e N(4) by (auto simp: m1_def)
    have sys1: "system_at m1 HR HC HE (insert e NE) es evs l (ys @ zs) rs'"
      using N(2,3) rs(3)
      by (intro system_keep [OF sys _ m1 _ NE]) (simp_all add: m1_def same_events_def list_at_def)
    obtain m2 m3 d where post: "vevent_new VEVENT_READER_REMOVE (Some r) None m1 = Some (d, m2)"
        "vevent_queue_vevent d m2 = Some m3" "reader_at m3 = reader_at m1" "same_lists m1 m3"
        "system_at m3 HR HC HE (insert e NE) (es @ [d]) (evs @ [(VEVENT_READER_REMOVE, Some r, None)]) l (ys @ zs) rs'"
      using system_post [OF sys1, of r None VEVENT_READER_REMOVE] assms(2) by auto
    have "ventries m3 e = Some v" using post(4) N(4) by (simp add: m1_def same_lists_def)
    then obtain m4 where m4: "vreader_list_entry_delete (Some e) m3 = Some m4" "counted m4 HR HC"
        "ventries m4 = (ventries m3)(e := None)" "vlists m4 = vlists m3" "same_events m3 m4"
        "readers_kept m3 m4"
      using entry_delete_ok [OF system_atD(1) [OF post(5)] _ N(5)] by blast
    have "NE = dom (ventries m4) - set (ys @ zs)"
      using system_atD(7) [OF post(5)] m4(3) s(7) xs(1) by auto
    then have "system_at m4 HR HC HE NE (es @ [d]) (evs @ [(VEVENT_READER_REMOVE, Some r, None)]) l (ys @ zs) rs'"
      using m4 e by (intro system_kept [OF post(5)]) auto
    moreover have "vreader_remove_reader (Some r) m = Some (VREADER_OK, m4)"
      using first find [unfolded i] True N(1) [folded m1_def] post(1,2) m4(1) s(5)
      by (simp add: vreader_remove_reader_def e_def [symmetric]
          del: vreader_dequeue.simps vreader_list_entry_delete.simps vreader_list_get_first.simps)
    moreover have "readers_kept m m4"
      using m4(6) post(3) readers_keptI [of m3 m1]
      by (simp add: readers_kept_def m1_def reader_at_def fun_eq_iff)
    ultimately show ?thesis unfolding system_def by blast
  qed
qed

lemma next_event_ok:
  assumes "system m HR HC HE NE evs rs"
  shows "case evs of
      [] \<Rightarrow> vevent_get_next_vevent m = Some (None, m)
    | ev # evs' \<Rightarrow> \<exists>e m'. vevent_get_next_vevent m = Some (Some e, m') \<and> event_at m' e = Some ev \<and>
        e \<notin> HE \<and> event_at m' = event_at m \<and> vreaders m' = vreaders m \<and>
        system m' HR HC (insert e HE) NE evs' rs"
proof -
  obtain es l xs where sys: "system_at m HR HC HE NE es evs l xs rs" using assms by (auto simp: system_def)
  note s = system_atD [OF sys]
  show ?thesis
  proof (cases es)
    case Nil
    then have "evs = []" using s(3) by simp
    then show ?thesis using Nil s(2) dequeue_vevent_empty by (simp add: vevent_get_next_vevent_def)
  next
    case (Cons e es')
    then obtain ev evs' where evs: "evs = ev # evs'" "event_at m e = Some ev"
        "map (event_at m) es' = map Some evs'" using s(3) by auto
    obtain m' where m': "vevent_dequeue_vevent m = Some (Some e, m')" "event_queue m' es'"
        "dom (vevents m') = dom (vevents m)"
      using dequeue_vevent_correct s(2) Cons by metis
    note q = dequeue_vevent_counted [OF s(1) m'(1)] and ev = dequeue_vevent_event_at [OF m'(1)]
    have "system_at m' HR HC (insert e HE) NE es' evs' l xs rs"
      using s Cons evs(3) m' q ev event_queue_in [OF s(2)]
      by (auto simp: system_at_def same_lists_def list_at_def event_queue_def)
    moreover have "e \<notin> HE" using s(4) Cons by auto
    ultimately show ?thesis
      using evs m'(1) q ev unfolding system_def vevent_get_next_vevent_def by auto
  qed
qed

lemma delete_event_ok:
  assumes "system m HR HC HE NE evs rs" and "e \<in> HE"
  shows "\<exists>m'. vevent_delete (Some e) m = Some m' \<and> readers_kept m m' \<and> system m' HR HC (HE - {e}) NE evs rs"
proof -
  obtain es l xs where sys: "system_at m HR HC HE NE es evs l xs rs" using assms by (auto simp: system_def)
  note s = system_atD [OF sys]
  obtain v where v: "vevents m e = Some v" "e \<notin> set es" using s(4) assms(2) by auto
  obtain m' where m': "vevent_delete (Some e) m = Some m'" "counted m' HR HC" "same_lists m m'"
      "event_queue m' es" "readers_kept m m'" "vevents m' = (vevents m)(e := None)"
    using vevent_delete_ok [OF s(1) v(1) s(2) v(2)] by blast
  have "event_at m' = (event_at m)(e := None)" using m'(6) by (auto simp: event_at_def fun_eq_iff)
  then have "system_at m' HR HC (HE - {e}) NE es evs l xs rs"
    using s m' v(2) by (auto simp: system_at_def same_lists_def list_at_def)
  then show ?thesis using m' unfolding system_def by blast
qed

lemma new_reader_ok:
  assumes "system m HR HC HE NE evs rs" and "Option.bind p em_saved_vcard = None"
  shows "case vreader_alloc name p m of (r, m') \<Rightarrow> reader_at m r = None \<and>
    reader_at m' = (reader_at m)(r \<mapsto> \<lparr>rd_reference_count = 0, rd_card = None, rd_name = name,
      rd_id = -1, rd_private = p\<rparr>) \<and> system m' (add_mset r HR) HC HE NE evs rs"
proof -
  obtain es l xs where sys: "system_at m HR HC HE NE es evs l xs rs" using assms by (auto simp: system_def)
  note s = system_atD [OF sys]
  let ?r = "next_address m"
  let ?v = "\<lparr>rd_reference_count = 1, rd_card = None, rd_name = name, rd_id = -1, rd_private = p\<rparr>"
  let ?m = "m\<lparr>vreaders := (vreaders m)(?r \<mapsto> ?v), next_address := ?r + 1\<rparr>"
  have fresh: "vreaders m ?r = None" using countedD(7) [OF s(1)] by simp
  have "counted ?m (add_mset ?r HR) HC"
    using s(1) count_ok_new [OF countedD(1) [OF s(1)] fresh, of ?v]
      refs_new [OF countedD(5) [OF s(1)] fresh, of rd_card ?v]
      refs_new [OF countedD(5) [OF s(1)] fresh, of saved_card ?v] assms(2)
    by (auto simp: counted_def reader_refs_def card_refs_def saved_card_def)
  then have "system_at ?m (add_mset ?r HR) HC HE NE es evs l xs rs"
    using s(6,7) by (intro system_keep [OF sys]) (simp_all add: same_events_def list_at_def)
  then show ?thesis
    using fresh by (auto simp: vreader_alloc_def system_def reader_at_def fun_eq_iff)
qed

lemma new_card_ok:
  assumes "system m HR HC HE NE evs rs"
  shows "case vcard_alloc c m of (p, m') \<Rightarrow> vreaders m' = vreaders m \<and> system m' HR (add_mset p HC) HE NE evs rs"
proof -
  obtain es l xs where sys: "system_at m HR HC HE NE es evs l xs rs" using assms by (auto simp: system_def)
  note s = system_atD [OF sys]
  let ?p = "next_address m"
  let ?v = "\<lparr>cd_reference_count = 1, cd_card = c\<rparr>"
  let ?m = "m\<lparr>vcards := (vcards m)(?p \<mapsto> ?v), next_address := ?p + 1\<rparr>"
  have fresh: "vcards m ?p = None" using countedD(7) [OF s(1)] by simp
  have "counted ?m HR (add_mset ?p HC)"
    using s(1) count_ok_new [OF countedD(2) [OF s(1)] fresh, of ?v]
    by (auto simp: counted_def reader_refs_def card_refs_def)
  then have "system_at ?m HR (add_mset ?p HC) HE NE es evs l xs rs"
    using s(6,7) by (intro system_keep [OF sys]) (simp_all add: same_events_def list_at_def)
  then show ?thesis by (auto simp: vcard_alloc_def system_def)
qed

lemma reference_ok:
  assumes "system m HR HC HE NE evs rs" and "r \<in># HR"
  shows "\<exists>m'. vreader_reference (Some r) m = Some (Some r, m') \<and> reader_at m' = reader_at m \<and>
    system m' (add_mset r HR) HC HE NE evs rs"
proof -
  obtain es l xs where sys: "system_at m HR HC HE NE es evs l xs rs" using assms by (auto simp: system_def)
  obtain m' where m': "vreader_reference (Some r) m = Some (Some r, m')" "counted m' (add_mset r HR) HC"
      "same_links m m'" "reader_at m' = reader_at m"
    using vreader_reference_ok [OF system_atD(1) [OF sys], of r] assms(2) reader_at_reference
    by (metis union_iff)
  then show ?thesis using system_links [OF sys m'(3,2)] unfolding system_def by blast
qed

lemma free_reader_ok:
  assumes "system m (add_mset r HR) HC HE NE evs rs"
  shows "\<exists>m'. vreader_free (Some r) m = Some m' \<and> readers_kept m m' \<and> system m' HR HC HE NE evs rs"
proof -
  obtain es l xs where sys: "system_at m (add_mset r HR) HC HE NE es evs l xs rs" using assms by (auto simp: system_def)
  obtain m' where m': "vreader_free (Some r) m = Some m'" "counted m' HR HC" "same_links m m'" "readers_kept m m'"
    using vreader_free_ok [OF system_atD(1) [OF sys]] by blast
  then show ?thesis using system_links [OF sys m'(3,2)] unfolding system_def by blast
qed

lemma free_card_ok:
  assumes "system m HR (add_mset c HC) HE NE evs rs"
  shows "\<exists>m'. vcard_free (Some c) m = Some m' \<and> vreaders m' = vreaders m \<and> system m' HR HC HE NE evs rs"
proof -
  obtain es l xs where sys: "system_at m HR (add_mset c HC) HE NE es evs l xs rs" using assms by (auto simp: system_def)
  obtain m' where m': "vcard_free (Some c) m = Some m'" "counted m' HR HC" "same_links m m'"
      "vreaders m' = vreaders m"
    using vcard_free_ok [OF system_atD(1) [OF sys]] by blast
  then show ?thesis using system_links [OF sys m'(3,2)] unfolding system_def by blast
qed

lemma set_id_ok:
  assumes "system m HR HC HE NE evs rs" and "r \<in># HR"
  shows "\<exists>m'. vreader_set_id (Some r) i m = Some (VREADER_OK, m') \<and>
    reader_at m' = (reader_at m)(r := map_option (\<lambda>v. v\<lparr>rd_id := i\<rparr>) (reader_at m r)) \<and>
    system m' HR HC HE NE evs rs"
proof -
  obtain es l xs where sys: "system_at m HR HC HE NE es evs l xs rs" using assms by (auto simp: system_def)
  obtain v where v: "vreaders m r = Some v"
    using count_okD [OF countedD(1) [OF system_atD(1) [OF sys]], of r] assms(2) by auto
  let ?m = "m\<lparr>vreaders := (vreaders m)(r \<mapsto> v\<lparr>rd_id := i\<rparr>)\<rparr>"
  have "counted ?m HR HC"
    by (intro counted_reader_upd [OF system_atD(1) [OF sys] v]) (simp_all add: saved_card_def)
  then have "system_at ?m HR HC HE NE es evs l xs rs" by (rule system_readers [OF sys])
  moreover have "reader_at ?m = (reader_at m)(r := map_option (\<lambda>v. v\<lparr>rd_id := i\<rparr>) (reader_at m r))"
    using v by (auto simp: reader_at_def fun_eq_iff)
  ultimately show ?thesis using v unfolding system_def by auto
qed

text \<open>Asking for the card takes a reference and gives it back.\<close>

lemma card_is_present_ok:
  assumes "system m HR HC HE NE evs rs" and "r \<in># HR"
  shows "\<exists>v. vreaders m r = Some v \<and> vreader_card_is_present (Some r) m =
    Some (if rd_card v = None then VREADER_NO_CARD else VREADER_OK, m)"
proof -
  obtain es l xs where sys: "system_at m HR HC HE NE es evs l xs rs" using assms by (auto simp: system_def)
  note c = system_atD(1) [OF sys]
  obtain v where v: "vreaders m r = Some v" using count_okD [OF countedD(1) [OF c], of r] assms(2) by auto
  show ?thesis
  proof (cases "rd_card v")
    case None
    then show ?thesis using v by (simp add: vreader_card_is_present_def vreader_get_card_def)
  next
    case (Some d)
    then have "d \<in># card_refs m + HC"
      using refs_in [OF countedD(5) [OF c] v, of rd_card d] by (simp add: card_refs_def)
    then obtain w where "vcards m d = Some w" "0 < cd_reference_count w"
      using count_okD [OF countedD(2) [OF c]] by blast
    then show ?thesis
      using v Some
      by (auto simp: vreader_card_is_present_def vreader_get_card_def counting_simps Let_def fun_upd_idem)
  qed
qed

text \<open>A copy of the list, and giving it back.\<close>

lemma get_reader_list_ok:
  assumes "system_at m HR HC HE NE es evs l xs rs"
  shows "\<exists>k m' zs. vreader_get_reader_list m = Some (k, m') \<and> k \<noteq> l \<and> list_at m' k zs rs \<and>
    set zs \<inter> (set xs \<union> NE) = {} \<and> readers_kept m m' \<and>
    system_at m' HR HC HE (NE \<union> set zs) es evs l xs rs"
proof -
  note s = system_atD [OF assms]
  let ?k = "next_address m"
  define m0 where "m0 = m\<lparr>vlists := (vlists m)(?k \<mapsto> \<lparr>li_head = None, li_tail = None\<rparr>),
    next_address := ?k + 1\<rparr>"
  have k: "?k \<noteq> l" using s(6) countedD(7) [OF s(1)] by (auto simp: list_at_def)
  have m0: "counted m0 HR HC"
    using s(1) by (auto simp: m0_def counted_def reader_refs_def card_refs_def)
  have new: "list_at m0 ?k [] []" by (simp add: m0_def list_at_def entries_ok_def)
  have ch: "chain (entry_nexts (ventries m0)) xs None" "map (entry_reader (ventries m0)) xs = map Some rs"
    using s(6) by (auto simp: m0_def list_at_def entries_ok_def)
  obtain m1 zs where m1: "copy_list_loop ?k (start xs None) m0 = Some m1" "counted m1 HR HC"
      "list_at m1 ?k zs rs" "set zs \<inter> dom (ventries m0) = {}"
      "\<forall>a \<in> dom (ventries m0). ventries m1 a = ventries m0 a"
      "\<forall>j. j \<noteq> ?k \<longrightarrow> vlists m1 j = vlists m0 j" "same_events m0 m1" "readers_kept m0 m1"
      "dom (ventries m1) = dom (ventries m0) \<union> set zs"
    using copy_list_loop_ok [OF m0 ch new] by auto
  have "vreader_list_get_first (Some l) m0 = Some (start xs None)"
    using s(6) k by (simp add: m0_def list_at_def)
  moreover have "vreader_list_new m = (?k, m0)" by (simp add: vreader_list_new_def m0_def)
  ultimately have "vreader_get_reader_list m = Some (?k, m1)"
    using m1(1) s(5)
    by (simp add: vreader_get_reader_list_def vreader_copy_list_def del: vreader_list_get_first.simps)
  moreover have sub: "set xs \<subseteq> dom (ventries m)"
    using s(6) by (auto simp: list_at_def elim: entries_ok_in)
  moreover have zs: "set zs \<inter> (set xs \<union> NE) = {}" using m1(4) sub s(7) by (auto simp: m0_def)
  moreover have "system_at m1 HR HC HE (NE \<union> set zs) es evs l xs rs"
    using m1 sub k s(7) zs by (intro system_kept [OF assms m1(2)]) (auto simp: m0_def same_events_def)
  moreover have "readers_kept m m1" using m1(8) by (simp add: m0_def readers_kept_def reader_at_def)
  ultimately show ?thesis using k m1(3) by blast
qed

lemma list_delete_ok:
  assumes "system_at m HR HC HE NE es evs l xs rs" and "list_at m k zs qs" and "k \<noteq> l"
    and "set zs \<inter> set xs = {}"
  shows "\<exists>m'. vreader_list_delete (Some k) m = Some m' \<and> readers_kept m m' \<and>
    system_at m' HR HC HE (NE - set zs) es evs l xs rs"
proof -
  note s = system_atD [OF assms(1)]
  have first: "vreader_list_get_first (Some k) m = Some (start zs None)"
    using assms(2) by (simp add: list_at_def)
  obtain m1 where m1: "list_delete_loop (start zs None) m = Some m1" "counted m1 HR HC"
      "ventries m1 = ventries m |` (- set zs)" "vlists m1 = vlists m" "same_events m m1" "readers_kept m m1"
    using list_delete_loop_ok [OF s(1), of zs qs] assms(2) by (auto simp: list_at_def entries_ok_def)
  let ?m2 = "m1\<lparr>vlists := (vlists m1)(k := None)\<rparr>"
  have "counted ?m2 HR HC" using m1(2) by (auto simp: counted_def reader_refs_def card_refs_def)
  moreover have "\<forall>e \<in> set xs. ventries ?m2 e = ventries m e" using m1(3) assms(4)
    by (auto simp: restrict_map_def disjoint_iff)
  ultimately have "system_at ?m2 HR HC HE (NE - set zs) es evs l xs rs"
    using m1(3-5) assms(3) s(7) by (intro system_kept [OF assms(1)]) (auto simp: same_events_def)
  moreover have "vreader_list_delete (Some k) m = Some ?m2"
    using first m1(1) by (simp add: vreader_list_delete_def del: vreader_list_get_first.simps)
  moreover have "readers_kept m ?m2" using m1(6) by (simp add: readers_kept_def reader_at_def)
  ultimately show ?thesis by blast
qed

section \<open>Programs that use the library\<close>

text \<open>The calls of a client that keeps the rules of reference counting: it passes readers, cards and
  events it holds, and releases what it holds at most once. \<open>Remove_Reader\<close> is for a reader that is
  the only one or stands between two others; \<open>vreader_dequeue\<close> is wrong for the ends of a longer list.\<close>

datatype 'c call =
  New_Reader string "VReaderEmul option"
| Reference_Reader nat
| Free_Reader nat
| New_Card 'c
| Free_Card nat
| Add_Reader nat
| Remove_Reader nat
| Insert_Card nat "nat option"
| Reader_By_Id "32 word"
| Reader_By_Name string
| Next_Event
| Delete_Event nat
| Set_Id nat "32 word"
| Card_Present nat

record 'c client =
  cl_memory :: "'c memory"
  cl_readers :: "nat multiset"
  cl_cards :: "nat multiset"
  cl_events :: "nat set"

text \<open>Making the call, with what the client holds afterwards.\<close>

fun client_call :: "'c call \<Rightarrow> 'c client \<Rightarrow> 'c client option" where
  "client_call (New_Reader name p) k =
     (case vreader_alloc name p (cl_memory k) of
        (r, m) \<Rightarrow> Some (k\<lparr>cl_memory := m, cl_readers := add_mset r (cl_readers k)\<rparr>))"
| "client_call (Reference_Reader r) k = do {
     (r', m) \<leftarrow> vreader_reference (Some r) (cl_memory k);
     Some (k\<lparr>cl_memory := m, cl_readers := mset_option r' + cl_readers k\<rparr>)
   }"
| "client_call (Free_Reader r) k = do {
     m \<leftarrow> vreader_free (Some r) (cl_memory k);
     Some (k\<lparr>cl_memory := m, cl_readers := cl_readers k - {#r#}\<rparr>)
   }"
| "client_call (New_Card c) k =
     (case vcard_alloc c (cl_memory k) of
        (p, m) \<Rightarrow> Some (k\<lparr>cl_memory := m, cl_cards := add_mset p (cl_cards k)\<rparr>))"
| "client_call (Free_Card c) k = do {
     m \<leftarrow> vcard_free (Some c) (cl_memory k);
     Some (k\<lparr>cl_memory := m, cl_cards := cl_cards k - {#c#}\<rparr>)
   }"
| "client_call (Add_Reader r) k = do {
     (st, m) \<leftarrow> vreader_add_reader (Some r) (cl_memory k);
     Some (k\<lparr>cl_memory := m\<rparr>)
   }"
| "client_call (Remove_Reader r) k = do {
     (st, m) \<leftarrow> vreader_remove_reader (Some r) (cl_memory k);
     Some (k\<lparr>cl_memory := m\<rparr>)
   }"
| "client_call (Insert_Card r c) k = do {
     (st, m) \<leftarrow> vreader_insert_card (Some r) c (cl_memory k);
     Some (k\<lparr>cl_memory := m\<rparr>)
   }"
| "client_call (Reader_By_Id i) k = do {
     (r, m) \<leftarrow> vreader_get_reader_by_id i (cl_memory k);
     Some (k\<lparr>cl_memory := m, cl_readers := mset_option r + cl_readers k\<rparr>)
   }"
| "client_call (Reader_By_Name name) k = do {
     (r, m) \<leftarrow> vreader_get_reader_by_name name (cl_memory k);
     Some (k\<lparr>cl_memory := m, cl_readers := mset_option r + cl_readers k\<rparr>)
   }"
| "client_call Next_Event k = do {
     (e, m) \<leftarrow> vevent_get_next_vevent (cl_memory k);
     Some (k\<lparr>cl_memory := m, cl_events := set_option e \<union> cl_events k\<rparr>)
   }"
| "client_call (Delete_Event e) k = do {
     m \<leftarrow> vevent_delete (Some e) (cl_memory k);
     Some (k\<lparr>cl_memory := m, cl_events := cl_events k - {e}\<rparr>)
   }"
| "client_call (Set_Id r i) k = do {
     (st, m) \<leftarrow> vreader_set_id (Some r) i (cl_memory k);
     Some (k\<lparr>cl_memory := m\<rparr>)
   }"
| "client_call (Card_Present r) k = do {
     (st, m) \<leftarrow> vreader_card_is_present (Some r) (cl_memory k);
     Some (k\<lparr>cl_memory := m\<rparr>)
   }"

text \<open>The list of readers and the pending events as a client sees them, and what a call does to them.\<close>

fun call_ok :: "'c client \<Rightarrow> nat list \<Rightarrow> 'c call \<Rightarrow> bool" where
  "call_ok k rs (New_Reader name p) \<longleftrightarrow> Option.bind p em_saved_vcard = None"
| "call_ok k rs (Reference_Reader r) \<longleftrightarrow> r \<in># cl_readers k"
| "call_ok k rs (Free_Reader r) \<longleftrightarrow> r \<in># cl_readers k"
| "call_ok k rs (New_Card c) \<longleftrightarrow> True"
| "call_ok k rs (Free_Card c) \<longleftrightarrow> c \<in># cl_cards k"
| "call_ok k rs (Add_Reader r) \<longleftrightarrow> r \<in># cl_readers k"
| "call_ok k rs (Remove_Reader r) \<longleftrightarrow> r \<in># cl_readers k \<and>
     (r \<notin> set rs \<or> rs = [r] \<or> r \<noteq> hd rs \<and> r \<in> set (butlast rs))"
| "call_ok k rs (Insert_Card r c) \<longleftrightarrow> r \<in># cl_readers k \<and> set_option c \<subseteq> set_mset (cl_cards k)"
| "call_ok k rs (Reader_By_Id i) \<longleftrightarrow> True"
| "call_ok k rs (Reader_By_Name name) \<longleftrightarrow> True"
| "call_ok k rs Next_Event \<longleftrightarrow> True"
| "call_ok k rs (Delete_Event e) \<longleftrightarrow> e \<in> cl_events k"
| "call_ok k rs (Set_Id r i) \<longleftrightarrow> r \<in># cl_readers k"
| "call_ok k rs (Card_Present r) \<longleftrightarrow> r \<in># cl_readers k"

fun call_readers :: "'c call \<Rightarrow> nat list \<Rightarrow> nat list" where
  "call_readers (Add_Reader r) rs = rs @ [r]"
| "call_readers (Remove_Reader r) rs = remove1 r rs"
| "call_readers _ rs = rs"

fun call_events :: "'c call \<Rightarrow> (VEventType \<times> nat option \<times> nat option) list \<Rightarrow>
    (VEventType \<times> nat option \<times> nat option) list" where
  "call_events (Add_Reader r) evs = evs @ [(VEVENT_READER_INSERT, Some r, None)]"
| "call_events (Remove_Reader r) evs = evs @ [(VEVENT_READER_REMOVE, Some r, None)]"
| "call_events (Insert_Card r c) evs =
     evs @ [(if c \<noteq> None then VEVENT_CARD_INSERT else VEVENT_CARD_REMOVE, Some r, c)]"
| "call_events Next_Event evs = drop 1 evs"
| "call_events _ evs = evs"

definition client_ok :: "'c client \<Rightarrow> (VEventType \<times> nat option \<times> nat option) list \<Rightarrow> nat list \<Rightarrow> bool" where
  "client_ok k evs rs \<longleftrightarrow> system (cl_memory k) (cl_readers k) (cl_cards k) (cl_events k) {} evs rs"

lemma client_call_ok:
  assumes "client_ok k evs rs" and "call_ok k rs call"
  shows "\<exists>k'. client_call call k = Some k' \<and> client_ok k' (call_events call evs) (call_readers call rs)"
proof (cases call)
  case (New_Reader name p)
  then show ?thesis
    using new_reader_ok [of "cl_memory k" "cl_readers k" "cl_cards k" "cl_events k" "{}" evs rs p name] assms
    by (auto simp: client_ok_def split: prod.splits)
next
  case (Reference_Reader r)
  then show ?thesis
    using reference_ok [of "cl_memory k" "cl_readers k" "cl_cards k" "cl_events k" "{}" evs rs r] assms
    by (auto simp: client_ok_def)
next
  case (Free_Reader r)
  then show ?thesis
    using free_reader_ok [of "cl_memory k" r "cl_readers k - {#r#}" "cl_cards k" "cl_events k" "{}" evs rs] assms
    by (auto simp: client_ok_def)
next
  case (New_Card c)
  then show ?thesis
    using new_card_ok [of "cl_memory k" "cl_readers k" "cl_cards k" "cl_events k" "{}" evs rs c] assms
    by (auto simp: client_ok_def split: prod.splits)
next
  case (Free_Card c)
  then show ?thesis
    using free_card_ok [of "cl_memory k" "cl_readers k" c "cl_cards k - {#c#}" "cl_events k" "{}" evs rs] assms
    by (auto simp: client_ok_def)
next
  case (Add_Reader r)
  then show ?thesis
    using add_reader_ok [of "cl_memory k" "cl_readers k" "cl_cards k" "cl_events k" "{}" evs rs r] assms
    by (auto simp: client_ok_def)
next
  case (Remove_Reader r)
  have "r \<notin> set rs \<and> remove1 r rs = rs \<or>
      (\<exists>qs ps. rs = qs @ r # ps \<and> r \<notin> set qs \<and> remove1 r rs = qs @ ps \<and> (qs = [] \<longleftrightarrow> ps = []))"
  proof (cases "r \<in> set rs")
    case True
    then obtain qs ps where rs: "rs = qs @ r # ps" "r \<notin> set qs" by (meson split_list_first)
    have "qs = [] \<longleftrightarrow> ps = []"
      using assms(2) Remove_Reader rs by (auto simp: butlast_append append_eq_Cons_conv)
    then show ?thesis using rs by (auto simp: remove1_append)
  qed (simp add: remove1_idem)
  then show ?thesis
    using remove_reader_ok [of "cl_memory k" "cl_readers k" "cl_cards k" "cl_events k" "{}" evs rs r
        "remove1 r rs"] assms Remove_Reader
    by (auto simp: client_ok_def)
next
  case (Insert_Card r c)
  then show ?thesis
    using insert_card_ok [of "cl_memory k" "cl_readers k" "cl_cards k" "cl_events k" "{}" evs rs r c] assms
    by (auto simp: client_ok_def)
next
  case (Reader_By_Id i)
  obtain cur where cur: "vreader_list_get_first (vreader_list (cl_memory k)) (cl_memory k) = Some cur"
    "case find (\<lambda>r. rd_id (the (reader_at (cl_memory k) r)) = i) rs of
       None \<Rightarrow> find_reader_loop (\<lambda>reader. Some (rd_id reader = i)) cur (cl_memory k) = Some (None, cl_memory k)
     | Some r \<Rightarrow> \<exists>m'. find_reader_loop (\<lambda>reader. Some (rd_id reader = i)) cur (cl_memory k) = Some (Some r, m') \<and>
         reader_at m' = reader_at (cl_memory k) \<and>
         system m' (add_mset r (cl_readers k)) (cl_cards k) (cl_events k) {} evs rs"
    using lookup_ok [of "cl_memory k" "cl_readers k" "cl_cards k" "cl_events k" "{}" evs rs
        "\<lambda>reader. Some (rd_id reader = i)"] assms(1) by (auto simp: client_ok_def)
  then show ?thesis
    using assms(1) Reader_By_Id
    by (auto simp: client_ok_def vreader_get_reader_by_id_def split: option.splits)
next
  case (Reader_By_Name name)
  obtain cur where cur: "vreader_list_get_first (vreader_list (cl_memory k)) (cl_memory k) = Some cur"
    "case find (\<lambda>r. rd_name (the (reader_at (cl_memory k) r)) = name) rs of
       None \<Rightarrow> find_reader_loop (\<lambda>reader. Some (rd_name reader = name)) cur (cl_memory k) = Some (None, cl_memory k)
     | Some r \<Rightarrow> \<exists>m'. find_reader_loop (\<lambda>reader. Some (rd_name reader = name)) cur (cl_memory k) = Some (Some r, m') \<and>
         reader_at m' = reader_at (cl_memory k) \<and>
         system m' (add_mset r (cl_readers k)) (cl_cards k) (cl_events k) {} evs rs"
    using lookup_ok [of "cl_memory k" "cl_readers k" "cl_cards k" "cl_events k" "{}" evs rs
        "\<lambda>reader. Some (rd_name reader = name)"] assms(1) by (auto simp: client_ok_def)
  then show ?thesis
    using assms(1) Reader_By_Name
    by (auto simp: client_ok_def vreader_get_reader_by_name_def split: option.splits)
next
  case Next_Event
  then show ?thesis
    using next_event_ok [of "cl_memory k" "cl_readers k" "cl_cards k" "cl_events k" "{}" evs rs] assms
    by (cases evs) (auto simp: client_ok_def)
next
  case (Delete_Event e)
  then show ?thesis
    using delete_event_ok [of "cl_memory k" "cl_readers k" "cl_cards k" "cl_events k" "{}" evs rs e] assms
    by (auto simp: client_ok_def simp del: vevent_delete.simps)
next
  case (Set_Id r i)
  then show ?thesis
    using set_id_ok [of "cl_memory k" "cl_readers k" "cl_cards k" "cl_events k" "{}" evs rs r i] assms
    by (auto simp: client_ok_def simp del: vreader_set_id.simps)
next
  case (Card_Present r)
  then show ?thesis
    using card_is_present_ok [of "cl_memory k" "cl_readers k" "cl_cards k" "cl_events k" "{}" evs rs r] assms
    by (auto simp: client_ok_def)
qed

text \<open>The states a well-behaved client reaches from the initialised library.\<close>

definition start_client :: "'c client" where
  "start_client = \<lparr>cl_memory = vevent_queue_init (vreader_init empty_memory), cl_readers = {#},
     cl_cards = {#}, cl_events = {}\<rparr>"

inductive client_reaches :: "'c client \<Rightarrow> (VEventType \<times> nat option \<times> nat option) list \<Rightarrow> nat list \<Rightarrow> bool" where
  initially: "client_reaches start_client [] []"
| calls: "client_reaches k evs rs \<Longrightarrow> call_ok k rs call \<Longrightarrow> client_call call k = Some k' \<Longrightarrow>
    client_reaches k' (call_events call evs) (call_readers call rs)"

lemma start_client_ok: "client_ok start_client [] []"
  by (auto simp: client_ok_def start_client_def system_def system_at_def vevent_queue_init_def vreader_init_def
      vreader_list_init_def vreader_list_new_def empty_memory_def Let_def event_queue_def list_at_def entries_ok_def
      counted_def count_ok_def reader_refs_def card_refs_def)

lemma client_reaches_ok: "client_reaches k evs rs \<Longrightarrow> client_ok k evs rs"
proof (induction rule: client_reaches.induct)
  case (calls k evs rs call k')
  then show ?case using client_call_ok [OF calls.IH calls.hyps(2)] by auto
qed (rule start_client_ok)

section \<open>Removing the last of several readers\<close>

lemma loop_simps:
  "find_entry_loop r None m = Some None"
  "find_entry_loop r (Some e) m = do {
     entry \<leftarrow> ventries m e;
     if en_reader entry = r then Some (Some e) else find_entry_loop r (en_next entry) m }"
  "find_reader_loop test None m = Some (None, m)"
  "find_reader_loop test (Some e) m = do {
     (creader, m) \<leftarrow> vreader_list_get_reader (Some e) m;
     r \<leftarrow> creader;
     reader \<leftarrow> vreaders m r;
     found \<leftarrow> test reader;
     if found then Some (creader, m)
     else do {
       m \<leftarrow> vreader_free creader m;
       next_entry \<leftarrow> vreader_list_get_next (Some e) m;
       find_reader_loop test next_entry m
     } }"
  by (simp_all add: find_entry_loop.simps find_reader_loop.simps)

text \<open>The end of a longer list is where \<open>vreader_dequeue\<close> goes wrong: the entry before keeps its
  pointer to the entry that is then freed, and the next search that comes that far follows it.
  Two readers with the names \<open>a\<close> and \<open>b\<close>, of which the second is removed.\<close>

definition two_readers :: "(nat \<times> unit memory) option" where
  "two_readers = do {
     let (a, m) = vreader_alloc ''a'' None (vevent_queue_init (vreader_init empty_memory));
     (st, m) \<leftarrow> vreader_add_reader (Some a) m;
     let (b, m) = vreader_alloc ''b'' None m;
     (st, m) \<leftarrow> vreader_add_reader (Some b) m;
     Some (b, m)
   }"

section \<open>Properties\<close>

lemma demo_reader:
  "\<exists>k :: unit client. client_reaches k [] [] \<and> cl_readers k = {#1#} \<and> cl_cards k = {#} \<and> cl_events k = {}"
proof -
  obtain k1 :: "unit client" where k1: "client_call (New_Reader ''CAC'' None) start_client = Some k1"
      "cl_readers k1 = {#1#}" "cl_cards k1 = {#}" "cl_events k1 = {}"
    by (auto simp: start_client_def vreader_alloc_def vevent_queue_init_def vreader_init_def
        vreader_list_init_def vreader_list_new_def empty_memory_def)
  then show ?thesis using calls [OF initially _ k1(1)] by auto
qed

lemma demo_added:
  "\<exists>k :: unit client. client_reaches k [(VEVENT_READER_INSERT, Some 1, None)] [1] \<and> 1 \<in># cl_readers k"
proof -
  obtain k :: "unit client" where k: "client_reaches k [] []" "cl_readers k = {#1#}" using demo_reader by blast
  then obtain k' where k': "client_call (Add_Reader 1) k = Some k'"
    using client_call_ok [OF client_reaches_ok [OF k(1)], of "Add_Reader 1"] by auto
  then have "cl_readers k' = cl_readers k" by (auto split: bind_splits)
  then show ?thesis using calls [OF k(1) _ k'] k(2) by auto
qed






text \<open>Adding and removing readers and inserting and removing cards post events, and the event loop
  gets them in the order of the calls, each with its type and with references to its reader and card.\<close>

theorem events_in_order:
  assumes "client_reaches k evs rs"
  shows "case evs of
      [] \<Rightarrow> vevent_get_next_vevent (cl_memory k) = Some (None, cl_memory k)
    | ev # evs' \<Rightarrow> \<exists>e k'. vevent_get_next_vevent (cl_memory k) = Some (Some e, cl_memory k') \<and>
        map_option (\<lambda>v. (ev_type v, ev_reader v, ev_card v)) (vevents (cl_memory k) e) = Some ev \<and>
        client_reaches k' evs' rs \<and> cl_events k' = insert e (cl_events k)"
proof -
  have sys: "system (cl_memory k) (cl_readers k) (cl_cards k) (cl_events k) {} evs rs"
    using client_reaches_ok [OF assms] by (simp add: client_ok_def)
  show ?thesis
  proof (cases evs)
    case Nil
    then show ?thesis using next_event_ok [OF sys] by simp
  next
    case (Cons ev evs')
    with next_event_ok [OF sys] obtain e m' where m': "vevent_get_next_vevent (cl_memory k) = Some (Some e, m')"
        "event_at m' e = Some ev" "event_at m' = event_at (cl_memory k)" by auto
    let ?k = "k\<lparr>cl_memory := m', cl_events := insert e (cl_events k)\<rparr>"
    have "client_call Next_Event k = Some ?k" using m'(1) by simp
    then have "client_reaches ?k evs' rs"
      using calls [OF assms, of Next_Event ?k] Cons by simp
    moreover have "cl_memory ?k = m'" "cl_events ?k = insert e (cl_events k)" by simp_all
    ultimately show ?thesis using m' Cons by (auto simp: event_at_def intro!: exI [of _ ?k])
  qed
qed

theorem events_in_order_witness:
  "\<exists>(k :: unit client) e k'. client_reaches k [(VEVENT_READER_INSERT, Some 1, None)] [1] \<and>
     vevent_get_next_vevent (cl_memory k) = Some (Some e, cl_memory k') \<and> client_reaches k' [] [1]"
proof -
  obtain k :: "unit client" where k: "client_reaches k [(VEVENT_READER_INSERT, Some 1, None)] [1]"
    using demo_added by blast
  then show ?thesis using events_in_order [OF k] by auto
qed

text \<open>\<open>vreader_get_reader_by_id\<close> returns the first reader of the list with that identifier, and null,
  with nothing changed, when there is none.\<close>

theorem reader_by_id_finds:
  assumes "client_reaches k evs rs" and "i \<noteq> -1"
  shows "case find (\<lambda>r. map_option rd_id (vreaders (cl_memory k) r) = Some i) rs of
      None \<Rightarrow> vreader_get_reader_by_id i (cl_memory k) = Some (None, cl_memory k)
    | Some r \<Rightarrow> \<exists>m'. vreader_get_reader_by_id i (cl_memory k) = Some (Some r, m')"
proof -
  have sys: "system (cl_memory k) (cl_readers k) (cl_cards k) (cl_events k) {} evs rs"
    using client_reaches_ok [OF assms(1)] by (simp add: client_ok_def)
  have live: "vreaders (cl_memory k) r \<noteq> None" if "r \<in> set rs" for r
    using system_reader_alive [OF sys that] .
  have "find (\<lambda>r. rd_id (the (reader_at (cl_memory k) r)) = i) rs =
      find (\<lambda>r. map_option rd_id (vreaders (cl_memory k) r) = Some i) rs"
  proof (rule find_cong [OF refl])
    fix r assume "r \<in> set rs"
    then obtain v where "vreaders (cl_memory k) r = Some v" using live by blast
    then show "rd_id (the (reader_at (cl_memory k) r)) = i \<longleftrightarrow>
        map_option rd_id (vreaders (cl_memory k) r) = Some i" by (simp add: reader_at_def)
  qed
  then show ?thesis
    using lookup_ok [OF sys, of "\<lambda>reader. Some (rd_id reader = i)"] assms(2)
    by (auto simp: vreader_get_reader_by_id_def split: option.splits)
qed

theorem reader_by_id_finds_witness:
  "\<exists>(k :: unit client) m'. client_reaches k [(VEVENT_READER_INSERT, Some 1, None)] [1] \<and>
     vreader_get_reader_by_id 7 (cl_memory k) = Some (Some 1, m')"
proof -
  obtain k0 :: "unit client" where k0: "client_reaches k0 [(VEVENT_READER_INSERT, Some 1, None)] [1]"
      "1 \<in># cl_readers k0" using demo_added by blast
  then obtain k where k: "client_call (Set_Id 1 7) k0 = Some k"
    using client_call_ok [OF client_reaches_ok [OF k0(1)], of "Set_Id 1 7"] by auto
  then have reaches: "client_reaches k [(VEVENT_READER_INSERT, Some 1, None)] [1]"
    using calls [OF k0(1), of "Set_Id 1 7" k] k0(2) by simp
  have "map_option rd_id (vreaders (cl_memory k) 1) = Some 7" using k by (auto split: bind_splits)
  moreover have "(7 :: 32 word) \<noteq> -1" by simp
  ultimately show ?thesis using reader_by_id_finds [OF reaches, of 7] reaches by auto
qed

end
