(* ===== verification/Emul_Mirror.thy ===== *)
theory Emul_Mirror
  imports Reader_System "HOL-Library.Sorting_Algorithms"
begin

text \<open>
  The certificates and keys \<open>vcard_emul_mirror_card\<close> of \<open>src/vcard_emul_nss.c\<close> collects from a token: three
  parallel arrays kept in the order of the identifiers by moving their tails with \<open>memmove\<close>. The main
  lemma shows that no access is out of bounds and that the result is the readable certificates, sorted by
  the library's \<open>sort\<close>; what is shown of \<open>sort\<close> with another list, \<open>sort_snoc\<close>, is that the algorithm is
  stable.
\<close>


section \<open>The certificates of a token\<close>

text \<open>
  What the emulation asks NSS about its slots, at the moment of a call: the certificate objects of a
  slot with what reading \<open>CKA_VALUE\<close> and \<open>CKA_ID\<close> of each returns, the certificate made of a value (a
  handle and its DER form), the order of \<open>SECITEM_CompareItem\<close>, whether a token is present and its
  series, the name of a slot, and the state of its token.
\<close>

record 's tokens =
  FindGenericObjects_cert :: "nat \<Rightarrow> (bytes option \<times> bytes option) list"
  CERT_NewTempCertificate :: "bytes \<Rightarrow> (CERTCertificate \<times> bytes) option"
  SECITEM_CompareItem :: "bytes comparator"
  PK11_IsPresent :: "nat \<Rightarrow> bool"
  PK11_GetSlotSeries :: "nat \<Rightarrow> int"
  PK11_GetSlotName :: "nat \<Rightarrow> string"
  slot_token :: "nat \<Rightarrow> 's"

text \<open>\<open>memmove\<close> within an array and a store into it, as elements; \<open>None\<close> for an access outside.\<close>

definition memmove_array :: "nat \<Rightarrow> nat \<Rightarrow> nat \<Rightarrow> 'a list \<Rightarrow> 'a list option" where
  "memmove_array dst src n xs =
     (if dst + n \<le> length xs \<and> src + n \<le> length xs
      then Some (take dst xs @ take n (drop src xs) @ drop (dst + n) xs) else None)"

definition set_array :: "nat \<Rightarrow> 'a \<Rightarrow> 'a list \<Rightarrow> 'a list option" where
  "set_array i x xs = (if i < length xs then Some (xs[i := x]) else None)"

text \<open>The arrays of \<open>vcard_emul_mirror_card\<close>; a certificate is its bytes, which also stand for \<open>cert_len\<close>.\<close>

record mirror_arrays =
  mi_cert_count :: nat
  mi_certs :: "bytes list"
  mi_keys :: "VCardKey list"
  mi_ids :: "bytes list"

text \<open>The loop over the identifiers collected so far.\<close>

fun find_position :: "bytes comparator \<Rightarrow> bytes \<Rightarrow> bytes list \<Rightarrow> nat" where
  "find_position cmp i [] = 0"
| "find_position cmp i (j # ids) = (if compare cmp i j = Less then 0 else Suc (find_position cmp i ids))"

definition insert_certificate ::
  "bytes comparator \<Rightarrow> bytes \<Rightarrow> VCardKey \<Rightarrow> bytes \<Rightarrow> mirror_arrays \<Rightarrow> mirror_arrays option" where
  "insert_certificate cmp der k ident a = do {
     let n = mi_cert_count a;
     let i = find_position cmp ident (take n (mi_ids a));
     a \<leftarrow> (if i < n
           then do {
             certs \<leftarrow> memmove_array (i + 1) i (n - i) (mi_certs a);
             keys \<leftarrow> memmove_array (i + 1) i (n - i) (mi_keys a);
             ids \<leftarrow> memmove_array (i + 1) i (n - i) (mi_ids a);
             Some (a\<lparr>mi_certs := certs, mi_keys := keys, mi_ids := ids\<rparr>) }
           else Some a);
     certs \<leftarrow> set_array i der (mi_certs a);
     keys \<leftarrow> set_array i k (mi_keys a);
     ids \<leftarrow> set_array i ident (mi_ids a);
     Some (a\<lparr>mi_certs := certs, mi_keys := keys, mi_ids := ids, mi_cert_count := n + 1\<rparr>)
   }"

fun fill_arrays :: "'s tokens \<Rightarrow> (bytes option \<times> bytes option) list \<Rightarrow> mirror_arrays \<Rightarrow> mirror_arrays option" where
  "fill_arrays tk [] a = Some a"
| "fill_arrays tk ((None, i) # objs) a = fill_arrays tk objs a"
| "fill_arrays tk ((Some derCert, None) # objs) a = fill_arrays tk objs a"
| "fill_arrays tk ((Some derCert, Some ident) # objs) a =
     (case CERT_NewTempCertificate tk derCert of
        None \<Rightarrow> fill_arrays tk objs a
      | Some (cert, data) \<Rightarrow> do {
          a \<leftarrow> insert_certificate (SECITEM_CompareItem tk) data (vcard_emul_make_key cert) ident a;
          fill_arrays tk objs a })"

text \<open>The certificates and keys for the card; \<open>arrays0\<close> is what the allocated memory held before.\<close>

definition mirror_certificates ::
  "'s tokens \<Rightarrow> mirror_arrays \<Rightarrow> (bytes option \<times> bytes option) list \<Rightarrow> (bytes \<times> VCardKey option) list option" where
  "mirror_certificates tk arrays0 objs = do {
     a \<leftarrow> fill_arrays tk objs (arrays0\<lparr>mi_cert_count := 0\<rparr>);
     Some (zip (take (mi_cert_count a) (mi_certs a)) (map Some (take (mi_cert_count a) (mi_keys a))))
   }"

section \<open>Sorting\<close>

text \<open>The specification: the certificates that can be read, sorted by identifier with the sorting
  algorithm of the library.\<close>

definition readable_certificates ::
  "'s tokens \<Rightarrow> (bytes option \<times> bytes option) list \<Rightarrow> (bytes \<times> VCardKey \<times> bytes) list" where
  "readable_certificates tk objs = List.map_filter (\<lambda>obj. case obj of
     (Some derCert, Some ident) \<Rightarrow>
       map_option (\<lambda>(cert, data). (data, vcard_emul_make_key cert, ident)) (CERT_NewTempCertificate tk derCert)
   | _ \<Rightarrow> None) objs"

definition by_ident :: "bytes comparator \<Rightarrow> (bytes \<times> VCardKey \<times> bytes) comparator" where
  "by_ident cmp = key (\<lambda>(der, k, ident). ident) cmp"

definition insert_behind :: "'a comparator \<Rightarrow> 'a \<Rightarrow> 'a list \<Rightarrow> 'a list" where
  "insert_behind cmp x xs =
     takeWhile (\<lambda>y. compare cmp x y \<noteq> Less) xs @ x # dropWhile (\<lambda>y. compare cmp x y \<noteq> Less) xs"

lemma dropWhile_less:
  assumes "sorted cmp xs" and "y \<in> set (dropWhile (\<lambda>y. compare cmp x y \<noteq> Less) xs)"
  shows "compare cmp x y = Less"
  using assms
proof (induction xs rule: list.induct)
  case (Cons z xs)
  show ?case
  proof (cases "compare cmp x z = Less")
    case True
    have "compare cmp z y \<noteq> Greater" if "y \<in> set xs"
      using sorted_Cons_imp_not_less [OF Cons.prems(1) that] .
    moreover have "y = z \<or> y \<in> set xs" using Cons.prems(2) True by auto
    ultimately show ?thesis
      using True by (metis compare.trans_less_equiv compare.trans_less comp.exhaust)
  next
    case False
    then show ?thesis using Cons sorted_Cons_imp_sorted [OF Cons.prems(1)] by simp
  qed
qed simp

lemma sort_snoc: "sort cmp (xs @ [x]) = insert_behind cmp x (sort cmp xs)"
proof (rule sort_eqI)
  let ?ys = "sort cmp xs" and ?P = "\<lambda>y. compare cmp x y \<noteq> Less"
  have ys: "?ys = takeWhile ?P ?ys @ dropWhile ?P ?ys" by simp
  have "mset xs = mset (takeWhile ?P ?ys) + mset (dropWhile ?P ?ys)"
    by (metis mset_append mset_sort takeWhile_dropWhile_id)
  then show "mset (xs @ [x]) = mset (insert_behind cmp x ?ys)"
    by (simp add: insert_behind_def)
  have all: "sorted cmp (takeWhile ?P ?ys) \<and> sorted cmp (dropWhile ?P ?ys) \<and>
      (\<forall>y \<in> set (takeWhile ?P ?ys). \<forall>z \<in> set (dropWhile ?P ?ys). compare cmp y z \<noteq> Greater)"
    by (rule sorted_append_iff [THEN iffD1]) simp
  note parts = all [THEN conjunct1] all [THEN conjunct2, THEN conjunct1] all [THEN conjunct2, THEN conjunct2]
  have less: "compare cmp x z = Less" if "z \<in> set (dropWhile ?P ?ys)" for z
    using dropWhile_less [of cmp ?ys z x] that by simp
  have "sorted cmp (x # dropWhile ?P ?ys)"
  proof (rule sorted_ConsI [OF parts(2)])
    fix z zs assume "dropWhile ?P ?ys = z # zs"
    then have "z \<in> set (dropWhile ?P ?ys)" by simp
    then have "compare cmp x z = Less" by (rule less)
    then show "compare cmp x z \<noteq> Greater" by simp
  qed
  moreover have "compare cmp y x \<noteq> Greater" if "y \<in> set (takeWhile ?P ?ys)" for y
    using set_takeWhileD [OF that] by (simp add: compare.greater_iff_sym_less)
  ultimately show "sorted cmp (insert_behind cmp x ?ys)"
    using parts(1,3) by (auto simp: insert_behind_def sorted_append_iff)
  show "filter (\<lambda>z. compare cmp y z = Equiv) (xs @ [x]) =
      filter (\<lambda>z. compare cmp y z = Equiv) (insert_behind cmp x ?ys)" for y
  proof -
    have seg: "filter (\<lambda>z. compare cmp y z = Equiv) xs =
        filter (\<lambda>z. compare cmp y z = Equiv) (takeWhile ?P ?ys) @
        filter (\<lambda>z. compare cmp y z = Equiv) (dropWhile ?P ?ys)"
      using stable_sort [of cmp y xs] ys by (metis filter_append)
    have "filter (\<lambda>z. compare cmp y z = Equiv) (dropWhile ?P ?ys) = []" if eq: "compare cmp y x = Equiv"
      unfolding filter_empty_conv
    proof
      fix z assume "z \<in> set (dropWhile ?P ?ys)"
      then have "compare cmp x z = Less" by (rule less)
      then have "compare cmp y z = Less" using eq by (rule compare.trans_equiv_less [rotated])
      then show "compare cmp y z \<noteq> Equiv" by simp
    qed
    then show ?thesis using seg by (cases "compare cmp y x = Equiv") (simp_all add: insert_behind_def)
  qed
qed

lemma find_position_takeWhile: "find_position cmp i ids = length (takeWhile (\<lambda>j. compare cmp i j \<noteq> Less) ids)"
  by (induction ids) auto

text \<open>\<open>arrays_hold a xs\<close>: the first \<open>mi_cert_count\<close> elements of the arrays are \<open>xs\<close>, and there is room.\<close>

definition arrays_hold :: "mirror_arrays \<Rightarrow> nat \<Rightarrow> (bytes \<times> VCardKey \<times> bytes) list \<Rightarrow> bool" where
  "arrays_hold a room xs \<longleftrightarrow> mi_cert_count a = length xs \<and> length (mi_certs a) = room \<and>
     length (mi_keys a) = room \<and> length (mi_ids a) = room \<and> length xs \<le> room \<and>
     take (length xs) (mi_certs a) = map fst xs \<and> take (length xs) (mi_keys a) = map (fst \<circ> snd) xs \<and>
     take (length xs) (mi_ids a) = map (snd \<circ> snd) xs"

lemma insert_array:
  assumes "i \<le> n" and "n < length xs"
  shows "\<exists>ys. (if i < n then memmove_array (i + 1) i (n - i) xs else Some xs) = Some ys \<and>
    (\<exists>zs. set_array i x ys = Some zs \<and> length zs = length xs \<and>
      take (Suc n) zs = take i (take n xs) @ x # drop i (take n xs))"
proof (cases "i < n")
  case True
  let ?ys = "take (i + 1) xs @ take (n - i) (drop i xs) @ drop (n + 1) xs"
  have mv: "memmove_array (i + 1) i (n - i) xs = Some ?ys"
    using assms True by (simp add: memmove_array_def)
  have "take (i + 1) xs = take i xs @ [xs ! i]" using assms by (simp add: take_Suc_conv_app_nth)
  then have "?ys[i := x] = take i xs @ x # take (n - i) (drop i xs) @ drop (n + 1) xs"
    using assms by (simp add: list_update_append)
  moreover have "take (n - i) (drop i xs) = drop i (take n xs)" by (simp add: drop_take)
  ultimately have "take (Suc n) (?ys[i := x]) = take i (take n xs) @ x # drop i (take n xs)"
    using assms by (simp add: min_def Suc_diff_le)
  moreover have "length ?ys = length xs" using assms True by simp
  moreover have "i < length ?ys" using assms True by simp
  ultimately show ?thesis using mv True unfolding set_array_def by (metis length_list_update)
next
  case False
  then have "i = n" using assms(1) by simp
  then show ?thesis
    using assms by (simp add: set_array_def take_Suc_conv_app_nth)
qed

lemma insert_certificate_sorted:
  assumes "arrays_hold a room (sort (by_ident cmp) xs)" and "length xs < room"
  shows "\<exists>a'. insert_certificate cmp der k ident a = Some a' \<and>
    arrays_hold a' room (sort (by_ident cmp) (xs @ [(der, k, ident)]))"
proof -
  let ?ys = "sort (by_ident cmp) xs" and ?n = "length xs" and ?x = "(der, k, ident)"
  let ?P = "\<lambda>y. compare (by_ident cmp) ?x y \<noteq> Less"
  define i where "i = length (takeWhile ?P ?ys)"
  have a: "mi_cert_count a = ?n" "length (mi_certs a) = room" "length (mi_keys a) = room"
      "length (mi_ids a) = room" "take ?n (mi_certs a) = map fst ?ys"
      "take ?n (mi_keys a) = map (fst \<circ> snd) ?ys" "take ?n (mi_ids a) = map (snd \<circ> snd) ?ys"
    using assms(1) by (simp_all add: arrays_hold_def)
  have i: "i \<le> ?n" using length_takeWhile_le [of ?P ?ys] by (simp add: i_def)
  have pos: "find_position cmp ident (take ?n (mi_ids a)) = i"
    by (simp add: a(7) find_position_takeWhile takeWhile_map i_def by_ident_def comp_def case_prod_beta)
  have ins: "insert_behind (by_ident cmp) ?x ?ys = take i ?ys @ ?x # drop i ?ys"
    by (simp add: insert_behind_def i_def takeWhile_eq_take [symmetric] dropWhile_eq_drop [symmetric])
  obtain c1 c2 where c: "(if i < ?n then memmove_array (i + 1) i (?n - i) (mi_certs a) else Some (mi_certs a)) = Some c1"
      "set_array i der c1 = Some c2" "length c2 = room"
      "take (Suc ?n) c2 = take i (map fst ?ys) @ der # drop i (map fst ?ys)"
    using insert_array [OF i, of "mi_certs a" der] assms(2) a by auto
  obtain k1 k2 where k: "(if i < ?n then memmove_array (i + 1) i (?n - i) (mi_keys a) else Some (mi_keys a)) = Some k1"
      "set_array i k k1 = Some k2" "length k2 = room"
      "take (Suc ?n) k2 = take i (map (fst \<circ> snd) ?ys) @ k # drop i (map (fst \<circ> snd) ?ys)"
    using insert_array [OF i, of "mi_keys a" k] assms(2) a by auto
  obtain d1 d2 where d: "(if i < ?n then memmove_array (i + 1) i (?n - i) (mi_ids a) else Some (mi_ids a)) = Some d1"
      "set_array i ident d1 = Some d2" "length d2 = room"
      "take (Suc ?n) d2 = take i (map (snd \<circ> snd) ?ys) @ ident # drop i (map (snd \<circ> snd) ?ys)"
    using insert_array [OF i, of "mi_ids a" ident] assms(2) a by auto
  let ?a = "a\<lparr>mi_certs := c2, mi_keys := k2, mi_ids := d2, mi_cert_count := ?n + 1\<rparr>"
  have "insert_certificate cmp der k ident a = Some ?a"
    using c(1,2) k(1,2) d(1,2) a(1) pos
    by (cases "i < ?n") (auto simp: insert_certificate_def Let_def)
  moreover have "arrays_hold ?a room (sort (by_ident cmp) (xs @ [?x]))"
    using c(3,4) k(3,4) d(3,4) assms(2) i
    by (simp add: min_absorb2 sort_snoc ins arrays_hold_def take_map drop_map)
  ultimately show ?thesis by blast
qed

lemma fill_arrays_sorted:
  assumes "arrays_hold a room (sort (by_ident (SECITEM_CompareItem tk)) xs)"
    and "length xs + length objs \<le> room"
  shows "\<exists>a'. fill_arrays tk objs a = Some a' \<and>
    arrays_hold a' room (sort (by_ident (SECITEM_CompareItem tk)) (xs @ readable_certificates tk objs))"
  using assms
proof (induction tk objs a arbitrary: xs rule: fill_arrays.induct)
  case (4 tk derCert ident objs a)
  show ?case
  proof (cases "CERT_NewTempCertificate tk derCert")
    case None
    then show ?thesis using 4 by (simp add: readable_certificates_def List.map_filter_simps)
  next
    case (Some p)
    obtain cert data where p: "p = (cert, data)" by (cases p)
    obtain a' where a': "insert_certificate (SECITEM_CompareItem tk) data (vcard_emul_make_key cert) ident a = Some a'"
        "arrays_hold a' room (sort (by_ident (SECITEM_CompareItem tk)) (xs @ [(data, vcard_emul_make_key cert, ident)]))"
      using insert_certificate_sorted [OF 4(3)] 4(4) by fastforce
    then show ?thesis
      using 4(2) [OF Some p [symmetric] a'(1), of "xs @ [(data, vcard_emul_make_key cert, ident)]"] 4(4) Some p
      by (simp add: readable_certificates_def List.map_filter_simps)
  qed
qed (simp_all add: readable_certificates_def List.map_filter_simps)

text \<open>C40: The certificates of a mirrored card are those of the token that can be read, sorted by their
  identifiers, those with equal identifiers in the order of the token, each with its own key: inserting
  into three arrays in place is the stable sort, and stays within arrays with one element per object.\<close>

theorem mirror_sorts:
  assumes "length (mi_certs arrays0) = length objs" and "length (mi_keys arrays0) = length objs"
    and "length (mi_ids arrays0) = length objs"
  shows "mirror_certificates tk arrays0 objs =
    Some (map (\<lambda>(der, k, ident). (der, Some k))
      (sort (by_ident (SECITEM_CompareItem tk)) (readable_certificates tk objs)))"
proof -
  have "arrays_hold (arrays0\<lparr>mi_cert_count := 0\<rparr>) (length objs) (sort (by_ident (SECITEM_CompareItem tk)) [])"
    using assms by (simp add: arrays_hold_def)
  then obtain a' where "fill_arrays tk objs (arrays0\<lparr>mi_cert_count := 0\<rparr>) = Some a'"
      "arrays_hold a' (length objs) (sort (by_ident (SECITEM_CompareItem tk)) (readable_certificates tk objs))"
    using fill_arrays_sorted [of "arrays0\<lparr>mi_cert_count := 0\<rparr>" "length objs" tk "[]" objs] by auto
  then show ?thesis
    by (simp add: mirror_certificates_def arrays_hold_def zip_map_map zip_same_conv_map comp_def case_prod_beta)
qed

definition example_tokens :: "unit tokens" where
  "example_tokens = \<lparr>FindGenericObjects_cert = (\<lambda>_. []),
     CERT_NewTempCertificate = (\<lambda>der. Some (length der, der)),
     SECITEM_CompareItem = key length comparator_nat, PK11_IsPresent = (\<lambda>_. True),
     PK11_GetSlotSeries = (\<lambda>_. 1), PK11_GetSlotName = (\<lambda>_. ''slot''), slot_token = (\<lambda>_. ())\<rparr>"

lemma mirror_sorts_witness:
  "mirror_certificates example_tokens
     \<lparr>mi_cert_count = 7, mi_certs = [[], [], []], mi_keys = replicate 3 (vcard_emul_make_key 0), mi_ids = [[], [], []]\<rparr>
     [(Some [0x30, 1], Some [2, 2]), (None, Some [0]), (Some [0x30], Some [1])] =
   Some [([0x30], Some (vcard_emul_make_key 1)), ([0x30, 1], Some (vcard_emul_make_key 2))]"
proof -
  let ?objs = "[(Some [0x30, 1], Some [2, 2]), (None, Some [0]), (Some [0x30], Some [1])] :: (bytes option \<times> bytes option) list"
  have sorted: "sort (by_ident (SECITEM_CompareItem example_tokens)) (readable_certificates example_tokens ?objs) =
      [([0x30], vcard_emul_make_key 1, [1]), ([0x30, 1], vcard_emul_make_key 2, [2, 2])]"
    by (simp add: readable_certificates_def List.map_filter_simps example_tokens_def insort_def
        by_ident_def compare_comparator_nat numeral_2_eq_2)
  show ?thesis
    by (subst mirror_sorts) (simp_all only: sorted, simp_all)
qed

end
