(* ===== verification/Emul_Options.thy ===== *)
theory Emul_Options
  imports Cac_Init "HOL-Library.Sublist"
begin

text \<open>
  The parser of the options of the NSS emulation, \<open>vcard_emul_options\<close> in \<open>src/vcard_emul_nss.c\<close>: one
  definition per option, the \<open>do\<close> loop as a total function (every pass consumes a character), and its
  result as \<open>Inl\<close> of a fault, \<open>Inr None\<close> for a null result, or the options. The static variable the
  options are returned in is overwritten by each call. Characters are 7-bit: \<open>isspace\<close> of a
  negative \<open>char\<close> is undefined in C.

  The lemmas show that the parser terminates, when it cannot follow a null pointer, and that it reads
  options written by \<open>show_options\<close> back.
\<close>


section \<open>Strings\<close>

text \<open>A pointer into a C string is the rest of the string from there, without its final null byte.
  \<open>isspace\<close>, \<open>strpbrk\<close> and comparison with a prefix by \<open>strncmp\<close> are those of the C library.\<close>

definition isspace :: "char \<Rightarrow> bool" where
  "isspace c \<longleftrightarrow> c \<in> {CHR '' '', CHR 0x09, CHR 0x0A, CHR 0x0B, CHR 0x0C, CHR 0x0D}"

fun strpbrk :: "string \<Rightarrow> string \<Rightarrow> string option" where
  "strpbrk [] accept = None"
| "strpbrk (c # cs) accept = (if c \<in> set accept then Some (c # cs) else strpbrk cs accept)"

definition starts_with :: "string \<Rightarrow> string \<Rightarrow> bool" where
  "starts_with p s \<longleftrightarrow> take (length p) s = p"

text \<open>The text between two pointers into the same string.\<close>

definition between :: "string \<Rightarrow> string \<Rightarrow> string" where
  "between s p = take (length s - length p) s"

fun count_tokens :: "string \<Rightarrow> char \<Rightarrow> char \<Rightarrow> nat" where
  "count_tokens [] token token_end = 0"
| "count_tokens (c # str) token token_end =
     (if c = token then 1 else 0) + (if c = token_end then 0 else count_tokens str token token_end)"

fun strip :: "string \<Rightarrow> string" where
  "strip [] = []"
| "strip (c # str) = (if isspace c then strip str else c # str)"

fun find_blank :: "string \<Rightarrow> string" where
  "find_blank [] = []"
| "find_blank (c # str) = (if \<not> isspace c then find_blank str else c # str)"

section \<open>Options\<close>

datatype use_hw = USE_HW_NO | USE_HW_YES | USE_HW_REMOVABLE

record VirtualReaderOptions =
  vo_name :: string
  vo_vname :: string
  vo_card_type :: VCardEmulType
  vo_type_params :: string
  vo_cert_name :: "string list"

record VCardEmulOptions =
  eo_nss_db :: "string option"
  eo_vreader :: "VirtualReaderOptions list"
  eo_hw_card_type :: VCardEmulType
  eo_hw_type_params :: "string option"
  eo_use_hw :: use_hw

definition default_options :: VCardEmulOptions where
  "default_options = \<lparr>eo_nss_db = None, eo_vreader = [], eo_hw_card_type = VCARD_EMUL_CAC,
     eo_hw_type_params = None, eo_use_hw = USE_HW_YES\<rparr>"

section \<open>The parser\<close>

text \<open>\<open>NEXT_TOKEN\<close>: the token and the rest, or \<open>None\<close> for the jump to \<open>fail\<close>.\<close>

definition next_token :: "string \<Rightarrow> (string \<times> string) option" where
  "next_token args =
     (case strpbrk args '',)'' of
        None \<Rightarrow> None
      | Some p \<Rightarrow> if hd p = CHR '')'' then None else Some (between args p, strip (tl p)))"

text \<open>The loop over the certificate names. It does not look whether \<open>strpbrk\<close> returned null.\<close>

fun read_certs :: "nat \<Rightarrow> string \<Rightarrow> fault + string list \<times> string" where
  "read_certs 0 args = Inr ([], args)"
| "read_certs (Suc n) args =
     (case strpbrk args '',)'' of
        None \<Rightarrow> Inl Null_Dereference
      | Some p \<Rightarrow>
          (case read_certs n (strip (tl p)) of
             Inl f \<Rightarrow> Inl f
           | Inr (certs, args') \<Rightarrow> Inr (between args p # certs, args')))"

text \<open>One option: \<open>Inr None\<close> is the jump to \<open>fail\<close>, after which the call returns null. The argument
  \<open>args\<close> is behind the name of the option.\<close>

type_synonym option_result = "fault + (VCardEmulOptions \<times> string) option"

definition or_fail :: "'a option \<Rightarrow> ('a \<Rightarrow> fault + 'b option) \<Rightarrow> fault + 'b option" where
  "or_fail x f = (case x of None \<Rightarrow> Inr None | Some y \<Rightarrow> f y)"

text \<open>The certificate names of a \<open>soft=\<close> option, the last part of it, and the new reader.\<close>

definition soft_certs :: "VCardEmulOptions \<Rightarrow> VirtualReaderOptions \<Rightarrow> string \<Rightarrow> option_result" where
  "soft_certs opts vreaderOpt args =
     (if args = [] then Inr None
      else
        (case read_certs (count_tokens args CHR '','' CHR '')'' + 1) args of
           Inl f \<Rightarrow> Inl f
         | Inr (certs, args) \<Rightarrow>
             Inr (Some (opts\<lparr>eo_vreader := eo_vreader opts @ [vreaderOpt\<lparr>vo_cert_name := certs\<rparr>]\<rparr>,
                        if args \<noteq> [] \<and> hd args = CHR '')'' then tl args else args))))"

definition soft_option :: "bool \<Rightarrow> VCardEmulOptions \<Rightarrow> string \<Rightarrow> option_result" where
  "soft_option enable_pcsc opts args =
     (let args = strip args in
      if args = [] \<or> hd args \<noteq> CHR ''('' then Inr None
      else
        or_fail (next_token (strip (tl args))) (\<lambda>(name, args).
        or_fail (next_token args) (\<lambda>(vname, args).
        or_fail (next_token args) (\<lambda>(type_str, args).
          let type = vcard_emul_type_from_string enable_pcsc (take 99 type_str) in
          if type = VCARD_EMUL_NONE then Inr None
          else
        or_fail (next_token args) (\<lambda>(type_params, args).
          soft_certs opts \<lparr>vo_name = name, vo_vname = vname, vo_card_type = type,
            vo_type_params = type_params, vo_cert_name = []\<rparr> args)))))"

definition use_hw_option :: "VCardEmulOptions \<Rightarrow> string \<Rightarrow> option_result" where
  "use_hw_option opts args =
     (let args = strip args;
          use = (if args \<noteq> [] \<and> hd args \<in> {CHR ''0'', CHR ''N'', CHR ''n'', CHR ''F''} then USE_HW_NO
                 else if starts_with ''removable'' args then USE_HW_REMOVABLE else USE_HW_YES)
      in Inr (Some (opts\<lparr>eo_use_hw := use\<rparr>, find_blank args)))"

text \<open>The type is compared with all of the rest of the arguments.\<close>

definition hw_type_option :: "bool \<Rightarrow> VCardEmulOptions \<Rightarrow> string \<Rightarrow> option_result" where
  "hw_type_option enable_pcsc opts args =
     (let args = strip args;
          type = vcard_emul_type_from_string enable_pcsc args in
      if type = VCARD_EMUL_NONE then Inr None
      else Inr (Some (opts\<lparr>eo_hw_card_type := type\<rparr>, find_blank args)))"

definition hw_params_option :: "VCardEmulOptions \<Rightarrow> string \<Rightarrow> option_result" where
  "hw_params_option opts args =
     (if eo_hw_type_params opts \<noteq> None then Inr None
      else
        (let params = strip args; args = find_blank params
         in Inr (Some (opts\<lparr>eo_hw_type_params := Some (between params args)\<rparr>, args))))"

definition db_option :: "VCardEmulOptions \<Rightarrow> string \<Rightarrow> option_result" where
  "db_option opts args =
     (if eo_nss_db opts \<noteq> None then Inr None
      else
        (let args = strip args in
         if args = [] \<or> hd args \<noteq> CHR 0x22 then Inr None
         else
           (let db = tl args in
            case strpbrk db [CHR 0x22, CHR 0x0A] of
              None \<Rightarrow> Inr None
            | Some args \<Rightarrow> Inr (Some (opts\<lparr>eo_nss_db := Some (between db args)\<rparr>, tl args)))))"

text \<open>One pass of the \<open>do\<close> loop.\<close>

definition option_step :: "bool \<Rightarrow> VCardEmulOptions \<Rightarrow> string \<Rightarrow> option_result" where
  "option_step enable_pcsc opts args =
     (let args = strip args in
      if args \<noteq> [] \<and> hd args = CHR '','' then Inr (Some (opts, tl args))
      else if starts_with ''soft='' args then soft_option enable_pcsc opts (drop 5 args)
      else if starts_with ''use_hw='' args then use_hw_option opts (drop 7 args)
      else if starts_with ''hw_type='' args then hw_type_option enable_pcsc opts (drop 8 args)
      else if starts_with ''hw_params='' args then hw_params_option opts (drop 10 args)
      else if starts_with ''db='' args then db_option opts (drop 3 args)
      else if starts_with ''nssemul'' args
        then Inr (Some (opts\<lparr>eo_hw_card_type := VCARD_EMUL_CAC, eo_use_hw := USE_HW_YES\<rparr>,
                        find_blank (drop 7 args)))
      else if enable_pcsc \<and> starts_with ''passthru'' args
        then Inr (Some (opts\<lparr>eo_hw_card_type := VCARD_EMUL_PASSTHRU, eo_use_hw := USE_HW_YES\<rparr>,
                        find_blank (drop 8 args)))
      else Inr None)"

section \<open>Every pass consumes something\<close>

lemma suffix_strip [simp]: "suffix (strip s) s"
  by (induction s) (auto intro: suffix_ConsI)

lemma suffix_find_blank [simp]: "suffix (find_blank s) s"
  by (induction s) (auto intro: suffix_ConsI)

lemma suffix_tl: "suffix (tl s) s"
  by (cases s) (auto intro: suffix_ConsI)

lemma suffix_strip_tl [simp]: "suffix (strip (tl s)) s"
  by (rule suffix_order.trans [OF suffix_strip suffix_tl])

lemma suffix_find_blank_strip [simp]: "suffix (find_blank (strip s)) s"
  by (rule suffix_order.trans [OF suffix_find_blank suffix_strip])

lemma strpbrk_Some:
  "strpbrk s accept = Some p \<Longrightarrow> \<exists>t c u. s = t @ p \<and> p = c # u \<and> c \<in> set accept \<and> set t \<inter> set accept = {}"
proof (induction s)
  case (Cons c s)
  show ?case
  proof (cases "c \<in> set accept")
    case False
    then obtain t d u where "s = t @ p" "p = d # u" "d \<in> set accept" "set t \<inter> set accept = {}"
      using Cons by auto
    then show ?thesis using False by (intro exI [of _ "c # t"]) auto
  qed (use Cons in auto)
qed simp

lemma suffix_strpbrk: "strpbrk s accept = Some p \<Longrightarrow> suffix p s"
  by (auto simp: suffix_def dest!: strpbrk_Some)

lemma suffix_next_token: "next_token s = Some (t, s') \<Longrightarrow> suffix s' s"
  using suffix_strpbrk [of s] suffix_order.trans [OF suffix_strip_tl]
  by (auto simp: next_token_def split: option.splits if_splits)

lemma suffix_read_certs: "read_certs n s = Inr (certs, s') \<Longrightarrow> suffix s' s"
proof (induction n arbitrary: s certs)
  case (Suc n)
  then obtain p certs' where p: "strpbrk s '',)'' = Some p" "read_certs n (strip (tl p)) = Inr (certs', s')"
    by (auto split: option.splits sum.splits)
  show ?case
    using Suc.IH [OF p(2)] suffix_strip_tl [of p] suffix_strpbrk [OF p(1)] suffix_order.trans by blast
qed simp

lemma starts_with_iff: "starts_with p s \<longleftrightarrow> (\<exists>t. s = p @ t)"
  unfolding starts_with_def by (metis append_eq_conv_conj append_take_drop_id)

lemma or_fail_Some:
  "or_fail x f = Inr (Some y) \<longleftrightarrow> (\<exists>a. x = Some a \<and> f a = Inr (Some y))"
  "or_fail x f = Inl y' \<longleftrightarrow> (\<exists>a. x = Some a \<and> f a = Inl y')"
  by (simp_all add: or_fail_def split: option.splits)

text \<open>The four tokens in front of the certificate names.\<close>

definition soft_head :: "string \<Rightarrow> string \<Rightarrow> bool" where
  "soft_head s s4 \<longleftrightarrow> strip s \<noteq> [] \<and> hd (strip s) = CHR ''('' \<and>
     (\<exists>t1 s1 t2 s2 t3 s3 t4. next_token (strip (tl (strip s))) = Some (t1, s1) \<and>
        next_token s1 = Some (t2, s2) \<and> next_token s2 = Some (t3, s3) \<and> next_token s3 = Some (t4, s4))"

lemma soft_option_cases:
  assumes "soft_option enable_pcsc opts s = r" and "r \<noteq> Inr None"
  shows "\<exists>v s4. soft_head s s4 \<and> soft_certs opts v s4 = r"
proof -
  have "\<not> (strip s = [] \<or> hd (strip s) \<noteq> CHR ''('')"
    using assms by (intro notI) (simp add: soft_option_def)
  then show ?thesis
    using assms
    by (cases r) (auto simp: soft_option_def soft_head_def Let_def or_fail_Some split: if_splits, blast+)
qed

lemma suffix_soft_head: "soft_head s s4 \<Longrightarrow> suffix s4 s"
  unfolding soft_head_def
  using suffix_next_token suffix_order.trans suffix_strip suffix_strip_tl by (meson suffix_next_token)

lemma suffix_soft_certs:
  assumes "soft_certs opts v s = Inr (Some (opts', s'))"
  shows "suffix s' s"
proof -
  obtain certs s1 where "read_certs (count_tokens s CHR '','' CHR '')'' + 1) s = Inr (certs, s1)"
      "s' = (if s1 \<noteq> [] \<and> hd s1 = CHR '')'' then tl s1 else s1)"
    using assms by (auto simp: soft_certs_def simp del: read_certs.simps split: if_splits sum.splits prod.splits)
  then show ?thesis
    using suffix_read_certs suffix_order.trans [OF suffix_tl] by (metis (no_types, lifting))
qed

lemma suffix_db_option:
  assumes "db_option opts s = Inr (Some (opts', s'))"
  shows "suffix s' s"
proof -
  obtain p where p: "strpbrk (tl (strip s)) [CHR 0x22, CHR 0x0A] = Some p" "s' = tl p"
    using assms by (auto simp: db_option_def Let_def split: if_splits option.splits)
  show ?thesis
    using suffix_strpbrk [OF p(1)] suffix_tl suffix_strip p(2) suffix_order.trans by metis
qed

lemma suffix_option:
  "soft_option enable_pcsc opts s = Inr (Some (opts', s')) \<Longrightarrow> suffix s' s"
  "use_hw_option opts s = Inr (Some (opts', s')) \<Longrightarrow> suffix s' s"
  "hw_type_option enable_pcsc opts s = Inr (Some (opts', s')) \<Longrightarrow> suffix s' s"
  "hw_params_option opts s = Inr (Some (opts', s')) \<Longrightarrow> suffix s' s"
  "db_option opts s = Inr (Some (opts', s')) \<Longrightarrow> suffix s' s"
proof -
  show "suffix s' s" if "soft_option enable_pcsc opts s = Inr (Some (opts', s'))"
    using soft_option_cases [OF that] suffix_soft_head suffix_soft_certs suffix_order.trans
    by (metis option.distinct(1) sum.inject(2))
qed (auto simp: use_hw_option_def hw_type_option_def hw_params_option_def Let_def suffix_db_option
    split: if_splits)

lemma suffix_drop_find_blank [simp]: "suffix (find_blank (drop n s)) s"
  by (rule suffix_order.trans [OF suffix_find_blank suffix_drop])

lemma option_step_cases:
  assumes "option_step enable_pcsc opts s = Inr (Some (opts', s'))"
  shows "\<exists>p t. p \<noteq> [] \<and> strip s = p @ t \<and> suffix s' t"
proof -
  have head: "\<exists>p t. p \<noteq> [] \<and> strip s = p @ t \<and> suffix s' t"
    if "starts_with p (strip s)" "suffix s' (drop n (strip s))" "length p = n" "0 < n" for p n
    using that by (auto simp: starts_with_iff)
  show ?thesis
  proof (cases "strip s \<noteq> [] \<and> hd (strip s) = CHR '',''")
    case True
    then obtain t where t: "strip s = '','' @ t" by (cases "strip s") auto
    then have "s' = t" using assms by (simp add: option_step_def Let_def)
    then show ?thesis using t by (intro exI [of _ "'',''"] exI [of _ t]) simp
  next
    case False
    consider (soft) "starts_with ''soft='' (strip s)"
        "soft_option enable_pcsc opts (drop 5 (strip s)) = Inr (Some (opts', s'))"
      | (use_hw) "starts_with ''use_hw='' (strip s)"
        "use_hw_option opts (drop 7 (strip s)) = Inr (Some (opts', s'))"
      | (hw_type) "starts_with ''hw_type='' (strip s)"
        "hw_type_option enable_pcsc opts (drop 8 (strip s)) = Inr (Some (opts', s'))"
      | (hw_params) "starts_with ''hw_params='' (strip s)"
        "hw_params_option opts (drop 10 (strip s)) = Inr (Some (opts', s'))"
      | (db) "starts_with ''db='' (strip s)" "db_option opts (drop 3 (strip s)) = Inr (Some (opts', s'))"
      | (nssemul) "starts_with ''nssemul'' (strip s)" "s' = find_blank (drop 7 (strip s))"
      | (passthru) "starts_with ''passthru'' (strip s)" "s' = find_blank (drop 8 (strip s))"
      using assms False by (simp add: option_step_def Let_def split: if_splits)
    then show ?thesis
    proof cases
      case soft then show ?thesis using head [of "''soft=''" 5] suffix_option(1) by simp
    next
      case use_hw then show ?thesis using head [of "''use_hw=''" 7] suffix_option(2) by simp
    next
      case hw_type then show ?thesis using head [of "''hw_type=''" 8] suffix_option(3) by simp
    next
      case hw_params then show ?thesis using head [of "''hw_params=''" 10] suffix_option(4) by simp
    next
      case db then show ?thesis using head [of "''db=''" 3] suffix_option(5) by simp
    next
      case nssemul then show ?thesis using head [of "''nssemul''" 7] by simp
    next
      case passthru then show ?thesis using head [of "''passthru''" 8] by simp
    qed
  qed
qed

lemma option_step_suffix:
  assumes "option_step enable_pcsc opts s = Inr (Some (opts', s'))"
  shows "suffix s' s \<and> length s' < length s"
proof -
  obtain p t where t: "p \<noteq> []" "strip s = p @ t" "suffix s' t" using option_step_cases [OF assms] by blast
  then have "suffix s' (strip s)" by (simp add: suffix_appendI)
  moreover have "length s' < length (strip s)" using t suffix_length_le [OF t(3)] by (cases p) auto
  moreover have "length (strip s) \<le> length s" by (rule suffix_length_le) simp
  ultimately show ?thesis using suffix_order.trans [OF _ suffix_strip] by auto
qed

function options_loop :: "bool \<Rightarrow> VCardEmulOptions \<Rightarrow> string \<Rightarrow> fault + VCardEmulOptions option" where
  "options_loop enable_pcsc opts args =
     (case option_step enable_pcsc opts args of
        Inl f \<Rightarrow> Inl f
      | Inr None \<Rightarrow> Inr None
      | Inr (Some (opts, args)) \<Rightarrow>
          if args = [] then Inr (Some opts) else options_loop enable_pcsc opts args)"
  by pat_completeness auto
termination by (relation "measure (\<lambda>(_, _, args). length args)") (auto dest: option_step_suffix)

definition vcard_emul_options :: "bool \<Rightarrow> string \<Rightarrow> fault + VCardEmulOptions option" where
  "vcard_emul_options enable_pcsc args = options_loop enable_pcsc default_options args"

declare options_loop.simps [simp del]

section \<open>A list of certificates that is closed\<close>

lemma count_tokens_append:
  "c \<notin> set t \<Longrightarrow> d \<notin> set t \<Longrightarrow> count_tokens (t @ s) c d = count_tokens s c d"
  by (induction t) auto

lemma count_tokens_strip [simp]:
  "count_tokens (strip s) CHR '','' CHR '')'' = count_tokens s CHR '','' CHR '')''"
  by (induction s) (auto simp: isspace_def)

lemma strip_member: "\<not> isspace c \<Longrightarrow> c \<in> set (strip s) \<longleftrightarrow> c \<in> set s"
  by (induction s) auto

lemma read_certs_closed:
  "CHR '')'' \<in> set s \<Longrightarrow> \<exists>r. read_certs (count_tokens s CHR '','' CHR '')'' + 1) s = Inr r"
proof (induction "length s" arbitrary: s rule: less_induct)
  case less
  then have "strpbrk s '',)'' \<noteq> None"
    by (induction s) auto
  then obtain p where p: "strpbrk s '',)'' = Some p" by auto
  then obtain t c u where s: "s = t @ c # u" "p = c # u" "c \<in> set '',)''" "set t \<inter> set '',)'' = {}"
    using strpbrk_Some by metis
  then have tokens: "count_tokens s CHR '','' CHR '')'' = count_tokens (c # u) CHR '','' CHR '')''"
    by (simp add: count_tokens_append)
  show ?case
  proof (cases "c = CHR '')''")
    case True
    then show ?thesis using p s(2) tokens by simp
  next
    case False
    then have c: "c = CHR '',''" using s(3) by simp
    then have "CHR '')'' \<in> set u" using less.prems s(1,4) by auto
    then have "CHR '')'' \<in> set (strip u)" by (simp add: strip_member isspace_def)
    moreover have "length (strip u) < length s"
      using suffix_length_le [OF suffix_strip, of u] s(1) by simp
    ultimately obtain r where "read_certs (count_tokens (strip u) CHR '','' CHR '')'' + 1) (strip u) = Inr r"
      using less.hyps by blast
    then show ?thesis using p s(2) c tokens by (auto split: prod.splits)
  qed
qed

lemma next_token_member:
  assumes "next_token s = Some (t, s')" and "CHR '')'' \<in> set s"
  shows "CHR '')'' \<in> set s'"
proof -
  obtain p where p: "strpbrk s '',)'' = Some p" "hd p \<noteq> CHR '')''" "s' = strip (tl p)"
    using assms(1) by (auto simp: next_token_def split: option.splits if_splits)
  obtain t c u where s: "s = t @ c # u" "p = c # u" "c \<in> set '',)''" "set t \<inter> set '',)'' = {}"
    using strpbrk_Some [OF p(1)] by metis
  then have "CHR '')'' \<in> set u" using assms(2) p(2) by auto
  then show ?thesis using p(3) s(2) by (simp add: strip_member isspace_def)
qed

lemma soft_head_member:
  assumes "soft_head s s4" and "CHR '')'' \<in> set s"
  shows "CHR '')'' \<in> set s4"
proof -
  have strip: "strip s \<noteq> []" "hd (strip s) = CHR ''(''" using assms(1) by (simp_all add: soft_head_def)
  have "CHR '')'' \<in> set (strip s)" using assms(2) by (simp add: strip_member isspace_def)
  then have "CHR '')'' \<in> set (strip (tl (strip s)))"
    using strip by (cases "strip s") (auto simp: strip_member isspace_def)
  then show ?thesis using assms(1) next_token_member unfolding soft_head_def by blast
qed

lemma soft_option_closed: "CHR '')'' \<in> set s \<Longrightarrow> \<exists>r. soft_option enable_pcsc opts s = Inr r"
proof (rule ccontr)
  assume closed: "CHR '')'' \<in> set s" and "\<nexists>r. soft_option enable_pcsc opts s = Inr r"
  then obtain f where "soft_option enable_pcsc opts s = Inl f" by (cases "soft_option enable_pcsc opts s") auto
  from soft_option_cases [OF this] obtain v s4 where s4: "soft_head s s4" "soft_certs opts v s4 = Inl f" by auto
  show False
    using read_certs_closed [OF soft_head_member [OF s4(1) closed]] s4(2)
    by (auto simp: soft_certs_def simp del: read_certs.simps split: if_splits sum.splits prod.splits)
qed

text \<open>Every \<open>soft=\<close> is followed by a closing parenthesis.\<close>

definition soft_closed :: "string \<Rightarrow> bool" where
  "soft_closed args \<longleftrightarrow> list_all (\<lambda>s. starts_with ''soft='' s \<longrightarrow> CHR '')'' \<in> set s) (suffixes args)"

lemma soft_closedD: "soft_closed args \<Longrightarrow> suffix s args \<Longrightarrow> starts_with ''soft='' s \<Longrightarrow> CHR '')'' \<in> set s"
  by (simp add: soft_closed_def list_all_iff)

lemma option_step_closed:
  assumes "soft_closed args"
  shows "\<exists>r. option_step enable_pcsc opts args = Inr r"
proof -
  have "CHR '')'' \<in> set (drop 5 (strip args))" if start: "starts_with ''soft='' (strip args)"
  proof -
    obtain t where t: "strip args = ''soft='' @ t" using start by (auto simp: starts_with_iff)
    have "CHR '')'' \<in> set (strip args)" using soft_closedD [OF assms _ start] by simp
    then show ?thesis using t by simp
  qed
  then have soft: "\<exists>r. soft_option enable_pcsc opts (drop 5 (strip args)) = Inr r"
    if "starts_with ''soft='' (strip args)" using soft_option_closed that by blast
  have "\<exists>r. use_hw_option opts s = Inr r" "\<exists>r. hw_type_option enable_pcsc opts s = Inr r"
      "\<exists>r. hw_params_option opts s = Inr r" "\<exists>r. db_option opts s = Inr r" for s
    by (auto simp: use_hw_option_def hw_type_option_def hw_params_option_def db_option_def Let_def
        split: option.splits)
  then show ?thesis using soft by (auto simp: option_step_def Let_def)
qed

lemma soft_closed_suffix: "soft_closed args \<Longrightarrow> suffix s args \<Longrightarrow> soft_closed s"
  unfolding soft_closed_def list_all_iff Ball_def in_set_suffixes by (meson suffix_order.trans)

lemma options_loop_closed: "soft_closed args \<Longrightarrow> \<exists>r. options_loop enable_pcsc opts args = Inr r"
proof (induction enable_pcsc opts args rule: options_loop.induct)
  case (1 enable_pcsc opts args)
  obtain r where r: "option_step enable_pcsc opts args = Inr r" using option_step_closed [OF 1(2)] by blast
  note IH = 1(1) [OF r _ refl]
  show ?case
  proof (cases r)
    case None
    then show ?thesis using r by (simp add: options_loop.simps)
  next
    case (Some p)
    obtain opts' args' where p: "p = (opts', args')" by (cases p)
    then have "soft_closed args'"
      using soft_closed_suffix [OF 1(2)] option_step_suffix r Some by blast
    then show ?thesis
      using IH [of opts' args'] r Some p by (subst options_loop.simps) auto
  qed
qed

text \<open>Without it the parser computes with a null pointer, and follows it.\<close>

lemma unclosed_certificates_crash: "vcard_emul_options False ''soft=(,r,CAC,,cert'' = Inl Null_Dereference"
  by (simp add: vcard_emul_options_def options_loop.simps option_step_def soft_option_def Let_def isspace_def
      starts_with_def or_fail_def next_token_def between_def soft_certs_def vcard_emul_type_from_string_def
      strcasecmp_eq_def to_lower_def)

section \<open>Writing options\<close>

definition show_type :: "VCardEmulType \<Rightarrow> string" where
  "show_type type = (case type of VCARD_EMUL_PASSTHRU \<Rightarrow> ''PASSTHRU'' | _ \<Rightarrow> ''CAC'')"

fun show_certs :: "string list \<Rightarrow> string" where
  "show_certs [] = []"
| "show_certs [c] = c @ '')''"
| "show_certs (c # cs) = c @ '','' @ show_certs cs"

text \<open>The text of a \<open>soft=\<close> option behind its name, up to the closing parenthesis.\<close>

definition show_soft :: "VirtualReaderOptions \<Rightarrow> string" where
  "show_soft v = ''('' @ vo_name v @ '','' @ vo_vname v @ '','' @ show_type (vo_card_type v) @ '','' @
     vo_type_params v @ '','' @ show_certs (vo_cert_name v)"

definition show_reader :: "VirtualReaderOptions \<Rightarrow> string" where
  "show_reader v = ''soft='' @ show_soft v @ '' ''"

definition show_use_hw :: "use_hw \<Rightarrow> string" where
  "show_use_hw u = ''use_hw='' @
     (case u of USE_HW_NO \<Rightarrow> ''no'' | USE_HW_YES \<Rightarrow> ''yes'' | USE_HW_REMOVABLE \<Rightarrow> ''removable'') @ '' ''"

text \<open>The type of the hardware readers must come last, since the parser compares all the rest with it.\<close>

definition show_options :: "VCardEmulOptions \<Rightarrow> string" where
  "show_options opts =
     (case eo_nss_db opts of None \<Rightarrow> [] | Some db \<Rightarrow> ''db='' @ [CHR 0x22] @ db @ [CHR 0x22] @ '' '') @
     show_use_hw (eo_use_hw opts) @
     (case eo_hw_type_params opts of None \<Rightarrow> [] | Some params \<Rightarrow> ''hw_params='' @ params @ '' '') @
     concat (map show_reader (eo_vreader opts)) @
     ''hw_type='' @ show_type (eo_hw_card_type opts)"

definition token_ok :: "string \<Rightarrow> bool" where
  "token_ok t \<longleftrightarrow> set t \<inter> set '',)'' = {} \<and> strip t = t"

definition type_ok :: "bool \<Rightarrow> VCardEmulType \<Rightarrow> bool" where
  "type_ok enable_pcsc type \<longleftrightarrow> type = VCARD_EMUL_CAC \<or> enable_pcsc \<and> type = VCARD_EMUL_PASSTHRU"

definition reader_options_ok :: "bool \<Rightarrow> VirtualReaderOptions \<Rightarrow> bool" where
  "reader_options_ok enable_pcsc v \<longleftrightarrow> token_ok (vo_name v) \<and> token_ok (vo_vname v) \<and>
     type_ok enable_pcsc (vo_card_type v) \<and> token_ok (vo_type_params v) \<and> vo_cert_name v \<noteq> [] \<and>
     list_all token_ok (vo_cert_name v)"

definition options_ok :: "bool \<Rightarrow> VCardEmulOptions \<Rightarrow> bool" where
  "options_ok enable_pcsc opts \<longleftrightarrow> type_ok enable_pcsc (eo_hw_card_type opts) \<and>
     (case eo_nss_db opts of None \<Rightarrow> True | Some db \<Rightarrow> set db \<inter> {CHR 0x22, CHR 0x0A} = {}) \<and>
     (case eo_hw_type_params opts of None \<Rightarrow> True | Some ps \<Rightarrow> ps \<noteq> [] \<and> list_all (\<lambda>c. \<not> isspace c) ps) \<and>
     list_all (reader_options_ok enable_pcsc) (eo_vreader opts)"

text \<open>What comes after an option.\<close>

definition rest_ok :: "string \<Rightarrow> bool" where
  "rest_ok s \<longleftrightarrow> s \<noteq> [] \<and> \<not> isspace (hd s) \<and> hd s \<noteq> CHR '')''"

lemma strip_nonblank [simp]: "\<not> isspace c \<Longrightarrow> strip (c # s) = c # s"
  by simp

lemma strip_rest [simp]: "rest_ok s \<Longrightarrow> strip s = s"
  by (cases s) (auto simp: rest_ok_def)

lemma strip_idem [simp]: "strip (strip s) = strip s"
  by (induction s) auto

lemma strip_token: "strip t = t \<Longrightarrow> \<not> isspace c \<Longrightarrow> strip (t @ c # s) = t @ c # s"
  by (cases t) (auto split: if_splits dest: arg_cong [where f = length], metis length_Cons not_less_eq_eq
      strip.simps(2) suffix_length_le suffix_strip)

lemma strpbrk_append: "set t \<inter> set accept = {} \<Longrightarrow> c \<in> set accept \<Longrightarrow> strpbrk (t @ c # s) accept = Some (c # s)"
  by (induction t) auto

lemma between_append [simp]: "between (t @ s) s = t"
  by (simp add: between_def)

lemma next_token_append:
  assumes "token_ok t"
  shows "next_token (t @ CHR '','' # s) = Some (t, strip s)"
  using assms strpbrk_append [of t "'',)''" "CHR '',''" s]
  by (simp add: next_token_def token_ok_def)

lemma isspace_simps [simp]:
  "isspace CHR '' ''" "\<not> isspace CHR '',''" "\<not> isspace CHR '')''" "\<not> isspace CHR ''(''" "\<not> isspace CHR 0x22"
  by (simp_all add: isspace_def)

lemma strip_show_certs: "cs \<noteq> [] \<Longrightarrow> list_all token_ok cs \<Longrightarrow> strip (show_certs cs @ s) = show_certs cs @ s"
  by (cases cs rule: show_certs.cases) (auto simp: token_ok_def strip_token)

lemma read_show_certs:
  "cs \<noteq> [] \<Longrightarrow> list_all token_ok cs \<Longrightarrow>
   read_certs (length cs) (show_certs cs @ s) = Inr (cs, strip s) \<and>
   count_tokens (show_certs cs @ s) CHR '','' CHR '')'' + 1 = length cs"
proof (induction cs rule: show_certs.induct)
  case (2 c)
  then show ?case
    using strpbrk_append [of c "'',)''" "CHR '')''" s]
    by (auto simp: token_ok_def count_tokens_append)
next
  case (3 c d cs)
  let ?s = "show_certs (d # cs) @ s"
  have st: "strip ?s = ?s" using 3(3) by (intro strip_show_certs) auto
  have IH: "read_certs (length (d # cs)) ?s = Inr (d # cs, strip s)"
      "count_tokens ?s CHR '','' CHR '')'' + 1 = length (d # cs)" using 3 by auto
  have c: "set c \<inter> set '',)'' = {}" using 3(3) by (simp add: token_ok_def)
  have "read_certs (Suc (length (d # cs))) (c @ CHR '','' # ?s) = Inr (c # d # cs, strip s)"
    using strpbrk_append [OF c, of "CHR '',''" ?s] st IH(1)
    by (subst read_certs.simps) (simp del: read_certs.simps show_certs.simps)
  moreover have "count_tokens (c @ CHR '','' # ?s) CHR '','' CHR '')'' + 1 = length (c # d # cs)"
    using c IH(2) by (simp add: count_tokens_append del: show_certs.simps)
  ultimately show ?case by simp
qed simp

lemma show_type_parse:
  "type_ok enable_pcsc type \<Longrightarrow> vcard_emul_type_from_string enable_pcsc (show_type type) = type"
  by (auto simp: type_ok_def show_type_def vcard_emul_type_from_string_def strcasecmp_eq_def to_lower_def Let_def)

lemma show_type_token [simp]: "token_ok (show_type type)" "take 99 (show_type type) = show_type type"
  "find_blank (show_type type) = []" "strip (show_type type) = show_type type"
  by (cases type; simp add: show_type_def token_ok_def isspace_def)+

lemma options_loop_space: "options_loop enable_pcsc opts (CHR '' '' # s) = options_loop enable_pcsc opts s"
  by (subst (1 2) options_loop.simps) (simp add: option_step_def)

lemma options_loop_step:
  assumes "option_step enable_pcsc opts s = Inr (Some (opts', s'))" and "s' \<noteq> []"
  shows "options_loop enable_pcsc opts s = options_loop enable_pcsc opts' s'"
  using assms by (subst options_loop.simps) simp

definition skip_closing :: "string \<Rightarrow> string" where
  "skip_closing s = (let s = strip s in if s \<noteq> [] \<and> hd s = CHR '')'' then tl s else s)"

lemma soft_certs_append:
  assumes "cs \<noteq> []" and "list_all token_ok cs"
  shows "soft_certs opts v (show_certs cs @ s) =
    Inr (Some (opts\<lparr>eo_vreader := eo_vreader opts @ [v\<lparr>vo_cert_name := cs\<rparr>]\<rparr>, skip_closing s))"
proof -
  note read = read_show_certs [OF assms, of s]
  have "show_certs cs @ s \<noteq> []" using assms(1) by (cases cs rule: show_certs.cases) auto
  then show ?thesis
    using read by (simp add: soft_certs_def skip_closing_def Let_def del: read_certs.simps)
qed

lemma soft_option_show:
  assumes "reader_options_ok enable_pcsc v"
  shows "soft_option enable_pcsc opts (show_soft v @ s) =
    Inr (Some (opts\<lparr>eo_vreader := eo_vreader opts @ [v]\<rparr>, skip_closing s))"
proof -
  let ?t4 = "show_certs (vo_cert_name v) @ s"
  note ok = assms [unfolded reader_options_ok_def]
  have strip: "strip (t @ CHR '','' # u) = t @ CHR '','' # u" if "token_ok t" for t u
    using that strip_token by (simp add: token_ok_def)
  have ty: "type_ok enable_pcsc (vo_card_type v)" using ok by blast
  have "vo_card_type v \<noteq> VCARD_EMUL_NONE" using ty by (auto simp: type_ok_def)
  moreover note show_type_parse [OF ty]
  moreover have "strip ?t4 = ?t4" using ok strip_show_certs by blast
  moreover have "soft_certs opts \<lparr>vo_name = vo_name v, vo_vname = vo_vname v, vo_card_type = vo_card_type v,
      vo_type_params = vo_type_params v, vo_cert_name = []\<rparr> ?t4 =
      Inr (Some (opts\<lparr>eo_vreader := eo_vreader opts @ [v]\<rparr>, skip_closing s))"
    using ok soft_certs_append [of "vo_cert_name v" opts] by simp
  ultimately show ?thesis
    using ok by (simp add: soft_option_def show_soft_def Let_def strip next_token_append or_fail_def)
qed

lemma loop_reader:
  assumes "reader_options_ok enable_pcsc v" and "rest_ok s"
  shows "options_loop enable_pcsc opts (show_reader v @ s) =
    options_loop enable_pcsc (opts\<lparr>eo_vreader := eo_vreader opts @ [v]\<rparr>) s"
proof -
  have "skip_closing (CHR '' '' # s) = s" using assms(2) by (simp add: skip_closing_def rest_ok_def)
  then have "option_step enable_pcsc opts (show_reader v @ s) =
      Inr (Some (opts\<lparr>eo_vreader := eo_vreader opts @ [v]\<rparr>, s))"
    using soft_option_show [OF assms(1), of opts "CHR '' '' # s"]
    by (simp add: option_step_def show_reader_def starts_with_def isspace_def)
  then show ?thesis using assms(2) options_loop_step by (auto simp: rest_ok_def)
qed

lemma loop_use_hw:
  assumes "s \<noteq> []"
  shows "options_loop enable_pcsc opts (show_use_hw u @ s) = options_loop enable_pcsc (opts\<lparr>eo_use_hw := u\<rparr>) s"
proof -
  have "option_step enable_pcsc opts (show_use_hw u @ s) = Inr (Some (opts\<lparr>eo_use_hw := u\<rparr>, CHR '' '' # s))"
    by (cases u) (simp_all add: option_step_def show_use_hw_def starts_with_def use_hw_option_def isspace_def)
  then show ?thesis using options_loop_step options_loop_space by simp
qed

lemma loop_hw_params:
  assumes "ps \<noteq> []" and "list_all (\<lambda>c. \<not> isspace c) ps" and "eo_hw_type_params opts = None"
  shows "options_loop enable_pcsc opts (''hw_params='' @ ps @ '' '' @ s) =
    options_loop enable_pcsc (opts\<lparr>eo_hw_type_params := Some ps\<rparr>) s"
proof -
  have "strip (ps @ CHR '' '' # s) = ps @ CHR '' '' # s" using assms(1,2) by (cases ps) auto
  moreover have "find_blank (ps @ CHR '' '' # s) = CHR '' '' # s" using assms(2) by (induction ps) auto
  ultimately have "option_step enable_pcsc opts (''hw_params='' @ ps @ '' '' @ s) =
      Inr (Some (opts\<lparr>eo_hw_type_params := Some ps\<rparr>, CHR '' '' # s))"
    using assms(3) by (simp add: option_step_def starts_with_def hw_params_option_def isspace_def Let_def)
  then show ?thesis using options_loop_step options_loop_space by simp
qed

lemma loop_db:
  assumes "set db \<inter> {CHR 0x22, CHR 0x0A} = {}" and "eo_nss_db opts = None"
  shows "options_loop enable_pcsc opts (''db='' @ [CHR 0x22] @ db @ [CHR 0x22] @ '' '' @ s) =
    options_loop enable_pcsc (opts\<lparr>eo_nss_db := Some db\<rparr>) s"
proof -
  have "option_step enable_pcsc opts (''db='' @ [CHR 0x22] @ db @ [CHR 0x22] @ '' '' @ s) =
      Inr (Some (opts\<lparr>eo_nss_db := Some db\<rparr>, CHR '' '' # s))"
    using assms strpbrk_append [of db "[CHR 0x22, CHR 0x0A]" "CHR 0x22" "CHR '' '' # s"]
    by (simp add: option_step_def starts_with_def db_option_def isspace_def Let_def)
  then show ?thesis using options_loop_step options_loop_space by simp
qed

lemma loop_hw_type:
  assumes "type_ok enable_pcsc type"
  shows "options_loop enable_pcsc opts (''hw_type='' @ show_type type) =
    Inr (Some (opts\<lparr>eo_hw_card_type := type\<rparr>))"
proof -
  have "type \<noteq> VCARD_EMUL_NONE" using assms by (auto simp: type_ok_def)
  then have "option_step enable_pcsc opts (''hw_type='' @ show_type type) =
      Inr (Some (opts\<lparr>eo_hw_card_type := type\<rparr>, []))"
    using show_type_parse [OF assms]
    by (simp add: option_step_def starts_with_def hw_type_option_def isspace_def Let_def)
  then show ?thesis by (subst options_loop.simps) simp
qed

lemma loop_readers:
  assumes "list_all (reader_options_ok enable_pcsc) vs" and "rest_ok s"
  shows "options_loop enable_pcsc opts (concat (map show_reader vs) @ s) =
    options_loop enable_pcsc (opts\<lparr>eo_vreader := eo_vreader opts @ vs\<rparr>) s"
  using assms(1)
proof (induction vs arbitrary: opts)
  case (Cons v vs)
  have "rest_ok (concat (map show_reader vs) @ s)"
    using assms(2) by (cases vs) (auto simp: rest_ok_def show_reader_def isspace_def)
  then show ?case
    using Cons loop_reader [of enable_pcsc v "concat (map show_reader vs) @ s" opts] by simp
qed simp

section \<open>Properties\<close>

text \<open>C38: Whatever the arguments, the option parser ends, and it follows no null pointer as long as every
  \<open>soft=\<close> in them has a closing parenthesis behind it: it returns options or null.\<close>

theorem options_parser_safe:
  assumes "soft_closed args"
  shows "\<exists>r. vcard_emul_options enable_pcsc args = Inr r"
  unfolding vcard_emul_options_def by (rule options_loop_closed [OF assms])

theorem options_parser_safe_witness:
  "\<exists>r. vcard_emul_options True ''hw_type soft=(,r,CAC,,c),soft=()'' = Inr r"
  by (rule options_parser_safe) (simp add: soft_closed_def starts_with_def)

text \<open>C39: The option parser reads back what is written: options with any number of software readers, each
  with its names, parameters and certificates, a database, the use of hardware and its
  parameters, written one after the other, are parsed into exactly these options.\<close>

theorem options_roundtrip:
  assumes "options_ok enable_pcsc opts"
  shows "vcard_emul_options enable_pcsc (show_options opts) = Inr (Some opts)"
proof -
  note ok = assms [unfolded options_ok_def]
  let ?type = "''hw_type='' @ show_type (eo_hw_card_type opts)"
  let ?readers = "concat (map show_reader (eo_vreader opts)) @ ?type"
  let ?params = "(case eo_hw_type_params opts of None \<Rightarrow> [] | Some params \<Rightarrow> ''hw_params='' @ params @ '' '')
    @ ?readers"
  define o1 where "o1 = default_options\<lparr>eo_nss_db := eo_nss_db opts\<rparr>"
  define o2 where "o2 = o1\<lparr>eo_use_hw := eo_use_hw opts\<rparr>"
  define o3 where "o3 = o2\<lparr>eo_hw_type_params := eo_hw_type_params opts\<rparr>"
  have "rest_ok ?type" by (simp add: rest_ok_def isspace_def)
  then have readers: "options_loop enable_pcsc o3 ?readers = Inr (Some opts)"
    using loop_readers [of enable_pcsc "eo_vreader opts" ?type o3] loop_hw_type ok
    by (simp add: o3_def o2_def o1_def default_options_def)
  have "options_loop enable_pcsc o2 ?params = options_loop enable_pcsc o3 ?readers"
  proof (cases "eo_hw_type_params opts")
    case None
    then have "o3 = o2" by (simp add: o3_def o2_def o1_def default_options_def)
    then show ?thesis using None by simp
  next
    case (Some ps)
    then show ?thesis
      using loop_hw_params [of ps o2 enable_pcsc ?readers] ok by (simp add: o3_def o2_def o1_def default_options_def)
  qed
  then have params: "options_loop enable_pcsc o1 (show_use_hw (eo_use_hw opts) @ ?params) = Inr (Some opts)"
    using loop_use_hw [of ?params enable_pcsc o1 "eo_use_hw opts"] readers by (simp add: o2_def)
  show ?thesis
  proof (cases "eo_nss_db opts")
    case None
    then have "o1 = default_options" by (simp add: o1_def default_options_def)
    then show ?thesis using params None by (simp add: vcard_emul_options_def show_options_def)
  next
    case (Some db)
    then show ?thesis
      using loop_db [of db default_options enable_pcsc "show_use_hw (eo_use_hw opts) @ ?params"] ok params
      by (simp add: vcard_emul_options_def show_options_def o1_def default_options_def)
  qed
qed

theorem options_roundtrip_witness:
  "vcard_emul_options False (''db='' @ [CHR 0x22] @ ''/nss'' @ [CHR 0x22] @
     '' use_hw=removable soft=(slot,a b,CAC,,x,y) hw_type=CAC'') =
   Inr (Some \<lparr>eo_nss_db = Some ''/nss'', eo_vreader = [\<lparr>vo_name = ''slot'', vo_vname = ''a b'',
     vo_card_type = VCARD_EMUL_CAC, vo_type_params = [], vo_cert_name = [''x'', ''y'']\<rparr>],
     eo_hw_card_type = VCARD_EMUL_CAC, eo_hw_type_params = None, eo_use_hw = USE_HW_REMOVABLE\<rparr>)"
proof -
  let ?opts = "\<lparr>eo_nss_db = Some ''/nss'', eo_vreader = [\<lparr>vo_name = ''slot'', vo_vname = ''a b'',
     vo_card_type = VCARD_EMUL_CAC, vo_type_params = [], vo_cert_name = [''x'', ''y'']\<rparr>],
     eo_hw_card_type = VCARD_EMUL_CAC, eo_hw_type_params = None, eo_use_hw = USE_HW_REMOVABLE\<rparr>"
  have "options_ok False ?opts"
    by (simp add: options_ok_def type_ok_def reader_options_ok_def token_ok_def isspace_def)
  from options_roundtrip [OF this] show ?thesis
    by (simp add: show_options_def show_use_hw_def show_reader_def show_soft_def show_type_def)
qed

end
