(* ===== verification/Emul_Readers.thy ===== *)
theory Emul_Readers
  imports Emul_Mirror Emul_Options
begin

text \<open>
  How \<open>src/vcard_emul_nss.c\<close> makes readers of the slots of NSS and cards of their tokens, and its event
  thread, which follows tokens as they come and go. The readers, cards and events are those of
  \<open>Reader_Store\<close>; \<open>None\<close> is again a fault. What can be seen of the readers is specified by
  \<open>seen_events\<close>, a function on a list of records, and the thread is shown to implement it.
\<close>

section \<open>The reader of a slot\<close>

type_synonym 's emul_memory = "'s cac_card memory"

text \<open>A store through the pointer \<open>vreader_get_private (vreader)\<close>.\<close>

definition set_private :: "nat option \<Rightarrow> (VReaderEmul \<Rightarrow> VReaderEmul) \<Rightarrow> 'c memory \<Rightarrow> 'c memory option" where
  "set_private r f m = do {
     r \<leftarrow> r;
     reader \<leftarrow> vreaders m r;
     vreader_emul \<leftarrow> rd_private reader;
     Some (m\<lparr>vreaders := (vreaders m)(r \<mapsto> reader\<lparr>rd_private := Some (f vreader_emul)\<rparr>)\<rparr>)
   }"

definition vcard_emul_find_vreader_from_slot :: "nat \<Rightarrow> 'c memory \<Rightarrow> (nat option \<times> 'c memory) option" where
  "vcard_emul_find_vreader_from_slot slot m = do {
     (reader_list, m) \<leftarrow> vreader_get_reader_list m;
     current_entry \<leftarrow> vreader_list_get_first (Some reader_list) m;
     (reader, m) \<leftarrow> find_reader_loop
       (\<lambda>reader. map_option (\<lambda>reader_emul. em_slot reader_emul = slot) (rd_private reader)) current_entry m;
     m \<leftarrow> vreader_list_delete (Some reader_list) m;
     Some (reader, m)
   }"

definition vcard_emul_get_type :: "nat option \<Rightarrow> 'c memory \<Rightarrow> VCardEmulType option" where
  "vcard_emul_get_type vreader m = do {
     vreader_emul \<leftarrow> vreader_get_private vreader m;
     Some (case vreader_emul of
         Some em \<Rightarrow> if em_default_type em \<noteq> VCARD_EMUL_NONE then em_default_type em else vcard_emul_type_select
       | None \<Rightarrow> vcard_emul_type_select)
   }"

definition vcard_emul_get_type_params :: "nat option \<Rightarrow> 'c memory \<Rightarrow> string option" where
  "vcard_emul_get_type_params vreader m = do {
     vreader_emul \<leftarrow> vreader_get_private vreader m;
     Some (case Option.bind vreader_emul em_type_params of Some params \<Rightarrow> params | None \<Rightarrow> '''')
   }"

definition vcard_emul_reader_get_slot :: "nat option \<Rightarrow> 'c memory \<Rightarrow> nat option option" where
  "vcard_emul_reader_get_slot vreader m = do {
     vreader_emul \<leftarrow> vreader_get_private vreader m;
     Some (map_option em_slot vreader_emul)
   }"

section \<open>Cards for readers\<close>

text \<open>What the emulation uses of NSS: the functions of a card's applets, the digest, the tokens.\<close>

record 's emulation =
  e_nss :: "'s nss"
  e_sha256 :: "bytes \<Rightarrow> bytes option"
  e_tokens :: "'s tokens"

definition make_card ::
  "'s emulation \<Rightarrow> nat option \<Rightarrow> (bytes \<times> VCardKey option) list \<Rightarrow> 's emul_memory \<Rightarrow>
   (nat option \<times> 's emul_memory) option" where
  "make_card em reader certs m = do {
     type \<leftarrow> vcard_emul_get_type reader m;
     slot \<leftarrow> vcard_emul_reader_get_slot reader m;
     params \<leftarrow> vcard_emul_get_type_params reader m;
     (case vcard_emul_make_card (e_nss em) (e_sha256 em) type
             (map_option (slot_token (e_tokens em)) slot) certs of
        Inl f \<Rightarrow> None
      | Inr None \<Rightarrow> Some (None, m)
      | Inr (Some vcard) \<Rightarrow> (case vcard_alloc vcard m of (c, m) \<Rightarrow> Some (Some c, m)))
   }"

text \<open>\<open>g_new\<close> leaves the elements of an array as they happen to be; \<open>mirror_sorts\<close> shows that this does
  not matter.\<close>

definition vcard_emul_alloc_arrays :: "nat \<Rightarrow> mirror_arrays" where
  "vcard_emul_alloc_arrays cert_count =
     \<lparr>mi_cert_count = cert_count, mi_certs = replicate cert_count [],
      mi_keys = replicate cert_count (vcard_emul_make_key 0), mi_ids = replicate cert_count []\<rparr>"

definition vcard_emul_mirror_card ::
  "'s emulation \<Rightarrow> nat option \<Rightarrow> 's emul_memory \<Rightarrow> (nat option \<times> 's emul_memory) option" where
  "vcard_emul_mirror_card em vreader m = do {
     slot \<leftarrow> vcard_emul_reader_get_slot vreader m;
     (case slot of
        None \<Rightarrow> Some (None, m)
      | Some slot \<Rightarrow>
          (let objs = FindGenericObjects_cert (e_tokens em) slot in
           if objs = [] then Some (None, m)
           else do {
             certs \<leftarrow> mirror_certificates (e_tokens em) (vcard_emul_alloc_arrays (length objs)) objs;
             make_card em vreader certs m
           }))
   }"

section \<open>Tokens come and go\<close>

text \<open>One turn of the loop of \<open>vcard_emul_event_thread\<close>, for a slot on which something happened.\<close>

definition insert_mirror :: "'s emulation \<Rightarrow> nat option \<Rightarrow> 's emul_memory \<Rightarrow> 's emul_memory option" where
  "insert_mirror em vreader m = do {
     (vcard, m) \<leftarrow> vcard_emul_mirror_card em vreader m;
     (st, m) \<leftarrow> vreader_insert_card vreader vcard m;
     vcard_free vcard m
   }"

definition remove_card :: "nat option \<Rightarrow> 'c memory \<Rightarrow> 'c memory option" where
  "remove_card vreader m = map_option snd (vreader_insert_card vreader None m)"

definition new_slot_reader ::
  "'s emulation \<Rightarrow> VCardEmulType \<Rightarrow> string option \<Rightarrow> nat \<Rightarrow> 's emul_memory \<Rightarrow> 's emul_memory option" where
  "new_slot_reader em default_card_type default_type_params slot m = do {
     let (vreader, m) = vreader_alloc (PK11_GetSlotName (e_tokens em) slot)
       (Some (vreader_emul_new slot default_card_type default_type_params)) m;
     (st, m) \<leftarrow> vreader_add_reader (Some vreader) m;
     vreader_free (Some vreader) m
   }"

definition token_change :: "'s emulation \<Rightarrow> nat option \<Rightarrow> nat \<Rightarrow> 's emul_memory \<Rightarrow> 's emul_memory option" where
  "token_change em vreader slot m = do {
     private_data \<leftarrow> vreader_get_private vreader m;
     vreader_emul \<leftarrow> private_data;
     if PK11_IsPresent (e_tokens em) slot
     then do {
       let series = PK11_GetSlotSeries (e_tokens em) slot;
       m \<leftarrow> (if series \<noteq> em_series vreader_emul
             then do {
               m \<leftarrow> (if em_present vreader_emul then remove_card vreader m else Some m);
               insert_mirror em vreader m
             }
             else Some m);
       set_private vreader (\<lambda>e. e\<lparr>em_series := series, em_present := True\<rparr>) m
     }
     else do {
       m \<leftarrow> (if em_present vreader_emul then remove_card vreader m else Some m);
       set_private vreader (\<lambda>e. e\<lparr>em_series := 0, em_present := False\<rparr>) m
     }
   }"

definition slot_event ::
  "'s emulation \<Rightarrow> VCardEmulType \<Rightarrow> string option \<Rightarrow> nat \<Rightarrow> 's emul_memory \<Rightarrow> 's emul_memory option" where
  "slot_event em default_card_type default_type_params slot m = do {
     (vreader, m) \<leftarrow> vcard_emul_find_vreader_from_slot slot m;
     if vreader = None
     then new_slot_reader em default_card_type default_type_params slot m
     else do {
       m \<leftarrow> token_change em vreader slot m;
       vreader_free vreader m
     }
   }"

text \<open>What \<open>SECMOD_WaitForAnyTokenEvent\<close> returns: a slot, with the tokens as they then are; nothing and
  \<open>SEC_ERROR_NO_EVENT\<close>; or nothing and another error, which ends the thread. The thread is a
  function of the answers it gets.\<close>

datatype 's wait = Token_Event nat "'s emulation" | No_Event | Wait_Failed

fun vcard_emul_event_thread ::
  "VCardEmulType \<Rightarrow> string option \<Rightarrow> 's wait list \<Rightarrow> 's emul_memory \<Rightarrow> 's emul_memory option" where
  "vcard_emul_event_thread ty ps [] m = Some m"
| "vcard_emul_event_thread ty ps (No_Event # ws) m = vcard_emul_event_thread ty ps ws m"
| "vcard_emul_event_thread ty ps (Wait_Failed # ws) m = Some m"
| "vcard_emul_event_thread ty ps (Token_Event slot em # ws) m = do {
     m \<leftarrow> slot_event em ty ps slot m;
     vcard_emul_event_thread ty ps ws m
   }"


definition has_card :: "'s emulation \<Rightarrow> nat \<Rightarrow> bool" where
  "has_card em slot \<longleftrightarrow> FindGenericObjects_cert (e_tokens em) slot \<noteq> []"

section \<open>Finding the reader of a slot\<close>

definition emul_at :: "'c memory \<Rightarrow> nat \<Rightarrow> VReaderEmul option" where
  "emul_at m r = Option.bind (reader_at m r) rd_private"

lemma emul_at_eq: "emul_at m r = Option.bind (vreaders m r) rd_private"
  by (cases "vreaders m r") (simp_all add: emul_at_def reader_at_def)

lemma find_vreader_ok:
  assumes "system m HR HC HE NE evs rs" and "\<forall>r \<in> set rs. emul_at m r \<noteq> None"
  shows "\<exists>m'. let r = find (\<lambda>r. map_option em_slot (emul_at m r) = Some slot) rs in
    vcard_emul_find_vreader_from_slot slot m = Some (r, m') \<and>
    system m' (mset_option r + HR) HC HE NE evs rs \<and> (\<forall>r \<in> set rs. reader_at m' r = reader_at m r)"
proof -
  let ?test = "\<lambda>reader. map_option (\<lambda>reader_emul. em_slot reader_emul = slot) (rd_private reader)"
  obtain es l xs where sys: "system_at m HR HC HE NE es evs l xs rs" using assms(1) by (auto simp: system_def)
  obtain k m1 zs where m1: "vreader_get_reader_list m = Some (k, m1)" "k \<noteq> l" "list_at m1 k zs rs"
      "set zs \<inter> (set xs \<union> NE) = {}" "readers_kept m m1" "system_at m1 HR HC HE (NE \<union> set zs) es evs l xs rs"
    using get_reader_list_ok [OF sys] by blast
  have "system m1 HR HC HE (NE \<union> set zs) evs rs" using m1(6) by (auto simp: system_def)
  from system_reader_alive [OF this] m1(5)
  have kept: "reader_at m1 r = reader_at m r" if "r \<in> set rs" for r
    using that by (auto simp: readers_kept_def)
  have first: "vreader_list_get_first (Some k) m1 = Some (start zs None)"
    using m1(3) by (simp add: list_at_def)
  have test: "?test (the (reader_at m1 r)) = map_option (\<lambda>e. em_slot e = slot) (emul_at m r)"
    if "r \<in> set rs" for r
  proof -
    have "reader_at m r \<noteq> None" using assms(2) that by (cases "reader_at m r") (auto simp: emul_at_def)
    then show ?thesis using kept [OF that] by (auto simp: emul_at_def)
  qed
  have find: "find (\<lambda>r. ?test (the (reader_at m1 r)) = Some True) rs =
      find (\<lambda>r. map_option em_slot (emul_at m r) = Some slot) rs"
    using test assms(2) by (intro find_cong) auto
  have "\<forall>r \<in> set rs. ?test (the (reader_at m1 r)) \<noteq> None" using test assms(2) by auto
  note loop = list_lookup_ok [OF m1(6,3), of ?test, OF _ this, unfolded find, simplified]
  have "\<exists>m2. let r = find (\<lambda>r. map_option em_slot (emul_at m r) = Some slot) rs in
      find_reader_loop ?test (start zs None) m1 = Some (r, m2) \<and> reader_at m2 = reader_at m1 \<and>
      same_links m1 m2 \<and> system_at m2 (mset_option r + HR) HC HE (NE \<union> set zs) es evs l xs rs"
  proof (cases "find (\<lambda>r. map_option em_slot (emul_at m r) = Some slot) rs")
    case None
    then show ?thesis using loop m1(6) by simp
  next
    case (Some r)
    then show ?thesis using loop by auto
  qed
  then obtain m2 r where r: "r = find (\<lambda>r. map_option em_slot (emul_at m r) = Some slot) rs"
      and m2: "find_reader_loop ?test (start zs None) m1 = Some (r, m2)" "reader_at m2 = reader_at m1"
      "same_links m1 m2" "system_at m2 (mset_option r + HR) HC HE (NE \<union> set zs) es evs l xs rs"
    by (auto simp: Let_def)
  have "list_at m2 k zs rs" using m1(3) m2(3) by (simp add: list_at_def same_links_def)
  moreover have "set zs \<inter> set xs = {}" "(NE \<union> set zs) - set zs = NE" using m1(4) by auto
  ultimately obtain m3 where m3: "vreader_list_delete (Some k) m2 = Some m3" "readers_kept m2 m3"
      "system_at m3 (mset_option r + HR) HC HE NE es evs l xs rs"
    using list_delete_ok [OF m2(4) _ m1(2)] by metis
  have "system m3 (mset_option r + HR) HC HE NE evs rs" using m3(3) by (auto simp: system_def)
  moreover from system_reader_alive [OF this] m3(2) kept m2(2)
  have "\<forall>r \<in> set rs. reader_at m3 r = reader_at m r" by (auto simp: readers_kept_def)
  ultimately show ?thesis
    using m1(1) first m2(1) m3(1) r
    by (auto simp: vcard_emul_find_vreader_from_slot_def simp del: vreader_list_get_first.simps)
qed


section \<open>Cards of readers\<close>

lemma vcard_emul_make_card_total:
  assumes "type \<noteq> VCARD_EMUL_NONE"
  shows "\<exists>v. vcard_emul_make_card nss sha256 type (Some s) certs = Inr (Some v)"
proof -
  define vcard where "vcard = (if certs \<noteq> [] then vcard_emul_create_serial sha256 (vcard_new s) (fst (hd certs))
    else vcard_new s :: 'a cac_card)"
  have "card_wf applet_ok vcard"
    by (simp add: vcard_def vcard_emul_create_serial_def card_wf_new card_wf_serial split: option.split)
  then have "\<exists>st v. vcard_init nss type certs vcard = Inr (st, v)"
    using vcard_init_ok [of vcard nss certs] assms by (cases type) (auto simp: vcard_init_def)
  then show ?thesis
    using assms by (auto simp: vcard_emul_make_card_def vcard_def Let_def)
qed

lemma reader_card_ok:
  assumes "system m HR HC HE NE evs rs" and "emul_at m r = Some e"
  shows "\<exists>c m'. make_card em (Some r) certs m = Some (Some c, m') \<and> vreaders m' = vreaders m \<and>
    system m' HR (add_mset c HC) HE NE evs rs"
proof -
  obtain v where v: "vreaders m r = Some v" "rd_private v = Some e"
    using assms(2) by (auto simp: emul_at_eq bind_eq_Some_conv)
  define ty where "ty = (if em_default_type e \<noteq> VCARD_EMUL_NONE then em_default_type e else vcard_emul_type_select)"
  have "ty \<noteq> VCARD_EMUL_NONE" by (simp add: ty_def vcard_emul_type_select_def)
  from vcard_emul_make_card_total [OF this]
  obtain vcard where "vcard_emul_make_card (e_nss em) (e_sha256 em) ty (Some (slot_token (e_tokens em) (em_slot e))) certs =
      Inr (Some vcard)"
    by meson
  moreover have "vcard_emul_get_type (Some r) m = Some ty"
      "vcard_emul_reader_get_slot (Some r) m = Some (Some (em_slot e))"
      "\<exists>params. vcard_emul_get_type_params (Some r) m = Some params"
    using v by (simp_all add: vcard_emul_get_type_def vcard_emul_reader_get_slot_def ty_def
        vcard_emul_get_type_params_def vreader_get_private_def)
  ultimately have "make_card em (Some r) certs m = (case vcard_alloc vcard m of (c, m) \<Rightarrow> Some (Some c, m))"
    by (auto simp: make_card_def)
  then show ?thesis using new_card_ok [OF assms(1), of vcard] by (cases "vcard_alloc vcard m") auto
qed

lemma mirror_certificates_total:
  "\<exists>certs. mirror_certificates tk (vcard_emul_alloc_arrays (length objs)) objs = Some certs"
proof -
  have "arrays_hold (vcard_emul_alloc_arrays (length objs)\<lparr>mi_cert_count := 0\<rparr>) (length objs)
      (Sorting_Algorithms.sort (by_ident (SECITEM_CompareItem tk)) [])"
    by (simp add: arrays_hold_def vcard_emul_alloc_arrays_def)
  from fill_arrays_sorted [OF this, of objs] show ?thesis
    by (auto simp: mirror_certificates_def)
qed

lemma mirror_card_ok:
  assumes "system m HR HC HE NE evs rs" and "emul_at m r = Some e"
  shows "\<exists>c m'. vcard_emul_mirror_card em (Some r) m = Some (c, m') \<and> vreaders m' = vreaders m \<and>
    system m' HR (mset_option c + HC) HE NE evs rs \<and> (c \<noteq> None \<longleftrightarrow> has_card em (em_slot e))"
proof -
  obtain v where v: "vreaders m r = Some v" "rd_private v = Some e"
    using assms(2) by (auto simp: emul_at_eq bind_eq_Some_conv)
  then have slot: "vcard_emul_reader_get_slot (Some r) m = Some (Some (em_slot e))"
    by (simp add: vcard_emul_reader_get_slot_def vreader_get_private_def)
  show ?thesis
  proof (cases "has_card em (em_slot e)")
    case False
    then show ?thesis using slot assms(1)
      by (simp add: vcard_emul_mirror_card_def has_card_def)
  next
    case True
    let ?objs = "FindGenericObjects_cert (e_tokens em) (em_slot e)"
    obtain certs where certs: "mirror_certificates (e_tokens em) (vcard_emul_alloc_arrays (length ?objs)) ?objs = Some certs"
      using mirror_certificates_total by blast
    obtain c m' where "make_card em (Some r) certs m = Some (Some c, m')" "vreaders m' = vreaders m"
        "system m' HR (add_mset c HC) HE NE evs rs"
      using reader_card_ok [OF assms] by blast
    then show ?thesis using slot True certs
      by (intro exI [of _ "Some c"] exI [of _ m']) (simp add: vcard_emul_mirror_card_def has_card_def Let_def)
  qed
qed


section \<open>What can be seen of readers\<close>

record seen =
  s_slot :: nat
  s_present :: bool
  s_series :: int
  s_card :: bool

definition seen_at :: "'c memory \<Rightarrow> nat \<Rightarrow> seen option" where
  "seen_at m r = Option.bind (reader_at m r) (\<lambda>v. map_option
     (\<lambda>e. \<lparr>s_slot = em_slot e, s_present = em_present e, s_series = em_series e, s_card = rd_card v \<noteq> None\<rparr>)
     (rd_private v))"

lemma seen_atD:
  assumes "seen_at m r = Some s"
  obtains v e where "reader_at m r = Some v" and "rd_private v = Some e" and "emul_at m r = Some e"
    and "s = \<lparr>s_slot = em_slot e, s_present = em_present e, s_series = em_series e, s_card = rd_card v \<noteq> None\<rparr>"
  using assms by (auto simp: seen_at_def emul_at_def bind_eq_Some_conv)

lemma seen_at_cong: "reader_at m' r = reader_at m r \<Longrightarrow> seen_at m' r = seen_at m r"
  by (simp add: seen_at_def)

definition event_readers :: "(VEventType \<times> nat option \<times> nat option) list \<Rightarrow> (VEventType \<times> nat option) list" where
  "event_readers evs = map (\<lambda>(t, r, c). (t, r)) evs"

lemma event_readers_simps [simp]:
  "event_readers [] = []" "event_readers ((t, r, c) # evs) = (t, r) # event_readers evs"
  "event_readers (evs @ evs') = event_readers evs @ event_readers evs'"
  by (simp_all add: event_readers_def)

lemma remove_card_ok:
  assumes "system m HR HC HE NE evs rs" and "r \<in># HR"
  shows "\<exists>m'. remove_card (Some r) m = Some m' \<and>
    reader_at m' = (reader_at m)(r := map_option (\<lambda>v. v\<lparr>rd_card := None\<rparr>) (reader_at m r)) \<and>
    system m' HR HC HE NE (evs @ [(VEVENT_CARD_REMOVE, Some r, None)]) rs"
  using insert_card_ok [OF assms, of None] by (auto simp: remove_card_def)

lemma insert_mirror_ok:
  assumes "system m HR HC HE NE evs rs" and "r \<in># HR" and "emul_at m r = Some e"
  shows "\<exists>m' c. insert_mirror em (Some r) m = Some m' \<and> (c \<noteq> None \<longleftrightarrow> has_card em (em_slot e)) \<and>
    reader_at m' = (reader_at m)(r := map_option (\<lambda>v. v\<lparr>rd_card := c\<rparr>) (reader_at m r)) \<and>
    system m' HR HC HE NE (evs @ [(if c \<noteq> None then VEVENT_CARD_INSERT else VEVENT_CARD_REMOVE, Some r, c)]) rs"
proof -
  obtain c m1 where m1: "vcard_emul_mirror_card em (Some r) m = Some (c, m1)" "vreaders m1 = vreaders m"
      "system m1 HR (mset_option c + HC) HE NE evs rs" "c \<noteq> None \<longleftrightarrow> has_card em (em_slot e)"
    using mirror_card_ok [OF assms(1,3)] by blast
  let ?evs = "evs @ [(if c \<noteq> None then VEVENT_CARD_INSERT else VEVENT_CARD_REMOVE, Some r, c)]"
  have "set_option c \<subseteq> set_mset (mset_option c + HC)" by (cases c) auto
  from insert_card_ok [OF m1(3) assms(2) this]
  obtain m2 where m2: "vreader_insert_card (Some r) c m1 = Some (VREADER_OK, m2)"
      "reader_at m2 = (reader_at m1)(r := map_option (\<lambda>v. v\<lparr>rd_card := c\<rparr>) (reader_at m1 r))"
      "system m2 HR (mset_option c + HC) HE NE ?evs rs"
    by blast
  have "\<exists>m3. vcard_free c m2 = Some m3 \<and> vreaders m3 = vreaders m2 \<and> system m3 HR HC HE NE ?evs rs"
    using m2(3) free_card_ok [of m2 HR _ HC HE NE ?evs rs] by (cases c) auto
  then obtain m3 where m3: "vcard_free c m2 = Some m3" "vreaders m3 = vreaders m2" "system m3 HR HC HE NE ?evs rs"
    by blast
  have "reader_at m3 = reader_at m2" "reader_at m1 = reader_at m"
    using m3(2) m1(2) by (simp_all add: reader_at_def fun_eq_iff)
  then show ?thesis
    using m1(1,4) m2(1,2) m3(1,3) by (intro exI [of _ m3] exI [of _ c]) (simp add: insert_mirror_def)
qed

lemma set_private_ok:
  assumes "system m HR HC HE NE evs rs" and "emul_at m r = Some e" and "em_saved_vcard (f e) = em_saved_vcard e"
  shows "\<exists>m'. set_private (Some r) f m = Some m' \<and>
    reader_at m' = (reader_at m)(r := map_option (\<lambda>v. v\<lparr>rd_private := Some (f e)\<rparr>) (reader_at m r)) \<and>
    system m' HR HC HE NE evs rs"
proof -
  obtain es l xs where sys: "system_at m HR HC HE NE es evs l xs rs" using assms(1) by (auto simp: system_def)
  obtain v where v: "vreaders m r = Some v" "rd_private v = Some e"
    using assms(2) by (auto simp: emul_at_eq bind_eq_Some_conv)
  let ?m = "m\<lparr>vreaders := (vreaders m)(r \<mapsto> v\<lparr>rd_private := Some (f e)\<rparr>)\<rparr>"
  have "counted ?m HR HC"
    using v(2) assms(3)
    by (intro counted_reader_upd [OF system_atD(1) [OF sys] v(1)]) (simp_all add: saved_card_def)
  then have "system_at ?m HR HC HE NE es evs l xs rs" by (rule system_readers [OF sys])
  moreover have "reader_at ?m = (reader_at m)(r := map_option (\<lambda>v. v\<lparr>rd_private := Some (f e)\<rparr>) (reader_at m r))"
    using v by (auto simp: reader_at_def fun_eq_iff)
  moreover have "set_private (Some r) f m = Some ?m" using v by (simp add: set_private_def)
  ultimately show ?thesis unfolding system_def by auto
qed

section \<open>Tokens and readers\<close>

text \<open>The specification: what an event of its slot does to a reader, and which events it posts.\<close>

definition seen_change :: "'s emulation \<Rightarrow> seen \<Rightarrow> seen \<times> VEventType list" where
  "seen_change em s =
     (let slot = s_slot s; series = PK11_GetSlotSeries (e_tokens em) slot;
          removed = (if s_present s then [VEVENT_CARD_REMOVE] else []) in
      if \<not> PK11_IsPresent (e_tokens em) slot
      then (s\<lparr>s_present := False, s_series := 0, s_card := s_card s \<and> \<not> s_present s\<rparr>, removed)
      else if series = s_series s then (s\<lparr>s_present := True\<rparr>, [])
      else (s\<lparr>s_present := True, s_series := series, s_card := has_card em slot\<rparr>,
            removed @ [if has_card em slot then VEVENT_CARD_INSERT else VEVENT_CARD_REMOVE]))"

lemma maybe_remove_ok:
  assumes "system m HR HC HE NE evs rs" and "r \<in># HR"
  shows "\<exists>m'. (if b then remove_card (Some r) m else Some m) = Some m' \<and>
    reader_at m' = (reader_at m)(r := map_option (\<lambda>v. v\<lparr>rd_card := if b then None else rd_card v\<rparr>) (reader_at m r)) \<and>
    system m' HR HC HE NE (evs @ (if b then [(VEVENT_CARD_REMOVE, Some r, None)] else [])) rs"
proof (cases b)
  case False
  moreover have "map_option (\<lambda>v. v\<lparr>rd_card := rd_card v\<rparr>) (reader_at m r) = reader_at m r"
    by (cases "reader_at m r") simp_all
  ultimately show ?thesis using assms(1) by simp
qed (use remove_card_ok [OF assms] in simp)

lemma token_change_ok:
  assumes "system m HR HC HE NE evs rs" and "r \<in># HR" and "seen_at m r = Some s"
  shows "\<exists>m' evs'. token_change em (Some r) (s_slot s) m = Some m' \<and>
    system m' HR HC HE NE (evs @ evs') rs \<and>
    event_readers evs' = map (\<lambda>t. (t, Some r)) (snd (seen_change em s)) \<and>
    seen_at m' r = Some (fst (seen_change em s)) \<and> (\<forall>q. q \<noteq> r \<longrightarrow> reader_at m' q = reader_at m q)"
proof -
  obtain v e where v: "reader_at m r = Some v" "rd_private v = Some e" "emul_at m r = Some e"
      "s = \<lparr>s_slot = em_slot e, s_present = em_present e, s_series = em_series e, s_card = rd_card v \<noteq> None\<rparr>"
    using assms(3) by (rule seen_atD)
  have private_data: "vreader_get_private (Some r) m = Some (Some e)"
    using v(3) by (auto simp: vreader_get_private_def emul_at_eq bind_eq_Some_conv)
  let ?series = "PK11_GetSlotSeries (e_tokens em) (em_slot e)"
  let ?removed = "if em_present e then [(VEVENT_CARD_REMOVE, Some r, None :: nat option)] else []"
  let ?v = "v\<lparr>rd_card := if em_present e then None else rd_card v\<rparr>"
  obtain m1 where m1: "(if em_present e then remove_card (Some r) m else Some m) = Some m1"
      "reader_at m1 = (reader_at m)(r \<mapsto> ?v)" "system m1 HR HC HE NE (evs @ ?removed) rs"
    using maybe_remove_ok [OF assms(1,2), of "em_present e"] v(1) by auto
  have e1: "emul_at m1 r = Some e" using m1(2) v(2) by (simp add: emul_at_def)
  show ?thesis
  proof (cases "PK11_IsPresent (e_tokens em) (em_slot e)")
    case False
    obtain m2 where m2: "set_private (Some r) (\<lambda>e. e\<lparr>em_series := 0, em_present := False\<rparr>) m1 = Some m2"
        "reader_at m2 = (reader_at m1)(r := map_option (\<lambda>v. v\<lparr>rd_private := Some (e\<lparr>em_series := 0, em_present := False\<rparr>)\<rparr>) (reader_at m1 r))"
        "system m2 HR HC HE NE (evs @ ?removed) rs"
      using set_private_ok [OF m1(3) e1, of "\<lambda>e. e\<lparr>em_series := 0, em_present := False\<rparr>"] by auto
    have "token_change em (Some r) (s_slot s) m = Some m2"
      using private_data v(4) False m1(1) m2(1) by (simp add: token_change_def)
    then show ?thesis
      using m2(2,3) m1(2) v False
      by (intro exI [of _ m2] exI [of _ ?removed]) (simp add: seen_change_def seen_at_def Let_def)
  next
    case True
    show ?thesis
    proof (cases "?series = em_series e")
      case same: True
      obtain m2 where m2: "set_private (Some r) (\<lambda>e. e\<lparr>em_series := ?series, em_present := True\<rparr>) m = Some m2"
          "reader_at m2 = (reader_at m)(r := map_option (\<lambda>v. v\<lparr>rd_private := Some (e\<lparr>em_series := ?series, em_present := True\<rparr>)\<rparr>) (reader_at m r))"
          "system m2 HR HC HE NE evs rs"
        using set_private_ok [OF assms(1) v(3), of "\<lambda>e. e\<lparr>em_series := ?series, em_present := True\<rparr>"] by auto
      have "token_change em (Some r) (s_slot s) m = Some m2"
        using private_data v(4) True same m2(1) by (simp add: token_change_def)
      then show ?thesis
        using m2(2,3) v True same
        by (intro exI [of _ m2] exI [of _ "[]"]) (simp add: seen_change_def seen_at_def Let_def)
    next
      case False
      obtain m2 c where m2: "insert_mirror em (Some r) m1 = Some m2" "c \<noteq> None \<longleftrightarrow> has_card em (em_slot e)"
          "reader_at m2 = (reader_at m1)(r := map_option (\<lambda>v. v\<lparr>rd_card := c\<rparr>) (reader_at m1 r))"
          "system m2 HR HC HE NE ((evs @ ?removed) @
             [(if c \<noteq> None then VEVENT_CARD_INSERT else VEVENT_CARD_REMOVE, Some r, c)]) rs"
        using insert_mirror_ok [OF m1(3) assms(2) e1] by blast
      have e2: "emul_at m2 r = Some e" using m2(3) m1(2) v(2) by (simp add: emul_at_def)
      obtain m3 where m3: "set_private (Some r) (\<lambda>e. e\<lparr>em_series := ?series, em_present := True\<rparr>) m2 = Some m3"
          "reader_at m3 = (reader_at m2)(r := map_option (\<lambda>v. v\<lparr>rd_private := Some (e\<lparr>em_series := ?series, em_present := True\<rparr>)\<rparr>) (reader_at m2 r))"
          "system m3 HR HC HE NE ((evs @ ?removed) @
             [(if c \<noteq> None then VEVENT_CARD_INSERT else VEVENT_CARD_REMOVE, Some r, c)]) rs"
        using set_private_ok [OF m2(4) e2, of "\<lambda>e. e\<lparr>em_series := ?series, em_present := True\<rparr>"] by auto
      have "token_change em (Some r) (s_slot s) m = Some m3"
        using private_data v(4) True False m1(1) m2(1) m3(1) by (simp add: token_change_def)
      then show ?thesis
        using m3(2,3) m2(2,3) m1(2) v True False
        by (intro exI [of _ m3] exI [of _ "?removed @ [(if c \<noteq> None then VEVENT_CARD_INSERT else VEVENT_CARD_REMOVE, Some r, c)]"])
          (auto simp add: seen_change_def seen_at_def Let_def)
    qed
  qed
qed


definition new_seen :: "nat \<Rightarrow> seen" where
  "new_seen slot = \<lparr>s_slot = slot, s_present = False, s_series = 0, s_card = False\<rparr>"

definition position :: "nat \<Rightarrow> seen list \<Rightarrow> nat" where
  "position slot ss = length (takeWhile (\<lambda>s. s_slot s \<noteq> slot) ss)"

text \<open>Readers are numbered by their position in the list.\<close>

definition seen_event :: "nat \<Rightarrow> 's emulation \<Rightarrow> seen list \<Rightarrow> seen list \<times> (VEventType \<times> nat) list" where
  "seen_event slot em ss =
     (let i = position slot ss in
      if i < length ss
      then (ss[i := fst (seen_change em (ss ! i))], map (\<lambda>t. (t, i)) (snd (seen_change em (ss ! i))))
      else (ss @ [new_seen slot], [(VEVENT_READER_INSERT, i)]))"

fun seen_events :: "'s wait list \<Rightarrow> seen list \<Rightarrow> seen list \<times> (VEventType \<times> nat) list" where
  "seen_events [] ss = (ss, [])"
| "seen_events (No_Event # ws) ss = seen_events ws ss"
| "seen_events (Wait_Failed # ws) ss = (ss, [])"
| "seen_events (Token_Event slot em # ws) ss =
     (let (ss, evs) = seen_event slot em ss; (ss, evs') = seen_events ws ss in (ss, evs @ evs'))"

lemma position_le: "position slot ss \<le> length ss"
  by (simp add: position_def length_takeWhile_le)

lemma position_nth: "position slot ss < length ss \<Longrightarrow> s_slot (ss ! position slot ss) = slot"
  unfolding position_def by (rule nth_length_takeWhile [where P = "\<lambda>s. s_slot s \<noteq> slot", simplified])

lemma find_position:
  assumes "map (seen_at m) rs = map Some ss"
  shows "find (\<lambda>r. map_option em_slot (emul_at m r) = Some slot) rs =
    (if position slot ss < length ss then Some (rs ! position slot ss) else None)"
  using assms
proof (induction rs arbitrary: ss)
  case (Cons r rs)
  then obtain s ss' where ss: "ss = s # ss'" "seen_at m r = Some s" "map (seen_at m) rs = map Some ss'"
    by (cases ss) auto
  from ss(2) obtain e where "emul_at m r = Some e" "em_slot e = s_slot s" by (rule seen_atD) simp
  then show ?case using Cons.IH [OF ss(3)] ss(1) by (simp add: position_def)
qed (simp add: position_def)

lemma seen_update:
  assumes "map (seen_at m) rs = map Some ss" and "distinct rs" and "i < length rs"
    and "\<forall>q. q \<noteq> rs ! i \<longrightarrow> q \<in> set rs \<longrightarrow> reader_at m' q = reader_at m q" and "seen_at m' (rs ! i) = Some s"
  shows "map (seen_at m') rs = map Some (ss[i := s])"
proof (rule nth_equalityI)
  show "length (map (seen_at m') rs) = length (map Some (ss[i := s]))"
    using assms(1) [THEN arg_cong, of length] by simp
  fix j assume j: "j < length (map (seen_at m') rs)"
  have len: "length ss = length rs" using assms(1) [THEN arg_cong, of length] by simp
  show "map (seen_at m') rs ! j = map Some (ss[i := s]) ! j"
  proof (cases "j = i")
    case False
    then have "rs ! j \<noteq> rs ! i" using assms(2,3) j by (simp add: nth_eq_iff_index_eq)
    then have "reader_at m' (rs ! j) = reader_at m (rs ! j)" using assms(4) j by simp
    then have "seen_at m' (rs ! j) = seen_at m (rs ! j)" by (rule seen_at_cong)
    also have "\<dots> = Some (ss ! j)"
      using arg_cong [OF assms(1), of "\<lambda>xs. xs ! j"] j len by simp
    finally show ?thesis using False j len by simp
  qed (use assms(3,5) len in simp)
qed

text \<open>A new reader, listed at once.\<close>

lemma new_listed_reader_ok:
  assumes "system m HR HC HE NE evs rs" and "em_saved_vcard e = None"
  shows "\<exists>p m1 m2. vreader_alloc name (Some e) m = (p, m1) \<and> vreader_add_reader (Some p) m1 = Some (VREADER_OK, m2) \<and>
    p \<notin> set rs \<and> reader_at m2 = (reader_at m)(p \<mapsto> \<lparr>rd_reference_count = 0, rd_card = None, rd_name = name,
      rd_id = -1, rd_private = Some e\<rparr>) \<and>
    system m2 (add_mset p HR) HC HE NE (evs @ [(VEVENT_READER_INSERT, Some p, None)]) (rs @ [p])"
proof -
  obtain p m1 where m1: "vreader_alloc name (Some e) m = (p, m1)" "reader_at m p = None"
      "reader_at m1 = (reader_at m)(p \<mapsto> \<lparr>rd_reference_count = 0, rd_card = None, rd_name = name,
        rd_id = -1, rd_private = Some e\<rparr>)" "system m1 (add_mset p HR) HC HE NE evs rs"
    using new_reader_ok [OF assms(1), of "Some e" name] assms(2)
    by (cases "vreader_alloc name (Some e) m") simp
  have "p \<notin> set rs" using system_reader_alive [OF assms(1), of p] m1(2) by (auto simp: reader_at_None)
  then show ?thesis using m1 add_reader_ok [OF m1(4), of p] by auto
qed

text \<open>Giving back the reference to a listed reader leaves the listed readers as they are.\<close>

lemma free_listed_reader_ok:
  assumes "system m (add_mset r HR) HC HE NE evs rs"
  shows "\<exists>m'. vreader_free (Some r) m = Some m' \<and> (\<forall>q \<in> set rs. reader_at m' q = reader_at m q) \<and>
    system m' HR HC HE NE evs rs"
proof -
  obtain m' where m': "vreader_free (Some r) m = Some m'" "readers_kept m m'" "system m' HR HC HE NE evs rs"
    using free_reader_ok [OF assms] by blast
  then show ?thesis using system_reader_alive [OF m'(3)] by (auto simp: readers_kept_def)
qed

lemma slot_event_ok:
  assumes "system m HR HC HE NE evs rs" and "distinct rs" and "map (seen_at m) rs = map Some ss"
  shows "\<exists>m' rs' evs'. slot_event em ty ps slot m = Some m' \<and> system m' HR HC HE NE (evs @ evs') rs' \<and>
    distinct rs' \<and> take (length rs) rs' = rs \<and> map (seen_at m') rs' = map Some (fst (seen_event slot em ss)) \<and>
    event_readers evs' = map (\<lambda>(t, i). (t, Some (rs' ! i))) (snd (seen_event slot em ss)) \<and>
    (\<forall>(t, i) \<in> set (snd (seen_event slot em ss)). i < length rs')"
proof -
  have len: "length ss = length rs" using assms(3) [THEN arg_cong, of length] by simp
  have some: "seen_at m r \<noteq> None" if "r \<in> set rs" for r
  proof -
    have "seen_at m r \<in> set (map Some ss)" using that assms(3) by (metis image_eqI list.set_map)
    then show ?thesis by auto
  qed
  then have "\<forall>r \<in> set rs. emul_at m r \<noteq> None" by (metis not_Some_eq seen_atD)
  from find_vreader_ok [OF assms(1) this, of slot]
  obtain m1 r where m1: "r = (if position slot ss < length ss then Some (rs ! position slot ss) else None)"
      "vcard_emul_find_vreader_from_slot slot m = Some (r, m1)"
      "system m1 (mset_option r + HR) HC HE NE evs rs" "\<forall>r \<in> set rs. reader_at m1 r = reader_at m r"
    unfolding find_position [OF assms(3)] by (auto simp: Let_def)
  have seen1: "map (seen_at m1) rs = map Some ss"
    using assms(3) m1(4) seen_at_cong [of m1 _ m] by (metis (no_types, lifting) map_eq_conv)
  show ?thesis
  proof (cases "position slot ss < length ss")
    case True
    let ?i = "position slot ss"
    have r: "r = Some (rs ! ?i)" and i: "?i < length rs" using m1(1) True len by simp_all
    have s: "seen_at m1 (rs ! ?i) = Some (ss ! ?i)" "s_slot (ss ! ?i) = slot"
      using arg_cong [OF seen1, of "\<lambda>xs. xs ! ?i"] i True by (simp_all add: position_nth)
    have "system m1 (add_mset (rs ! ?i) HR) HC HE NE evs rs" using m1(3) r by simp
    from token_change_ok [OF this _ s(1), of em]
    obtain m2 evs' where m2: "token_change em r slot m1 = Some m2"
        "system m2 (add_mset (rs ! ?i) HR) HC HE NE (evs @ evs') rs"
        "event_readers evs' = map (\<lambda>t. (t, r)) (snd (seen_change em (ss ! ?i)))"
        "seen_at m2 (rs ! ?i) = Some (fst (seen_change em (ss ! ?i)))"
        "\<forall>q. q \<noteq> rs ! ?i \<longrightarrow> reader_at m2 q = reader_at m1 q"
      using s(2) r by auto
    obtain m3 where m3: "vreader_free r m2 = Some m3" "\<forall>q \<in> set rs. reader_at m3 q = reader_at m2 q"
        "system m3 HR HC HE NE (evs @ evs') rs"
      using free_listed_reader_ok [OF m2(2)] r by auto
    then have kept: "reader_at m3 q = reader_at m2 q" if "q \<in> set rs" for q using that by blast
    have "map (seen_at m3) rs = map Some (ss[?i := fst (seen_change em (ss ! ?i))])"
      using m2(4,5) i kept
      by (intro seen_update [OF seen1 assms(2) i]) (simp_all add: seen_at_cong [OF kept])
    moreover have "slot_event em ty ps slot m = Some m3"
      using m1(2) m2(1) m3(1) r by (simp add: slot_event_def)
    ultimately show ?thesis
      using m3(3) assms(2) m2(3) True r i
      by (intro exI [of _ m3] exI [of _ rs] exI [of _ evs']) (simp add: seen_event_def Let_def comp_def)
  next
    case False
    then have pos: "position slot ss = length rs" using position_le [of slot ss] len by simp
    have r: "r = None" using m1(1) False by simp
    let ?name = "PK11_GetSlotName (e_tokens em) slot" and ?e = "vreader_emul_new slot ty ps"
    have sys1: "system m1 HR HC HE NE evs rs" using m1(3) r by simp
    obtain p m2 m3 where m3: "vreader_alloc ?name (Some ?e) m1 = (p, m2)"
        "vreader_add_reader (Some p) m2 = Some (VREADER_OK, m3)" "p \<notin> set rs"
        "reader_at m3 = (reader_at m1)(p \<mapsto> \<lparr>rd_reference_count = 0, rd_card = None, rd_name = ?name,
          rd_id = -1, rd_private = Some ?e\<rparr>)"
        "system m3 (add_mset p HR) HC HE NE (evs @ [(VEVENT_READER_INSERT, Some p, None)]) (rs @ [p])"
      using new_listed_reader_ok [OF sys1, of ?e ?name] by (auto simp: vreader_emul_new_def)
    obtain m4 where m4: "vreader_free (Some p) m3 = Some m4"
        "\<forall>q \<in> set (rs @ [p]). reader_at m4 q = reader_at m3 q"
        "system m4 HR HC HE NE (evs @ [(VEVENT_READER_INSERT, Some p, None)]) (rs @ [p])"
      using free_listed_reader_ok [OF m3(5)] by blast
    then have kept: "reader_at m4 q = reader_at m3 q" if "q \<in> set (rs @ [p])" for q using that by blast
    have "seen_at m4 p = Some (new_seen slot)"
      using kept [of p] m3(4) by (simp add: seen_at_def new_seen_def vreader_emul_new_def)
    moreover have "seen_at m4 q = seen_at m1 q" if "q \<in> set rs" for q
    proof -
      have "q \<noteq> p" using that m3(3) by auto
      then have "reader_at m4 q = reader_at m1 q" using kept [of q] that m3(4) by simp
      then show ?thesis by (rule seen_at_cong)
    qed
    then have "map (seen_at m4) rs = map Some ss" using seen1 by (metis (no_types, lifting) map_eq_conv)
    moreover have "slot_event em ty ps slot m = Some m4"
      using m1(2) r m3(1,2) m4(1) by (simp add: slot_event_def new_slot_reader_def)
    ultimately show ?thesis
      using m4(3) assms(2) m3(3) False pos
      by (intro exI [of _ m4] exI [of _ "rs @ [p]"] exI [of _ "[(VEVENT_READER_INSERT, Some p, None)]"])
        (simp add: seen_event_def Let_def nth_append)
  qed
qed

lemma event_thread_ok:
  assumes "system m HR HC HE NE evs rs" and "distinct rs" and "map (seen_at m) rs = map Some ss"
  shows "\<exists>m' rs' evs'. vcard_emul_event_thread ty ps ws m = Some m' \<and> system m' HR HC HE NE (evs @ evs') rs' \<and>
    distinct rs' \<and> take (length rs) rs' = rs \<and> map (seen_at m') rs' = map Some (fst (seen_events ws ss)) \<and>
    event_readers evs' = map (\<lambda>(t, i). (t, Some (rs' ! i))) (snd (seen_events ws ss))"
  using assms
proof (induction ws ss arbitrary: m evs rs rule: seen_events.induct)
  case (1 ss)
  then show ?case by (intro exI [of _ m] exI [of _ rs] exI [of _ "[]"]) simp
next
  case (3 ws ss)
  then show ?case by (intro exI [of _ m] exI [of _ rs] exI [of _ "[]"]) simp
next
  case (4 slot em ws ss)
  obtain ss1 sevs where se: "seen_event slot em ss = (ss1, sevs)" by (cases "seen_event slot em ss")
  obtain m1 rs1 evs1 where m1: "slot_event em ty ps slot m = Some m1" "system m1 HR HC HE NE (evs @ evs1) rs1"
      "distinct rs1" "take (length rs) rs1 = rs" "map (seen_at m1) rs1 = map Some ss1"
      "event_readers evs1 = map (\<lambda>(t, i). (t, Some (rs1 ! i))) sevs" "\<forall>(t, i) \<in> set sevs. i < length rs1"
    using slot_event_ok [OF 4(2-4), of em ty ps slot] se by auto
  obtain ss2 sevs2 where se2: "seen_events ws ss1 = (ss2, sevs2)" by (cases "seen_events ws ss1")
  obtain m2 rs2 evs2 where m2: "vcard_emul_event_thread ty ps ws m1 = Some m2"
      "system m2 HR HC HE NE ((evs @ evs1) @ evs2) rs2" "distinct rs2" "take (length rs1) rs2 = rs1"
      "map (seen_at m2) rs2 = map Some ss2" "event_readers evs2 = map (\<lambda>(t, i). (t, Some (rs2 ! i))) sevs2"
    using 4(1) [OF se [symmetric] refl m1(2,3,5)] se2 by auto
  have "rs2 ! i = rs1 ! i" if "i < length rs1" for i using that m2(4) by (metis nth_take)
  then have "map (\<lambda>(t, i). (t, Some (rs1 ! i))) sevs = map (\<lambda>(t, i). (t, Some (rs2 ! i))) sevs"
    using m1(7) by auto
  moreover have "take (length rs) rs2 = rs"
  proof -
    have "length rs \<le> length rs1" using m1(4) by (metis length_take min.cobounded2 min_def nat_le_linear)
    then have "take (length rs) (take (length rs1) rs2) = take (length rs) rs2" by simp
    then show ?thesis using m2(4) m1(4) by simp
  qed
  ultimately show ?case
    using m1(1,6) m2 se se2
    by (intro exI [of _ m2] exI [of _ rs2] exI [of _ "evs1 @ evs2"]) simp
qed simp_all


section \<open>Properties\<close>

lemma start_system: "system (vevent_queue_init (vreader_init empty_memory)) {#} {#} {} {} [] []"
  using start_client_ok by (simp add: client_ok_def start_client_def)

text \<open>Two tokens for the examples: one certificate, in a slot that is removed and inserted.\<close>

definition example_emulation :: "bool \<Rightarrow> int \<Rightarrow> bool emulation" where
  "example_emulation present series = \<lparr>e_nss = demo_nss, e_sha256 = (\<lambda>_. None),
     e_tokens = \<lparr>FindGenericObjects_cert = (\<lambda>_. [(Some [0x30, 0], Some [1])]),
       CERT_NewTempCertificate = (\<lambda>der. Some (length der, der)),
       SECITEM_CompareItem = key length comparator_nat, PK11_IsPresent = (\<lambda>_. present),
       PK11_GetSlotSeries = (\<lambda>_. series), PK11_GetSlotName = (\<lambda>_. ''slot''), slot_token = (\<lambda>_. False)\<rparr>\<rparr>"

text \<open>C11: The event thread follows the tokens. Whatever slots it is told about, in any order, it follows no
  null or freed pointer and keeps every reference count right, and the readers and the events it
  posts are those of \<open>seen_events\<close>: a slot without a reader gets a new one; a token with another series
  than the last replaces the card, announced as a removal (if there was a token) and an insertion; a slot
  without a token loses its card. Readers are never removed.\<close>

theorem event_thread_refines:
  assumes "system m HR HC HE NE evs rs" and "distinct rs" and "map (seen_at m) rs = map Some ss"
  shows "\<exists>m' rs' evs'. vcard_emul_event_thread ty ps ws m = Some m' \<and> system m' HR HC HE NE (evs @ evs') rs' \<and>
    take (length rs) rs' = rs \<and> map (seen_at m') rs' = map Some (fst (seen_events ws ss)) \<and>
    event_readers evs' = map (\<lambda>(t, i). (t, Some (rs' ! i))) (snd (seen_events ws ss))"
  using event_thread_ok [OF assms] by blast

definition example_waits :: "bool wait list" where
  "example_waits = [Token_Event 3 (example_emulation True 1), Token_Event 3 (example_emulation True 1), No_Event,
     Token_Event 3 (example_emulation True 1), Token_Event 3 (example_emulation True 2),
     Token_Event 3 (example_emulation False 0), Wait_Failed]"

lemma example_waits_seen:
  "seen_events example_waits [] = ([\<lparr>s_slot = 3, s_present = False, s_series = 0, s_card = False\<rparr>],
     [(VEVENT_READER_INSERT, 0), (VEVENT_CARD_INSERT, 0), (VEVENT_CARD_REMOVE, 0), (VEVENT_CARD_INSERT, 0),
      (VEVENT_CARD_REMOVE, 0)])"
  by (simp add: example_waits_def seen_event_def seen_change_def new_seen_def position_def has_card_def
      example_emulation_def Let_def)

theorem event_thread_refines_witness:
  "\<exists>m' r evs. vcard_emul_event_thread VCARD_EMUL_CAC None example_waits (vevent_queue_init (vreader_init empty_memory)) = Some m' \<and>
     system m' {#} {#} {} {} evs [r] \<and> event_readers evs = [(VEVENT_READER_INSERT, Some r), (VEVENT_CARD_INSERT, Some r),
       (VEVENT_CARD_REMOVE, Some r), (VEVENT_CARD_INSERT, Some r), (VEVENT_CARD_REMOVE, Some r)]"
proof -
  obtain m' rs evs where r: "vcard_emul_event_thread VCARD_EMUL_CAC None example_waits (vevent_queue_init (vreader_init empty_memory)) = Some m'"
      "system m' {#} {#} {} {} evs rs" "map (seen_at m') rs = map Some (fst (seen_events example_waits []))"
      "event_readers evs = map (\<lambda>(t, i). (t, Some (rs ! i))) (snd (seen_events example_waits []))"
    using event_thread_refines [OF start_system, of "[]" VCARD_EMUL_CAC None example_waits] by auto
  then have "length rs = 1"
    using arg_cong [OF r(3), of length] unfolding example_waits_seen length_map by simp
  then obtain p where "rs = [p]" by (auto simp: length_Suc_conv)
  then have "system m' {#} {#} {} {} evs [p]" "event_readers evs = [(VEVENT_READER_INSERT, Some p), (VEVENT_CARD_INSERT, Some p),
       (VEVENT_CARD_REMOVE, Some p), (VEVENT_CARD_INSERT, Some p), (VEVENT_CARD_REMOVE, Some p)]"
    using r(2,4) by (simp_all add: example_waits_seen)
  then show ?thesis using r(1) by blast
qed

definition seen_ok :: "seen list \<Rightarrow> bool" where
  "seen_ok ss \<longleftrightarrow> distinct (map s_slot ss) \<and> (\<forall>s \<in> set ss. s_card s \<longrightarrow> s_present s)"

lemma seen_change_slot: "s_slot (fst (seen_change em s)) = s_slot s"
  by (simp add: seen_change_def Let_def)

lemma seen_change_card:
  "(s_card s \<longrightarrow> s_present s) \<Longrightarrow> s_card (fst (seen_change em s)) \<longrightarrow> s_present (fst (seen_change em s))"
  by (auto simp add: seen_change_def Let_def)

lemma seen_event_inv:
  assumes "seen_ok ss"
  shows "seen_ok (fst (seen_event slot em ss))"
proof (cases "position slot ss < length ss")
  case True
  let ?i = "position slot ss"
  have "map s_slot (ss[?i := fst (seen_change em (ss ! ?i))]) = map s_slot ss"
    using list_update_id [of "map s_slot ss" ?i] True by (simp add: map_update seen_change_slot)
  moreover have "s_card s \<longrightarrow> s_present s" if "s \<in> set (ss[?i := fst (seen_change em (ss ! ?i))])" for s
    using set_update_subset_insert [THEN subsetD, OF that] seen_change_card [of "ss ! ?i" em] assms True
    by (auto simp: seen_ok_def)
  ultimately show ?thesis using assms True by (simp add: seen_event_def seen_ok_def Let_def)
next
  case False
  then have "length (takeWhile (\<lambda>s. s_slot s \<noteq> slot) ss) = length ss"
    using position_le [of slot ss] by (simp add: position_def)
  then have "takeWhile (\<lambda>s. s_slot s \<noteq> slot) ss = ss"
    by (metis takeWhile_eq_take take_all order_refl)
  then have "slot \<notin> s_slot ` set ss" by (auto simp: takeWhile_eq_all_conv)
  then show ?thesis using assms False by (auto simp: seen_event_def seen_ok_def new_seen_def Let_def)
qed

lemma seen_events_inv: "seen_ok ss \<Longrightarrow> seen_ok (fst (seen_events ws ss))"
proof (induction ws ss rule: seen_events.induct)
  case (4 slot em ws ss)
  then show ?case using seen_event_inv [of ss slot em] by (cases "seen_event slot em ss") (simp add: split_def Let_def)
qed simp_all



end
