(* ===== verification/Emul_Force.thy ===== *)
theory Emul_Force
  imports Emul_Readers
begin

text \<open>
  Removing a card of a reader by force and inserting it again, and replaying the insertions for a new
  client, in \<open>src/vcard_emul_nss.c\<close>. A software card is saved in its reader, so that it can be inserted
  again; the lemmas show that this gives it back, without losing a reference.
\<close>


section \<open>Removing and inserting a card by force\<close>

datatype VCardEmulError = VCARD_EMUL_OK | VCARD_EMUL_FAIL | VCARD_EMUL_INIT_ALREADY_INITED

definition vcard_emul_force_card_remove ::
  "bool \<Rightarrow> nat option \<Rightarrow> 'c memory \<Rightarrow> (VCardEmulError \<times> 'c memory) option" where
  "vcard_emul_force_card_remove initialized vreader m =
     (if \<not> initialized then Some (VCARD_EMUL_FAIL, m)
      else do {
        (st, m) \<leftarrow> vreader_card_is_present vreader m;
        if st \<noteq> VREADER_OK then Some (VCARD_EMUL_FAIL, m)
        else do {
          (st, m) \<leftarrow> vreader_insert_card vreader None m;
          Some (VCARD_EMUL_OK, m)
        }
      })"

definition vcard_emul_force_card_insert ::
  "'s emulation \<Rightarrow> bool \<Rightarrow> nat option \<Rightarrow> 's emul_memory \<Rightarrow> (VCardEmulError \<times> 's emul_memory) option" where
  "vcard_emul_force_card_insert em initialized vreader m =
     (if \<not> initialized then Some (VCARD_EMUL_FAIL, m)
      else do {
        (st, m) \<leftarrow> vreader_card_is_present vreader m;
        if st = VREADER_OK then Some (VCARD_EMUL_FAIL, m)
        else do {
          private_data \<leftarrow> vreader_get_private vreader m;
          vreader_emul \<leftarrow> private_data;
          if em_saved_vcard vreader_emul = None \<and> \<not> PK11_IsPresent (e_tokens em) (em_slot vreader_emul)
          then Some (VCARD_EMUL_FAIL, m)
          else do {
            (vcard, m) \<leftarrow> (if em_saved_vcard vreader_emul \<noteq> None
              then vcard_reference (em_saved_vcard vreader_emul) m
              else vcard_emul_mirror_card em vreader m);
            (st, m) \<leftarrow> vreader_insert_card vreader vcard m;
            m \<leftarrow> vcard_free vcard m;
            Some (VCARD_EMUL_OK, m)
          }
        }
      })"

lemma reader_at_card: "reader_at m r = Some v \<Longrightarrow> vreaders m r = Some w \<Longrightarrow> rd_card w = rd_card v"
  by (auto simp: reader_at_def)

lemma force_remove_ok:
  assumes "system m HR HC HE NE evs rs" and "r \<in># HR" and "reader_at m r = Some v" and "rd_card v \<noteq> None"
  shows "\<exists>m'. vcard_emul_force_card_remove True (Some r) m = Some (VCARD_EMUL_OK, m') \<and>
    reader_at m' = (reader_at m)(r \<mapsto> v\<lparr>rd_card := None\<rparr>) \<and>
    system m' HR HC HE NE (evs @ [(VEVENT_CARD_REMOVE, Some r, None)]) rs"
proof -
  have "vreader_card_is_present (Some r) m = Some (VREADER_OK, m)"
    using card_is_present_ok [OF assms(1,2)] assms(3,4) by (auto simp: reader_at_def)
  then show ?thesis
    using insert_card_ok [OF assms(1,2), of None] assms(3) by (auto simp: vcard_emul_force_card_remove_def)
qed

lemma card_reference_ok:
  assumes "system m HR HC HE NE evs rs" and "c \<in># card_refs m + HC"
  shows "\<exists>m'. vcard_reference (Some c) m = Some (Some c, m') \<and> vreaders m' = vreaders m \<and>
    system m' HR (add_mset c HC) HE NE evs rs"
proof -
  obtain es l xs where sys: "system_at m HR HC HE NE es evs l xs rs" using assms(1) by (auto simp: system_def)
  show ?thesis
    using vcard_reference_ok [OF system_atD(1) [OF sys] assms(2)] system_links [OF sys] unfolding system_def by blast
qed

lemma saved_card_reference:
  assumes "system m HR HC HE NE evs rs" and "emul_at m r = Some e" and "em_saved_vcard e = Some c"
  shows "\<exists>m'. vcard_reference (Some c) m = Some (Some c, m') \<and> vreaders m' = vreaders m \<and>
    system m' HR (add_mset c HC) HE NE evs rs"
proof -
  obtain es l xs where sys: "system_at m HR HC HE NE es evs l xs rs" using assms(1) by (auto simp: system_def)
  note s = system_atD(1) [OF sys]
  obtain v where v: "vreaders m r = Some v" "saved_card v = Some c"
    using assms(2,3) by (auto simp: emul_at_eq bind_eq_Some_conv saved_card_def)
  then have "c \<in># card_refs m + HC"
    using refs_in [OF countedD(5) [OF s], of r v saved_card] by (simp add: card_refs_def)
  then show ?thesis by (rule card_reference_ok [OF assms(1)])
qed

lemma force_insert_saved:
  assumes "system m HR HC HE NE evs rs" and "r \<in># HR" and "reader_at m r = Some v" and "rd_card v = None"
    and "rd_private v = Some e" and "em_saved_vcard e = Some c"
  shows "\<exists>m'. vcard_emul_force_card_insert em True (Some r) m = Some (VCARD_EMUL_OK, m') \<and>
    reader_at m' = (reader_at m)(r \<mapsto> v\<lparr>rd_card := Some c\<rparr>) \<and>
    system m' HR HC HE NE (evs @ [(VEVENT_CARD_INSERT, Some r, Some c)]) rs"
proof -
  have e: "emul_at m r = Some e" using assms(3,5) by (simp add: emul_at_def)
  have p: "vreader_card_is_present (Some r) m = Some (VREADER_NO_CARD, m)"
    using card_is_present_ok [OF assms(1,2)] assms(3,4) by (auto simp: reader_at_def)
  have d: "vreader_get_private (Some r) m = Some (Some e)"
    using e by (auto simp: vreader_get_private_def emul_at_eq bind_eq_Some_conv)
  obtain m1 where m1: "vcard_reference (Some c) m = Some (Some c, m1)" "vreaders m1 = vreaders m"
      "system m1 HR (add_mset c HC) HE NE evs rs"
    using saved_card_reference [OF assms(1) e assms(6)] by blast
  obtain m2 where m2: "vreader_insert_card (Some r) (Some c) m1 = Some (VREADER_OK, m2)"
      "reader_at m2 = (reader_at m1)(r := map_option (\<lambda>v. v\<lparr>rd_card := Some c\<rparr>) (reader_at m1 r))"
      "system m2 HR (add_mset c HC) HE NE (evs @ [(VEVENT_CARD_INSERT, Some r, Some c)]) rs"
    using insert_card_ok [OF m1(3) assms(2), of "Some c"] by auto
  obtain m3 where m3: "vcard_free (Some c) m2 = Some m3" "vreaders m3 = vreaders m2"
      "system m3 HR HC HE NE (evs @ [(VEVENT_CARD_INSERT, Some r, Some c)]) rs"
    using free_card_ok [OF m2(3)] by blast
  have "reader_at m3 = reader_at m2" "reader_at m1 = reader_at m"
    using m3(2) m1(2) by (simp_all add: reader_at_def fun_eq_iff)
  then show ?thesis
    using p d m1(1) m2(1,2) m3(1,3) assms(3,6) by (simp add: vcard_emul_force_card_insert_def)
qed

lemma force_insert_present:
  assumes "system m HR HC HE NE evs rs" and "r \<in># HR" and "reader_at m r = Some v" and "rd_card v \<noteq> None"
  shows "vcard_emul_force_card_insert em True (Some r) m = Some (VCARD_EMUL_FAIL, m)"
  using card_is_present_ok [OF assms(1,2)] assms(3,4)
  by (auto simp: reader_at_def vcard_emul_force_card_insert_def)

text \<open>Telling a new client about the cards: one event per reader. Each reader the loop gets from the
  list is a reference it does not give back.\<close>

partial_function (option) replay_loop :: "nat option \<Rightarrow> 'c memory \<Rightarrow> 'c memory option" where
  "replay_loop current_entry m =
     (if current_entry = None then Some m
      else do {
        (vreader, m) \<leftarrow> vreader_list_get_reader current_entry m;
        next_entry \<leftarrow> vreader_list_get_next current_entry m;
        m \<leftarrow> vreader_queue_card_event vreader m;
        replay_loop next_entry m
      })"

definition vcard_emul_replay_insertion_events :: "'c memory \<Rightarrow> 'c memory option" where
  "vcard_emul_replay_insertion_events m = do {
     (list, m) \<leftarrow> vreader_get_reader_list m;
     current_entry \<leftarrow> vreader_list_get_first (Some list) m;
     m \<leftarrow> replay_loop current_entry m;
     vreader_list_delete (Some list) m
   }"

definition card_event :: "'c memory \<Rightarrow> nat \<Rightarrow> VEventType \<times> nat option \<times> nat option" where
  "card_event m r = (let c = Option.bind (reader_at m r) rd_card in
     (if c \<noteq> None then VEVENT_CARD_INSERT else VEVENT_CARD_REMOVE, Some r, c))"

lemma replay_loop_ok:
  assumes "system_at m HR HC HE NE es evs l xs rs" and "chain (entry_nexts (ventries m)) zs None"
    and "map (entry_reader (ventries m)) zs = map Some qs"
  shows "\<exists>m' es'. replay_loop (start zs None) m = Some m' \<and> reader_at m' = reader_at m \<and> same_lists m m' \<and>
    system_at m' (mset qs + HR) HC HE NE es' (evs @ map (card_event m) qs) l xs rs"
  using assms
proof (induction zs arbitrary: m HR es evs qs)
  case Nil
  then show ?case by (auto simp: replay_loop.simps same_lists_def)
next
  case (Cons z zs)
  then obtain r ps where qs: "qs = r # ps" by (cases qs) auto
  obtain n where n: "ventries m z = Some n" "en_reader n = Some r"
    using Cons.prems(3) qs by (auto simp: entry_reader_def bind_eq_Some_conv)
  note s = system_atD(1) [OF Cons.prems(1)]
  have "r \<in># reader_refs m + HR"
    using refs_in [OF countedD(4) [OF s] n(1), of en_reader] n(2) by (simp add: reader_refs_def)
  then obtain m1 where m1: "vreader_reference (Some r) m = Some (Some r, m1)" "counted m1 (add_mset r HR) HC"
      "same_links m m1" "reader_at m1 = reader_at m"
    using vreader_reference_ok [OF s] reader_at_reference by metis
  have sys1: "system_at m1 (add_mset r HR) HC HE NE es evs l xs rs"
    by (rule system_links [OF Cons.prems(1) m1(3,2)])
  obtain v where v: "vreaders m1 r = Some v"
    using count_okD [OF countedD(1) [OF m1(2)], of r] by auto
  obtain m2 e where m2: "vreader_queue_card_event (Some r) m1 = Some m2" "reader_at m2 = reader_at m1"
      "system_at m2 (add_mset r HR) HC HE NE (es @ [e]) (evs @ [(if rd_card v \<noteq> None then VEVENT_CARD_INSERT
        else VEVENT_CARD_REMOVE, Some r, rd_card v)]) l xs rs" "same_lists m1 m2"
    using queue_card_event_ok [OF sys1 _ v] by auto
  have ev: "card_event m r = (if rd_card v \<noteq> None then VEVENT_CARD_INSERT else VEVENT_CARD_REMOVE, Some r, rd_card v)"
    using v m1(4) [symmetric] by (simp add: card_event_def reader_at_def)
  have nodes: "ventries m1 = ventries m" "ventries m2 = ventries m"
    using m1(3) m2(4) by (simp_all add: same_links_def same_lists_def)
  have ch: "chain (entry_nexts (ventries m2)) zs None" "map (entry_reader (ventries m2)) zs = map Some ps"
    using Cons.prems(2,3) qs nodes by auto
  obtain m3 es' where m3: "replay_loop (start zs None) m2 = Some m3" "reader_at m3 = reader_at m2" "same_lists m2 m3"
      "system_at m3 (mset ps + add_mset r HR) HC HE NE es' ((evs @ [card_event m r]) @ map (card_event m2) ps) l xs rs"
    using Cons.IH [OF m2(3) ch] ev by auto
  have "vreader_list_get_next (Some z) m1 = Some (start zs None)"
    using get_next_chain [of m1 z zs None] Cons.prems(2) nodes by simp
  then have "replay_loop (start (z # zs) None) m = Some m3"
    using n m1(1) m2(1) m3(1) by (subst replay_loop.simps) (simp del: vreader_list_get_next.simps)
  moreover have "card_event m2 = card_event m" using m2(2) m1(4) by (simp add: card_event_def fun_eq_iff)
  ultimately show ?case
    using m3(2-4) m2(2,4) m1(3,4) qs
    by (intro exI [of _ m3] exI [of _ es']) (simp add: same_lists_def same_links_def)
qed

text \<open>A reference that was counted for the caller becomes that of the reader to its saved card.\<close>

lemma save_card_ok:
  assumes "system m HR (add_mset c HC) HE NE evs rs" and "emul_at m r = Some e" and "em_saved_vcard e = None"
  shows "\<exists>m'. set_private (Some r) (\<lambda>e. e\<lparr>em_saved_vcard := Some c\<rparr>) m = Some m' \<and>
    reader_at m' = (reader_at m)(r := map_option (\<lambda>v. v\<lparr>rd_private := Some (e\<lparr>em_saved_vcard := Some c\<rparr>)\<rparr>) (reader_at m r)) \<and>
    system m' HR HC HE NE evs rs"
proof -
  obtain es l xs where sys: "system_at m HR (add_mset c HC) HE NE es evs l xs rs"
    using assms(1) by (auto simp: system_def)
  obtain v where v: "vreaders m r = Some v" "rd_private v = Some e"
    using assms(2) by (auto simp: emul_at_eq bind_eq_Some_conv)
  let ?w = "v\<lparr>rd_private := Some (e\<lparr>em_saved_vcard := Some c\<rparr>)\<rparr>"
  let ?m = "m\<lparr>vreaders := (vreaders m)(r \<mapsto> ?w)\<rparr>"
  have "counted ?m HR HC"
    using v(2) assms(3)
    by (intro counted_reader_upd [OF system_atD(1) [OF sys] v(1)]) (simp_all add: saved_card_def)
  then have "system_at ?m HR HC HE NE es evs l xs rs" by (rule system_readers [OF sys])
  moreover have "reader_at ?m = (reader_at m)(r := map_option (\<lambda>v. v\<lparr>rd_private := Some (e\<lparr>em_saved_vcard := Some c\<rparr>)\<rparr>) (reader_at m r))"
    using v by (auto simp: reader_at_def fun_eq_iff)
  moreover have "set_private (Some r) (\<lambda>e. e\<lparr>em_saved_vcard := Some c\<rparr>) m = Some ?m"
    using v by (simp add: set_private_def)
  ultimately show ?thesis unfolding system_def by auto
qed

section \<open>Properties\<close>

text \<open>C21: Removing a software card by force and inserting it again gives the reader its card back, announced by
  a removal and an insertion; no reference is lost, and doing either twice is refused.\<close>

theorem soft_card_reinserted:
  assumes "system m HR HC HE NE evs rs" and "r \<in># HR" and "reader_at m r = Some v" and "rd_card v = Some c"
    and "rd_private v = Some e" and "em_saved_vcard e = Some c"
  shows "\<exists>m1 m2. vcard_emul_force_card_remove True (Some r) m = Some (VCARD_EMUL_OK, m1) \<and>
    vcard_emul_force_card_remove True (Some r) m1 = Some (VCARD_EMUL_FAIL, m1) \<and>
    vcard_emul_force_card_insert em True (Some r) m1 = Some (VCARD_EMUL_OK, m2) \<and>
    vcard_emul_force_card_insert em True (Some r) m2 = Some (VCARD_EMUL_FAIL, m2) \<and>
    reader_at m2 = reader_at m \<and>
    system m2 HR HC HE NE (evs @ [(VEVENT_CARD_REMOVE, Some r, None), (VEVENT_CARD_INSERT, Some r, Some c)]) rs"
proof -
  obtain m1 where m1: "vcard_emul_force_card_remove True (Some r) m = Some (VCARD_EMUL_OK, m1)"
      "reader_at m1 = (reader_at m)(r \<mapsto> v\<lparr>rd_card := None\<rparr>)"
      "system m1 HR HC HE NE (evs @ [(VEVENT_CARD_REMOVE, Some r, None)]) rs"
    using force_remove_ok [OF assms(1-3)] assms(4) by auto
  have again: "vcard_emul_force_card_remove True (Some r) m1 = Some (VCARD_EMUL_FAIL, m1)"
    using card_is_present_ok [OF m1(3) assms(2)] reader_at_card [of m1 r "v\<lparr>rd_card := None\<rparr>"] m1(2)
    by (auto simp: vcard_emul_force_card_remove_def)
  obtain m2 where m2: "vcard_emul_force_card_insert em True (Some r) m1 = Some (VCARD_EMUL_OK, m2)"
      "reader_at m2 = (reader_at m1)(r \<mapsto> v\<lparr>rd_card := Some c\<rparr>)"
      "system m2 HR HC HE NE ((evs @ [(VEVENT_CARD_REMOVE, Some r, None)]) @ [(VEVENT_CARD_INSERT, Some r, Some c)]) rs"
    using force_insert_saved [OF m1(3) assms(2), of "v\<lparr>rd_card := None\<rparr>" e c em] m1(2) assms(5,6) by auto
  have "v\<lparr>rd_card := Some c\<rparr> = v" using assms(4) by simp
  then have "reader_at m2 = reader_at m" using m2(2) m1(2) assms(3) by (simp add: fun_upd_idem)
  moreover have "vcard_emul_force_card_insert em True (Some r) m2 = Some (VCARD_EMUL_FAIL, m2)"
    using force_insert_present [OF m2(3) assms(2), of v] calculation assms(3,4) by simp
  ultimately show ?thesis using m1(1) again m2(1,3) by auto
qed


lemma example_soft_card:
  "\<exists>(m :: bool emul_memory) r v c e evs. system m {#r#} {#} {} {} evs [r] \<and> reader_at m r = Some v \<and>
     rd_card v = Some c \<and> rd_private v = Some e \<and> em_saved_vcard e = Some c"
proof -
  let ?e = "vreader_emul_new 3 VCARD_EMUL_CAC None"
  let ?v = "\<lparr>rd_reference_count = 0, rd_card = None, rd_name = ''r'', rd_id = -1, rd_private = Some ?e\<rparr>"
  have "em_saved_vcard ?e = None" by (simp add: vreader_emul_new_def)
  from new_listed_reader_ok [OF start_system this, of "''r''"]
  obtain r and m2 :: "bool emul_memory" where m2: "reader_at m2 r = Some ?v"
      "system m2 {#r#} {#} {} {} [(VEVENT_READER_INSERT, Some r, None)] [r]"
    by (metis append_Nil fun_upd_same)
  let ?card = "vcard_new False"
  obtain c m3 where m3: "vcard_alloc ?card m2 = (c, m3)" "vreaders m3 = vreaders m2"
      "system m3 {#r#} {#c#} {} {} [(VEVENT_READER_INSERT, Some r, None)] [r]"
    using new_card_ok [OF m2(2), of ?card] by (cases "vcard_alloc ?card m2") auto
  have "r \<in># {#r#}" "set_option (Some c) \<subseteq> set_mset {#c#}" by simp_all
  from insert_card_ok [OF m3(3) this]
  obtain m4 :: "bool emul_memory" where m4: "reader_at m4 = (reader_at m3)(r := map_option (\<lambda>v. v\<lparr>rd_card := Some c\<rparr>) (reader_at m3 r))"
      "system m4 {#r#} {#c#} {} {} ([(VEVENT_READER_INSERT, Some r, None)] @
        [(if Some c \<noteq> None then VEVENT_CARD_INSERT else VEVENT_CARD_REMOVE, Some r, Some c)]) [r]"
    by blast
  have "reader_at m3 = reader_at m2" using m3(2) by (simp add: reader_at_def fun_eq_iff)
  then have v: "reader_at m4 r = Some \<lparr>rd_reference_count = 0, rd_card = Some c, rd_name = ''r'', rd_id = -1, rd_private = Some ?e\<rparr>"
    using m2(1) m4(1) by simp
  then have e: "emul_at m4 r = Some ?e" by (simp add: emul_at_def)
  obtain m5 :: "bool emul_memory" where "reader_at m5 = (reader_at m4)(r := map_option (\<lambda>v. v\<lparr>rd_private := Some (?e\<lparr>em_saved_vcard := Some c\<rparr>)\<rparr>) (reader_at m4 r))"
      "system m5 {#r#} {#} {} {} ([(VEVENT_READER_INSERT, Some r, None)] @
        [(if Some c \<noteq> None then VEVENT_CARD_INSERT else VEVENT_CARD_REMOVE, Some r, Some c)]) [r]"
    using save_card_ok [OF m4(2) e] \<open>em_saved_vcard ?e = None\<close> by blast
  then show ?thesis using v
    by (intro exI [of _ m5] exI [of _ r] exI [of _ "\<lparr>rd_reference_count = 0, rd_card = Some c, rd_name = ''r'', rd_id = -1,
        rd_private = Some (?e\<lparr>em_saved_vcard := Some c\<rparr>)\<rparr>"] exI [of _ c] exI [of _ "?e\<lparr>em_saved_vcard := Some c\<rparr>"] exI) auto
qed

theorem soft_card_reinserted_witness:
  "\<exists>(m :: bool emul_memory) m1 m2 r. reader_at m r \<noteq> None \<and>
     vcard_emul_force_card_remove True (Some r) m = Some (VCARD_EMUL_OK, m1) \<and>
     vcard_emul_force_card_insert (example_emulation False 0) True (Some r) m1 = Some (VCARD_EMUL_OK, m2) \<and>
     reader_at m2 = reader_at m"
proof -
  obtain m :: "bool emul_memory" and r v c e evs where m: "system m {#r#} {#} {} {} evs [r]" "reader_at m r = Some v"
      "rd_card v = Some c" "rd_private v = Some e" "em_saved_vcard e = Some c"
    using example_soft_card by blast
  have "r \<in># {#r#}" by simp
  from soft_card_reinserted [OF m(1) this m(2-5), of "example_emulation False 0"] m(2) show ?thesis
    by (metis option.distinct(1))
qed

text \<open>C23: Replaying the events ends and tells about every reader. The loop over the copied list of readers, which queues
  events as it goes, reaches the end of the list whatever the readers, cards and pending events are; behind the
  pending events there is then one event per reader, in the order of the list, that says whether it has
  a card; the readers are as before, each with one reference more that nobody gives back.\<close>

theorem replay_tells_all:
  assumes "system m HR HC HE NE evs rs"
  shows "\<exists>m'. vcard_emul_replay_insertion_events m = Some m' \<and> (\<forall>r \<in> set rs. reader_at m' r = reader_at m r) \<and>
    system m' (mset rs + HR) HC HE NE (evs @ map (card_event m) rs) rs"
proof -
  obtain es l xs where sys: "system_at m HR HC HE NE es evs l xs rs" using assms(1) by (auto simp: system_def)
  obtain k m1 zs where m1: "vreader_get_reader_list m = Some (k, m1)" "k \<noteq> l" "list_at m1 k zs rs"
      "set zs \<inter> (set xs \<union> NE) = {}" "readers_kept m m1" "system_at m1 HR HC HE (NE \<union> set zs) es evs l xs rs"
    using get_reader_list_ok [OF sys] by blast
  have "system m1 HR HC HE (NE \<union> set zs) evs rs" using m1(6) by (auto simp: system_def)
  from system_reader_alive [OF this] m1(5)
  have kept: "reader_at m1 r = reader_at m r" if "r \<in> set rs" for r
    using that by (auto simp: readers_kept_def)
  have first: "vreader_list_get_first (Some k) m1 = Some (start zs None)"
    using m1(3) by (simp add: list_at_def)
  have ch: "chain (entry_nexts (ventries m1)) zs None" "map (entry_reader (ventries m1)) zs = map Some rs"
    using m1(3) by (auto simp: list_at_def entries_ok_def)
  obtain m2 es' where m2: "replay_loop (start zs None) m1 = Some m2" "reader_at m2 = reader_at m1" "same_lists m1 m2"
      "system_at m2 (mset rs + HR) HC HE (NE \<union> set zs) es' (evs @ map (card_event m1) rs) l xs rs"
    using replay_loop_ok [OF m1(6) ch] by blast
  have "list_at m2 k zs rs" using m1(3) m2(3) by (simp add: list_at_def same_lists_def)
  moreover have "set zs \<inter> set xs = {}" "(NE \<union> set zs) - set zs = NE" using m1(4) by auto
  ultimately obtain m3 where m3: "vreader_list_delete (Some k) m2 = Some m3" "readers_kept m2 m3"
      "system_at m3 (mset rs + HR) HC HE NE es' (evs @ map (card_event m1) rs) l xs rs"
    using list_delete_ok [OF m2(4) _ m1(2)] by metis
  have "map (card_event m1) rs = map (card_event m) rs" using kept by (simp add: card_event_def)
  then have sys3: "system m3 (mset rs + HR) HC HE NE (evs @ map (card_event m) rs) rs"
    using m3(3) unfolding system_def by metis
  from system_reader_alive [OF this] m3(2) kept m2(2)
  have "\<forall>r \<in> set rs. reader_at m3 r = reader_at m r" by (auto simp: readers_kept_def)
  moreover have "vcard_emul_replay_insertion_events m = Some m3"
    using m1(1) first m2(1) m3(1)
    by (simp add: vcard_emul_replay_insertion_events_def del: vreader_list_get_first.simps)
  ultimately show ?thesis using sys3 by blast
qed

theorem replay_tells_all_witness:
  "\<exists>(m :: bool emul_memory) m' r c evs HR. vcard_emul_replay_insertion_events m = Some m' \<and>
     system m' HR {#} {} {} (evs @ [(VEVENT_CARD_INSERT, Some r, Some c)]) [r]"
proof -
  obtain m :: "bool emul_memory" and r v c e evs where m: "system m {#r#} {#} {} {} evs [r]" "reader_at m r = Some v"
      "rd_card v = Some c"
    using example_soft_card by blast
  have "card_event m r = (VEVENT_CARD_INSERT, Some r, Some c)" using m(2,3) by (simp add: card_event_def)
  then have "\<exists>m'. vcard_emul_replay_insertion_events m = Some m' \<and>
      system m' (mset [r] + {#r#}) {#} {} {} (evs @ [(VEVENT_CARD_INSERT, Some r, Some c)]) [r]"
    using replay_tells_all [OF m(1)] by auto
  then show ?thesis by blast
qed

end
