(* ===== verification/Emul_Init.thy ===== *)
theory Emul_Init
  imports Emul_Force
begin

text \<open>
  \<open>vcard_emul_init\<close> of \<open>src/vcard_emul_nss.c\<close>: the readers and cards there are when the library has been
  initialised with the options of \<open>Emul_Options\<close>.
\<close>

section \<open>The environment\<close>

text \<open>The functions of NSS that initialisation asks. A module is the list of its slots (\<open>None\<close> for a null
  pointer), or \<open>None\<close> for the internal module and for a null pointer.\<close>

record 's environment =
  v_emulation :: "'s emulation"
  NSS_InitContext :: "string \<Rightarrow> bool"
  PK11_FindSlotByName :: "string \<Rightarrow> nat option"
  PK11_FindCertFromNickname :: "string \<Rightarrow> (CERTCertificate \<times> bytes) option"
  PK11_IsRemovable :: "nat \<Rightarrow> bool"
  PK11_IsHW :: "nat \<Rightarrow> bool"
  module_list :: "nat option list option list"
  capcsc_init :: int

text \<open>The static variables; \<open>event_threads\<close> are the modules for which a thread was started.\<close>

record 's emul_state =
  es_memory :: "'s emul_memory"
  nss_emul_init :: bool
  vcard_emul_init_called :: bool
  default_card_type :: VCardEmulType
  default_type_params :: "string option"
  event_threads :: "nat list"

definition emul_start :: "'s emul_state" where
  "emul_start = \<lparr>es_memory = empty_memory, nss_emul_init = False, vcard_emul_init_called = False,
     default_card_type = VCARD_EMUL_NONE, default_type_params = Some [], event_threads = []\<rparr>"

definition vcard_emul_get_password :: "bool \<Rightarrow> 'a option \<Rightarrow> 'a option" where
  "vcard_emul_get_password retries pw_arg = (if retries then None else pw_arg)"

section \<open>Readers for software cards\<close>

definition vcard_emul_init_series :: "'s emulation \<Rightarrow> nat option \<Rightarrow> 'c memory \<Rightarrow> 'c memory option" where
  "vcard_emul_init_series em vreader m = do {
     private_data \<leftarrow> vreader_get_private vreader m;
     vreader_emul \<leftarrow> private_data;
     let slot = em_slot vreader_emul;
     m \<leftarrow> set_private vreader (\<lambda>e. e\<lparr>em_present := PK11_IsPresent (e_tokens em) slot,
       em_series := PK11_GetSlotSeries (e_tokens em) slot\<rparr>) m;
     if \<not> PK11_IsPresent (e_tokens em) slot then remove_card vreader m else Some m
   }"

text \<open>The certificates whose nicknames are known, in the order of the options.\<close>

definition named_certificates :: "'s environment \<Rightarrow> string list \<Rightarrow> (bytes \<times> VCardKey option) list" where
  "named_certificates v names = List.map_filter (\<lambda>name. map_option
     (\<lambda>(cert, der). (der, Some (vcard_emul_make_key cert))) (PK11_FindCertFromNickname v name)) names"

definition insert_soft_card ::
  "'s environment \<Rightarrow> nat option \<Rightarrow> (bytes \<times> VCardKey option) list \<Rightarrow> 's emul_memory \<Rightarrow> 's emul_memory option" where
  "insert_soft_card v vreader certs m = do {
     (vcard, m) \<leftarrow> make_card (v_emulation v) vreader certs m;
     (st, m) \<leftarrow> vreader_insert_card vreader vcard m;
     m \<leftarrow> vcard_emul_init_series (v_emulation v) vreader m;
     (saved, m) \<leftarrow> vcard_reference vcard m;
     m \<leftarrow> set_private vreader (\<lambda>e. e\<lparr>em_saved_vcard := saved\<rparr>) m;
     m \<leftarrow> vcard_free vcard m;
     vreader_free vreader m
   }"

definition init_soft_reader ::
  "'s environment \<Rightarrow> VirtualReaderOptions \<Rightarrow> 's emul_memory \<times> bool \<Rightarrow> ('s emul_memory \<times> bool) option" where
  "init_soft_reader v opt = (\<lambda>(m, has_readers).
     (case PK11_FindSlotByName v (vo_name opt) of
        None \<Rightarrow> Some (m, has_readers)
      | Some slot \<Rightarrow> do {
          let (vreader, m) = vreader_alloc (vo_vname opt)
            (Some (vreader_emul_new slot (vo_card_type opt) (Some (vo_type_params opt)))) m;
          (st, m) \<leftarrow> vreader_add_reader (Some vreader) m;
          let certs = named_certificates v (vo_cert_name opt);
          if certs \<noteq> []
          then do { m \<leftarrow> insert_soft_card v (Some vreader) certs m; Some (m, True) }
          else Some (m, has_readers)
        }))"

fun init_soft_readers ::
  "'s environment \<Rightarrow> VirtualReaderOptions list \<Rightarrow> 's emul_memory \<times> bool \<Rightarrow> ('s emul_memory \<times> bool) option" where
  "init_soft_readers v [] st = Some st"
| "init_soft_readers v (opt # opts) st = do { st \<leftarrow> init_soft_reader v opt st; init_soft_readers v opts st }"

section \<open>Readers for hardware tokens\<close>

definition usable_slot :: "'s environment \<Rightarrow> use_hw \<Rightarrow> nat \<Rightarrow> bool" where
  "usable_slot v use slot \<longleftrightarrow> PK11_IsRemovable v slot \<and> \<not> (use = USE_HW_YES \<and> \<not> PK11_IsHW v slot) \<and>
     PK11_GetSlotName (e_tokens (v_emulation v)) slot \<noteq> ''E-Gate 0 0''"

definition init_hw_reader ::
  "'s environment \<Rightarrow> VCardEmulOptions \<Rightarrow> nat \<Rightarrow> 's emul_memory \<Rightarrow> 's emul_memory option" where
  "init_hw_reader v options slot m = do {
     let (vreader, m) = vreader_alloc (PK11_GetSlotName (e_tokens (v_emulation v)) slot)
       (Some (vreader_emul_new slot (eo_hw_card_type options) (eo_hw_type_params options))) m;
     (st, m) \<leftarrow> vreader_add_reader (Some vreader) m;
     m \<leftarrow> (if PK11_IsPresent (e_tokens (v_emulation v)) slot
           then do {
             (vcard, m) \<leftarrow> vcard_emul_mirror_card (v_emulation v) (Some vreader) m;
             (st, m) \<leftarrow> vreader_insert_card (Some vreader) vcard m;
             m \<leftarrow> vcard_emul_init_series (v_emulation v) (Some vreader) m;
             vcard_free vcard m
           }
           else Some m);
     vreader_free (Some vreader) m
   }"

fun init_slots ::
  "'s environment \<Rightarrow> VCardEmulOptions \<Rightarrow> nat option list \<Rightarrow> 's emul_memory \<Rightarrow> 's emul_memory option" where
  "init_slots v options [] m = Some m"
| "init_slots v options (None # slots) m = init_slots v options slots m"
| "init_slots v options (Some slot # slots) m =
     (if usable_slot v (eo_use_hw options) slot
      then do { m \<leftarrow> init_hw_reader v options slot m; init_slots v options slots m }
      else init_slots v options slots m)"

text \<open>The modules from number \<open>i\<close> on, and the threads that are started.\<close>

fun init_modules ::
  "'s environment \<Rightarrow> VCardEmulOptions \<Rightarrow> nat \<Rightarrow> nat option list option list \<Rightarrow> 's emul_memory \<Rightarrow>
   (nat list \<times> 's emul_memory) option" where
  "init_modules v options i [] m = Some ([], m)"
| "init_modules v options i (None # modules) m = init_modules v options (i + 1) modules m"
| "init_modules v options i (Some slots # modules) m = do {
     m \<leftarrow> init_slots v options slots m;
     (threads, m) \<leftarrow> init_modules v options (i + 1) modules m;
     Some (i # threads, m)
   }"

section \<open>Initialisation\<close>

definition vcard_emul_init ::
  "bool \<Rightarrow> 's environment \<Rightarrow> VCardEmulOptions option \<Rightarrow> 's emul_state \<Rightarrow> (VCardEmulError \<times> 's emul_state) option" where
  "vcard_emul_init enable_pcsc v options st =
     (if vcard_emul_init_called st then Some (VCARD_EMUL_INIT_ALREADY_INITED, st)
      else do {
        let st = st\<lparr>vcard_emul_init_called := True,
          es_memory := vevent_queue_init (vreader_init (es_memory st))\<rparr>;
        let options = (case options of None \<Rightarrow> default_options | Some options \<Rightarrow> options);
        if enable_pcsc \<and> eo_use_hw options \<noteq> USE_HW_NO \<and> eo_hw_card_type options = VCARD_EMUL_PASSTHRU
        then Some (if eo_vreader options \<noteq> [] \<or> capcsc_init v \<noteq> 0 then VCARD_EMUL_FAIL else VCARD_EMUL_OK, st)
        else if \<not> NSS_InitContext v (case eo_nss_db options of None \<Rightarrow> ''/etc/pki/nssdb'' | Some db \<Rightarrow> db)
        then Some (VCARD_EMUL_FAIL, st)
        else do {
          (m, has_readers) \<leftarrow> init_soft_readers v (eo_vreader options) (es_memory st, False);
          if eo_use_hw options = USE_HW_NO
          then Some (if has_readers then VCARD_EMUL_OK else VCARD_EMUL_FAIL,
                     st\<lparr>es_memory := m, nss_emul_init := has_readers\<rparr>)
          else do {
            (threads, m) \<leftarrow> init_modules v options 0 (module_list v) m;
            Some (VCARD_EMUL_OK, st\<lparr>es_memory := m, default_card_type := eo_hw_card_type options,
              default_type_params := eo_hw_type_params options, event_threads := event_threads st @ threads,
              nss_emul_init := True\<rparr>)
          }
        }
      })"


section \<open>What can be seen after it\<close>

text \<open>\<open>readers_seen m HR ss\<close>: the library is in order, callers hold the references \<open>HR\<close> to readers and none to
  cards, events and list entries, and the readers look like \<open>ss\<close>.\<close>

definition readers_seen :: "'c memory \<Rightarrow> nat multiset \<Rightarrow> seen list \<Rightarrow> bool" where
  "readers_seen m HR ss \<longleftrightarrow>
     (\<exists>evs rs. system m HR {#} {} {} evs rs \<and> distinct rs \<and> map (seen_at m) rs = map Some ss)"

definition token_seen :: "'s environment \<Rightarrow> nat \<Rightarrow> bool \<Rightarrow> seen" where
  "token_seen v slot inserted =
     (let tk = e_tokens (v_emulation v) in
      \<lparr>s_slot = slot, s_present = PK11_IsPresent tk slot, s_series = PK11_GetSlotSeries tk slot,
       s_card = PK11_IsPresent tk slot \<and> inserted\<rparr>)"

definition soft_seen :: "'s environment \<Rightarrow> VirtualReaderOptions \<Rightarrow> seen list" where
  "soft_seen v opt =
     (case PK11_FindSlotByName v (vo_name opt) of None \<Rightarrow> []
      | Some slot \<Rightarrow> [if named_certificates v (vo_cert_name opt) \<noteq> [] then token_seen v slot True else new_seen slot])"

definition hw_seen :: "'s environment \<Rightarrow> nat \<Rightarrow> seen" where
  "hw_seen v slot = (if PK11_IsPresent (e_tokens (v_emulation v)) slot
     then token_seen v slot (has_card (v_emulation v) slot) else new_seen slot)"

definition usable_slots :: "'s environment \<Rightarrow> use_hw \<Rightarrow> nat list" where
  "usable_slots v use = (if use = USE_HW_NO then [] else
     filter (usable_slot v use) (concat (List.map_filter (map_option (List.map_filter (\<lambda>slot. slot))) (module_list v))))"

text \<open>The soft readers that get a card, and those that get none and whose reference is not given back.\<close>

definition soft_inserted :: "'s environment \<Rightarrow> VirtualReaderOptions \<Rightarrow> bool" where
  "soft_inserted v opt \<longleftrightarrow> PK11_FindSlotByName v (vo_name opt) \<noteq> None \<and> named_certificates v (vo_cert_name opt) \<noteq> []"

definition soft_leaked :: "'s environment \<Rightarrow> VirtualReaderOptions \<Rightarrow> bool" where
  "soft_leaked v opt \<longleftrightarrow> PK11_FindSlotByName v (vo_name opt) \<noteq> None \<and> named_certificates v (vo_cert_name opt) = []"

lemma init_series_ok:
  assumes "system m HR HC HE NE evs rs" and "r \<in># HR" and "reader_at m r = Some v" and "rd_private v = Some e"
  shows "\<exists>m' evs' w. vcard_emul_init_series em (Some r) m = Some m' \<and> system m' HR HC HE NE evs' rs \<and>
    reader_at m' = (reader_at m)(r \<mapsto> w) \<and>
    rd_card w = (if PK11_IsPresent (e_tokens em) (em_slot e) then rd_card v else None) \<and>
    rd_private w = Some (e\<lparr>em_present := PK11_IsPresent (e_tokens em) (em_slot e),
      em_series := PK11_GetSlotSeries (e_tokens em) (em_slot e)\<rparr>)"
proof -
  let ?f = "\<lambda>e'. e'\<lparr>em_present := PK11_IsPresent (e_tokens em) (em_slot e), em_series := PK11_GetSlotSeries (e_tokens em) (em_slot e)\<rparr>"
  have e: "emul_at m r = Some e" using assms(3,4) by (simp add: emul_at_def)
  have d: "vreader_get_private (Some r) m = Some (Some e)"
    using e by (auto simp: vreader_get_private_def emul_at_eq bind_eq_Some_conv)
  obtain m1 where m1: "set_private (Some r) ?f m = Some m1"
      "reader_at m1 = (reader_at m)(r \<mapsto> v\<lparr>rd_private := Some (?f e)\<rparr>)" "system m1 HR HC HE NE evs rs"
    using set_private_ok [OF assms(1) e, of ?f] assms(3) by auto
  show ?thesis
  proof (cases "PK11_IsPresent (e_tokens em) (em_slot e)")
    case True
    then have "vcard_emul_init_series em (Some r) m = Some m1"
      using d m1(1) by (simp add: vcard_emul_init_series_def)
    then show ?thesis using m1(2,3) True
      by (intro exI [of _ m1] exI [of _ evs] exI [of _ "v\<lparr>rd_private := Some (?f e)\<rparr>"]) simp
  next
    case False
    obtain m2 where m2: "remove_card (Some r) m1 = Some m2"
        "reader_at m2 = (reader_at m1)(r := map_option (\<lambda>v. v\<lparr>rd_card := None\<rparr>) (reader_at m1 r))"
        "system m2 HR HC HE NE (evs @ [(VEVENT_CARD_REMOVE, Some r, None)]) rs"
      using remove_card_ok [OF m1(3) assms(2)] by blast
    have "vcard_emul_init_series em (Some r) m = Some m2"
      using d m1(1) m2(1) False by (simp add: vcard_emul_init_series_def)
    moreover have "reader_at m2 = (reader_at m)(r \<mapsto> v\<lparr>rd_private := Some (?f e), rd_card := None\<rparr>)"
      using m2(2) m1(2) by simp
    ultimately show ?thesis using m2(3) False
      by (intro exI [of _ m2] exI [of _ "evs @ [(VEVENT_CARD_REMOVE, Some r, None)]"]
          exI [of _ "v\<lparr>rd_private := Some (?f e), rd_card := None\<rparr>"]) simp
  qed
qed

lemma readers_seen_add:
  assumes "distinct rs" and "map (seen_at m) rs = map Some ss" and "p \<notin> set rs"
    and "system m' HR' {#} {} {} evs (rs @ [p])" and "\<forall>q \<in> set rs. reader_at m' q = reader_at m q"
    and "seen_at m' p = Some s"
  shows "readers_seen m' HR' (ss @ [s])"
proof -
  have "map (seen_at m') rs = map (seen_at m) rs"
    by (intro map_cong refl seen_at_cong) (use assms(5) in blast)
  then show ?thesis using assms unfolding readers_seen_def
    by (intro exI [of _ evs] exI [of _ "rs @ [p]"]) simp
qed

lemma init_hw_reader_ok:
  assumes "readers_seen m HR ss"
  shows "\<exists>m'. init_hw_reader v options slot m = Some m' \<and> readers_seen m' HR (ss @ [hw_seen v slot])"
proof -
  let ?em = "v_emulation v" and ?name = "PK11_GetSlotName (e_tokens (v_emulation v)) slot"
  let ?e = "vreader_emul_new slot (eo_hw_card_type options) (eo_hw_type_params options)"
  let ?v = "\<lparr>rd_reference_count = 0, rd_card = None, rd_name = ?name, rd_id = -1, rd_private = Some ?e\<rparr>"
  obtain evs rs where sys: "system m HR {#} {} {} evs rs" "distinct rs" "map (seen_at m) rs = map Some ss"
    using assms by (auto simp: readers_seen_def)
  have e: "em_slot ?e = slot" "em_saved_vcard ?e = None" "em_present ?e = False" "em_series ?e = 0"
    by (simp_all add: vreader_emul_new_def)
  obtain p m1 m2 where m2: "vreader_alloc ?name (Some ?e) m = (p, m1)" "vreader_add_reader (Some p) m1 = Some (VREADER_OK, m2)"
      "p \<notin> set rs" "reader_at m2 = (reader_at m)(p \<mapsto> ?v)"
      "system m2 (add_mset p HR) {#} {} {} (evs @ [(VEVENT_READER_INSERT, Some p, None)]) (rs @ [p])"
    using new_listed_reader_ok [OF sys(1) e(2), of ?name] by blast
  let ?insert = "do {
      (vcard, m) \<leftarrow> vcard_emul_mirror_card ?em (Some p) m2;
      (st, m) \<leftarrow> vreader_insert_card (Some p) vcard m;
      m \<leftarrow> vcard_emul_init_series ?em (Some p) m;
      vcard_free vcard m }"
  have "\<exists>m3 evs3 w. (if PK11_IsPresent (e_tokens ?em) slot then ?insert else Some m2) = Some m3 \<and>
      system m3 (add_mset p HR) {#} {} {} evs3 (rs @ [p]) \<and> reader_at m3 = (reader_at m2)(p \<mapsto> w) \<and>
      seen_at m3 p = Some (hw_seen v slot)"
  proof (cases "PK11_IsPresent (e_tokens ?em) slot")
    case False
    moreover have "reader_at m2 = (reader_at m2)(p \<mapsto> ?v)" using m2(4) by simp
    moreover have "seen_at m2 p = Some (hw_seen v slot)"
      using m2(4) False e by (simp add: seen_at_def hw_seen_def new_seen_def)
    ultimately show ?thesis using m2(5) by auto
  next
    case True
    have v2: "reader_at m2 p = Some ?v" using m2(4) by simp
    then have e2: "emul_at m2 p = Some ?e" by (simp add: emul_at_def)
    obtain c m3 where m3: "vcard_emul_mirror_card ?em (Some p) m2 = Some (c, m3)" "vreaders m3 = vreaders m2"
        "system m3 (add_mset p HR) (mset_option c) {} {} (evs @ [(VEVENT_READER_INSERT, Some p, None)]) (rs @ [p])"
        "c \<noteq> None \<longleftrightarrow> has_card ?em slot"
      using mirror_card_ok [OF m2(5) e2, of ?em] e(1) by auto
    have r3: "reader_at m3 = reader_at m2" using m3(2) by (simp add: reader_at_def fun_eq_iff)
    have "p \<in># add_mset p HR" "set_option c \<subseteq> set_mset (mset_option c)" by (simp, cases c, auto)
    from insert_card_ok [OF m3(3) this] obtain m4 evs4 where m4: "vreader_insert_card (Some p) c m3 = Some (VREADER_OK, m4)"
        "reader_at m4 = (reader_at m3)(p \<mapsto> ?v\<lparr>rd_card := c\<rparr>)"
        "system m4 (add_mset p HR) (mset_option c) {} {} evs4 (rs @ [p])"
      using v2 r3 by auto
    have "reader_at m4 p = Some (?v\<lparr>rd_card := c\<rparr>)" using m4(2) by simp
    from init_series_ok [OF m4(3) _ this, of ?e ?em] obtain m5 evs5 w where m5:
        "vcard_emul_init_series ?em (Some p) m4 = Some m5" "system m5 (add_mset p HR) (mset_option c) {} {} evs5 (rs @ [p])"
        "reader_at m5 = (reader_at m4)(p \<mapsto> w)"
        "rd_card w = c" "rd_private w = Some (?e\<lparr>em_present := True, em_series := PK11_GetSlotSeries (e_tokens ?em) slot\<rparr>)"
      using e(1) True by auto
    have "\<exists>m6. vcard_free c m5 = Some m6 \<and> vreaders m6 = vreaders m5 \<and> system m6 (add_mset p HR) {#} {} {} evs5 (rs @ [p])"
      using m5(2) free_card_ok [of m5 "add_mset p HR" _ "{#}" "{}" "{}" evs5 "rs @ [p]"] by (cases c) auto
    then obtain m6 where m6: "vcard_free c m5 = Some m6" "vreaders m6 = vreaders m5"
        "system m6 (add_mset p HR) {#} {} {} evs5 (rs @ [p])" by blast
    have r6: "reader_at m6 = (reader_at m2)(p \<mapsto> w)"
      using m6(2) m5(3) m4(2) r3 by (simp add: reader_at_def fun_eq_iff)
    moreover have "seen_at m6 p = Some (hw_seen v slot)"
      using r6 m5(4,5) m3(4) e True by (simp add: seen_at_def hw_seen_def token_seen_def Let_def)
    moreover have "?insert = Some m6" using m3(1) m4(1) m5(1) m6(1) by simp
    ultimately show ?thesis using m6(3) True by auto
  qed
  then obtain m3 evs3 w where m3: "(if PK11_IsPresent (e_tokens ?em) slot then ?insert else Some m2) = Some m3"
      "system m3 (add_mset p HR) {#} {} {} evs3 (rs @ [p])" "reader_at m3 = (reader_at m2)(p \<mapsto> w)"
      "seen_at m3 p = Some (hw_seen v slot)" by blast
  obtain m4 where m4: "vreader_free (Some p) m3 = Some m4" "\<forall>q \<in> set (rs @ [p]). reader_at m4 q = reader_at m3 q"
      "system m4 HR {#} {} {} evs3 (rs @ [p])"
    using free_listed_reader_ok [OF m3(2)] by blast
  have "\<forall>q \<in> set rs. reader_at m4 q = reader_at m q"
    using m4(2) m3(3) m2(3,4) by auto
  moreover have "seen_at m4 p = Some (hw_seen v slot)" using m4(2) m3(4) seen_at_cong [of m4 p m3] by simp
  ultimately have "readers_seen m4 HR (ss @ [hw_seen v slot])"
    by (rule readers_seen_add [OF sys(2,3) m2(3) m4(3)])
  moreover have "init_hw_reader v options slot m = Some m4"
    using m2(1,2) m3(1) m4(1) by (simp add: init_hw_reader_def)
  ultimately show ?thesis by blast
qed


lemma insert_soft_card_ok:
  assumes "system m (add_mset p HR) {#} {} {} evs rs" and "reader_at m p = Some u" and "rd_card u = None"
    and "rd_private u = Some e" and "em_saved_vcard e = None" and "em_slot e = slot"
  shows "\<exists>m' evs'. insert_soft_card v (Some p) certs m = Some m' \<and> system m' HR {#} {} {} evs' rs \<and>
    (\<forall>q \<in> set rs. q \<noteq> p \<longrightarrow> reader_at m' q = reader_at m q) \<and> (p \<in> set rs \<longrightarrow> seen_at m' p = Some (token_seen v slot True))"
proof -
  let ?em = "v_emulation v"
  have e: "emul_at m p = Some e" using assms(2,4) by (simp add: emul_at_def)
  obtain c m3 where m3: "make_card ?em (Some p) certs m = Some (Some c, m3)" "vreaders m3 = vreaders m"
      "system m3 (add_mset p HR) {#c#} {} {} evs rs"
    using reader_card_ok [OF assms(1) e] by blast
  have r3: "reader_at m3 = reader_at m" using m3(2) by (simp add: reader_at_def fun_eq_iff)
  have held: "p \<in># add_mset p HR" "set_option (Some c) \<subseteq> set_mset {#c#}" by simp_all
  from insert_card_ok [OF m3(3) held] obtain m4 evs4 where m4: "vreader_insert_card (Some p) (Some c) m3 = Some (VREADER_OK, m4)"
      "reader_at m4 = (reader_at m3)(p \<mapsto> u\<lparr>rd_card := Some c\<rparr>)" "system m4 (add_mset p HR) {#c#} {} {} evs4 rs"
    using assms(2) r3 by auto
  have "reader_at m4 p = Some (u\<lparr>rd_card := Some c\<rparr>)" "rd_private (u\<lparr>rd_card := Some c\<rparr>) = Some e"
    using m4(2) assms(4) by simp_all
  from init_series_ok [OF m4(3) held(1) this, of ?em] obtain m5 evs5 w where m5:
      "vcard_emul_init_series ?em (Some p) m4 = Some m5" "system m5 (add_mset p HR) {#c#} {} {} evs5 rs"
      "reader_at m5 = (reader_at m4)(p \<mapsto> w)" "rd_card w = (if PK11_IsPresent (e_tokens ?em) slot then Some c else None)"
      "rd_private w = Some (e\<lparr>em_present := PK11_IsPresent (e_tokens ?em) slot, em_series := PK11_GetSlotSeries (e_tokens ?em) slot\<rparr>)"
    using assms(6) by auto
  let ?e5 = "e\<lparr>em_present := PK11_IsPresent (e_tokens ?em) slot, em_series := PK11_GetSlotSeries (e_tokens ?em) slot\<rparr>"
  have "c \<in># card_refs m5 + {#c#}" by simp
  from card_reference_ok [OF m5(2) this] obtain m6 where m6: "vcard_reference (Some c) m5 = Some (Some c, m6)"
      "vreaders m6 = vreaders m5" "system m6 (add_mset p HR) {#c, c#} {} {} evs5 rs" by blast
  have r6: "reader_at m6 = reader_at m5" using m6(2) by (simp add: reader_at_def fun_eq_iff)
  have "emul_at m6 p = Some ?e5" using r6 m5(3,5) by (simp add: emul_at_def)
  from save_card_ok [OF m6(3) this] obtain m7 where m7: "set_private (Some p) (\<lambda>e. e\<lparr>em_saved_vcard := Some c\<rparr>) m6 = Some m7"
      "reader_at m7 = (reader_at m6)(p \<mapsto> w\<lparr>rd_private := Some (?e5\<lparr>em_saved_vcard := Some c\<rparr>)\<rparr>)"
      "system m7 (add_mset p HR) {#c#} {} {} evs5 rs"
    using assms(5) r6 m5(3) by auto
  from free_card_ok [OF m7(3)] obtain m8 where m8: "vcard_free (Some c) m7 = Some m8" "vreaders m8 = vreaders m7"
      "system m8 (add_mset p HR) {#} {} {} evs5 rs" by blast
  have r8: "reader_at m8 = reader_at m7" using m8(2) by (simp add: reader_at_def fun_eq_iff)
  obtain m9 where m9: "vreader_free (Some p) m8 = Some m9" "\<forall>q \<in> set rs. reader_at m9 q = reader_at m8 q"
      "system m9 HR {#} {} {} evs5 rs"
    using free_listed_reader_ok [OF m8(3)] by blast
  have "insert_soft_card v (Some p) certs m = Some m9"
    using m3(1) m4(1) m5(1) m6(1) m7(1) m8(1) m9(1) by (simp add: insert_soft_card_def)
  moreover have "\<forall>q \<in> set rs. q \<noteq> p \<longrightarrow> reader_at m9 q = reader_at m q"
    using m9(2) r8 m7(2) r6 m5(3) m4(2) r3 by simp
  moreover have "seen_at m9 p = Some (token_seen v slot True)" if "p \<in> set rs"
    using m9(2) that r8 m7(2) m5(4) assms(6) by (simp add: seen_at_def token_seen_def Let_def)
  ultimately show ?thesis using m9(3) by blast
qed

lemma init_soft_reader_ok:
  assumes "readers_seen m HR ss"
  shows "\<exists>m' HR'. init_soft_reader v opt (m, h) = Some (m', h \<or> soft_inserted v opt) \<and>
    readers_seen m' HR' (ss @ soft_seen v opt) \<and> size HR' = size HR + (if soft_leaked v opt then 1 else 0)"
proof (cases "PK11_FindSlotByName v (vo_name opt)")
  case None
  then show ?thesis using assms
    by (simp add: init_soft_reader_def soft_inserted_def soft_seen_def soft_leaked_def) blast
next
  case (Some slot)
  let ?e = "vreader_emul_new slot (vo_card_type opt) (Some (vo_type_params opt))"
  let ?u = "\<lparr>rd_reference_count = 0, rd_card = None, rd_name = vo_vname opt, rd_id = -1, rd_private = Some ?e\<rparr>"
  obtain evs rs where sys: "system m HR {#} {} {} evs rs" "distinct rs" "map (seen_at m) rs = map Some ss"
    using assms by (auto simp: readers_seen_def)
  have e: "em_slot ?e = slot" "em_saved_vcard ?e = None" "em_present ?e = False" "em_series ?e = 0"
    by (simp_all add: vreader_emul_new_def)
  obtain p m1 m2 where m2: "vreader_alloc (vo_vname opt) (Some ?e) m = (p, m1)" "vreader_add_reader (Some p) m1 = Some (VREADER_OK, m2)"
      "p \<notin> set rs" "reader_at m2 = (reader_at m)(p \<mapsto> ?u)"
      "system m2 (add_mset p HR) {#} {} {} (evs @ [(VEVENT_READER_INSERT, Some p, None)]) (rs @ [p])"
    using new_listed_reader_ok [OF sys(1) e(2), of "vo_vname opt"] by blast
  have same: "\<forall>q \<in> set rs. reader_at m2 q = reader_at m q" using m2(3,4) by auto
  let ?certs = "named_certificates v (vo_cert_name opt)"
  show ?thesis
  proof (cases "?certs = []")
    case True
    have "seen_at m2 p = Some (new_seen slot)" using m2(4) e by (simp add: seen_at_def new_seen_def)
    from readers_seen_add [OF sys(2,3) m2(3,5) same this] show ?thesis
      using Some True m2(1,2)
      by (intro exI [of _ m2] exI [of _ "add_mset p HR"])
        (simp add: init_soft_reader_def soft_inserted_def soft_seen_def soft_leaked_def)
  next
    case False
    have "reader_at m2 p = Some ?u" "rd_card ?u = None" "rd_private ?u = Some ?e" using m2(4) by simp_all
    from insert_soft_card_ok [OF m2(5) this e(2,1), of v ?certs] obtain m3 evs3 where m3:
        "insert_soft_card v (Some p) ?certs m2 = Some m3" "system m3 HR {#} {} {} evs3 (rs @ [p])"
        "\<forall>q \<in> set (rs @ [p]). q \<noteq> p \<longrightarrow> reader_at m3 q = reader_at m2 q" "seen_at m3 p = Some (token_seen v slot True)"
      by auto
    have "\<forall>q \<in> set rs. reader_at m3 q = reader_at m q" using m3(3) same m2(3) by auto
    from readers_seen_add [OF sys(2,3) m2(3) m3(2) this m3(4)] show ?thesis
      using Some False m2(1,2) m3(1)
      by (intro exI [of _ m3] exI [of _ HR])
        (simp add: init_soft_reader_def soft_inserted_def soft_seen_def soft_leaked_def)
  qed
qed

lemma init_soft_readers_ok:
  assumes "readers_seen m HR ss"
  shows "\<exists>m' HR'. init_soft_readers v opts (m, h) = Some (m', h \<or> (\<exists>opt \<in> set opts. soft_inserted v opt)) \<and>
    readers_seen m' HR' (ss @ concat (map (soft_seen v) opts)) \<and>
    size HR' = size HR + length (filter (soft_leaked v) opts)"
  using assms
proof (induction opts arbitrary: m HR ss h)
  case (Cons opt opts)
  obtain m1 HR1 where m1: "init_soft_reader v opt (m, h) = Some (m1, h \<or> soft_inserted v opt)"
      "readers_seen m1 HR1 (ss @ soft_seen v opt)" "size HR1 = size HR + (if soft_leaked v opt then 1 else 0)"
    using init_soft_reader_ok [OF Cons.prems] by blast
  from Cons.IH [OF m1(2), of "h \<or> soft_inserted v opt"] m1(1,3) show ?case by (auto simp: disj_assoc)
qed auto

lemma init_slots_ok:
  assumes "readers_seen m HR ss"
  shows "\<exists>m'. init_slots v options slots m = Some m' \<and>
    readers_seen m' HR (ss @ map (hw_seen v) (filter (usable_slot v (eo_use_hw options)) (List.map_filter (\<lambda>slot. slot) slots)))"
  using assms
proof (induction v options slots m arbitrary: ss rule: init_slots.induct)
  case (3 v options slot slots m)
  show ?case
  proof (cases "usable_slot v (eo_use_hw options) slot")
    case True
    obtain m1 where m1: "init_hw_reader v options slot m = Some m1" "readers_seen m1 HR (ss @ [hw_seen v slot])"
      using init_hw_reader_ok [OF 3(3)] by blast
    from 3(1) [OF True m1] True m1(1) show ?thesis by (simp add: List.map_filter_simps)
  next
    case False
    from 3(2) [OF False 3(3)] False show ?thesis by (simp add: List.map_filter_simps)
  qed
qed (simp_all add: List.map_filter_simps)

lemma init_modules_ok:
  assumes "readers_seen m HR ss"
  shows "\<exists>m' threads. init_modules v options i modules m = Some (threads, m') \<and>
    readers_seen m' HR (ss @ map (hw_seen v) (filter (usable_slot v (eo_use_hw options))
      (concat (List.map_filter (map_option (List.map_filter (\<lambda>slot. slot))) modules))))"
  using assms
proof (induction v options i modules m arbitrary: ss rule: init_modules.induct)
  case (3 v options i slots modules m)
  obtain m1 where m1: "init_slots v options slots m = Some m1" "readers_seen m1 HR
      (ss @ map (hw_seen v) (filter (usable_slot v (eo_use_hw options)) (List.map_filter (\<lambda>slot. slot) slots)))"
    using init_slots_ok [OF 3(2)] by blast
  from 3(1) [OF m1] m1(1) show ?case by (auto simp: List.map_filter_simps)
qed (simp_all add: List.map_filter_simps)


definition init_seen :: "'s environment \<Rightarrow> VCardEmulOptions \<Rightarrow> seen list" where
  "init_seen v options = concat (map (soft_seen v) (eo_vreader options)) @
     map (hw_seen v) (usable_slots v (eo_use_hw options))"

lemma start_readers_seen: "readers_seen (vevent_queue_init (vreader_init empty_memory)) {#} []"
  using start_system by (auto simp: readers_seen_def)

lemma vcard_emul_init_ok:
  assumes "NSS_InitContext v (case eo_nss_db options of None \<Rightarrow> ''/etc/pki/nssdb'' | Some db \<Rightarrow> db)"
    and "enable_pcsc \<longrightarrow> eo_use_hw options = USE_HW_NO \<or> eo_hw_card_type options \<noteq> VCARD_EMUL_PASSTHRU"
  shows "\<exists>st HR. vcard_emul_init enable_pcsc v (Some options) emul_start =
      Some (if eo_use_hw options \<noteq> USE_HW_NO \<or> (\<exists>opt \<in> set (eo_vreader options). soft_inserted v opt)
            then VCARD_EMUL_OK else VCARD_EMUL_FAIL, st) \<and>
    readers_seen (es_memory st) HR (init_seen v options) \<and>
    size HR = length (filter (soft_leaked v) (eo_vreader options)) \<and> vcard_emul_init_called st"
proof -
  let ?m = "vevent_queue_init (vreader_init empty_memory)"
  let ?h = "\<exists>opt \<in> set (eo_vreader options). soft_inserted v opt"
  obtain m1 HR where m1: "init_soft_readers v (eo_vreader options) (?m, False) = Some (m1, ?h)"
      "readers_seen m1 HR (concat (map (soft_seen v) (eo_vreader options)))"
      "size HR = length (filter (soft_leaked v) (eo_vreader options))"
    using init_soft_readers_ok [OF start_readers_seen, of v "eo_vreader options" False] by auto
  have pcsc: "\<not> (enable_pcsc \<and> eo_use_hw options \<noteq> USE_HW_NO \<and> eo_hw_card_type options = VCARD_EMUL_PASSTHRU)"
    using assms(2) by blast
  show ?thesis
  proof (cases "eo_use_hw options = USE_HW_NO")
    case True
    then show ?thesis using m1 assms(1) pcsc
      by (auto simp: vcard_emul_init_def emul_start_def init_seen_def usable_slots_def simp del: bex_simps)
  next
    case False
    obtain m2 threads where "init_modules v options 0 (module_list v) m1 = Some (threads, m2)"
        "readers_seen m2 HR (init_seen v options)"
      using init_modules_ok [OF m1(2), of v options 0 "module_list v"] False
      by (auto simp: init_seen_def usable_slots_def)
    then show ?thesis using m1(1,3) assms(1) pcsc False
      by (auto simp: vcard_emul_init_def emul_start_def)
  qed
qed

section \<open>Properties\<close>

text \<open>C13: Initialisation gives one reader per software option whose slot exists and one per usable slot of each
  module, in that order, with a card where there are certificates and a token; every reference count is
  right, but the caller's reference to a software reader without certificates is never given back. Without
  hardware, it fails exactly if there is no software card.\<close>

theorem vcard_emul_init_readers:
  assumes "NSS_InitContext v (case eo_nss_db options of None \<Rightarrow> ''/etc/pki/nssdb'' | Some db \<Rightarrow> db)"
    and "enable_pcsc \<longrightarrow> eo_use_hw options = USE_HW_NO \<or> eo_hw_card_type options \<noteq> VCARD_EMUL_PASSTHRU"
  shows "\<exists>st HR. vcard_emul_init enable_pcsc v (Some options) emul_start =
      Some (if eo_use_hw options \<noteq> USE_HW_NO \<or> (\<exists>opt \<in> set (eo_vreader options). soft_inserted v opt)
            then VCARD_EMUL_OK else VCARD_EMUL_FAIL, st) \<and>
    readers_seen (es_memory st) HR (init_seen v options) \<and>
    size HR = length (filter (soft_leaked v) (eo_vreader options))"
  using vcard_emul_init_ok [OF assms] by blast

text \<open>Two software readers, the second without certificates that can be found, and one hardware token.\<close>

definition example_environment :: "bool environment" where
  "example_environment = \<lparr>v_emulation = example_emulation True 5, NSS_InitContext = (\<lambda>_. True),
     PK11_FindSlotByName = (\<lambda>name. if name = ''soft'' then Some 1 else None),
     PK11_FindCertFromNickname = (\<lambda>name. if name = ''cert'' then Some (7, [0x30, 0]) else None),
     PK11_IsRemovable = (\<lambda>_. True), PK11_IsHW = (\<lambda>_. True), module_list = [None, Some [None, Some 2]], capcsc_init = 0\<rparr>"

definition example_options :: VCardEmulOptions where
  "example_options = default_options\<lparr>eo_vreader :=
     [\<lparr>vo_name = ''soft'', vo_vname = ''a'', vo_card_type = VCARD_EMUL_CAC, vo_type_params = [], vo_cert_name = [''cert'']\<rparr>,
      \<lparr>vo_name = ''soft'', vo_vname = ''b'', vo_card_type = VCARD_EMUL_CAC, vo_type_params = [], vo_cert_name = [''none'']\<rparr>]\<rparr>"

theorem vcard_emul_init_readers_witness:
  "\<exists>st HR. vcard_emul_init True example_environment (Some example_options) emul_start = Some (VCARD_EMUL_OK, st) \<and>
     readers_seen (es_memory st) HR
       [\<lparr>s_slot = 1, s_present = True, s_series = 5, s_card = True\<rparr>,
        \<lparr>s_slot = 1, s_present = False, s_series = 0, s_card = False\<rparr>,
        \<lparr>s_slot = 2, s_present = True, s_series = 5, s_card = True\<rparr>] \<and> size HR = 1"
proof -
  have "init_seen example_environment example_options =
      [\<lparr>s_slot = 1, s_present = True, s_series = 5, s_card = True\<rparr>,
       \<lparr>s_slot = 1, s_present = False, s_series = 0, s_card = False\<rparr>,
       \<lparr>s_slot = 2, s_present = True, s_series = 5, s_card = True\<rparr>]"
    by (simp add: init_seen_def example_options_def default_options_def example_environment_def soft_seen_def
        named_certificates_def token_seen_def new_seen_def usable_slots_def usable_slot_def hw_seen_def has_card_def
        example_emulation_def List.map_filter_simps)
  moreover have "length (filter (soft_leaked example_environment) (eo_vreader example_options)) = 1"
    by (simp add: example_options_def example_environment_def soft_leaked_def named_certificates_def List.map_filter_simps)
  ultimately show ?thesis
    using vcard_emul_init_readers [of example_environment example_options True]
    by (simp add: example_options_def example_environment_def default_options_def)
qed

end
