(* ===== verification/Vsc_Socket.thy ===== *)
theory Vsc_Socket
  imports Emul_Init
begin

text \<open>
  The client of \<open>src/vscclient.c\<close> towards the host: the messages of \<open>src/vscard_common.h\<close>, the buffer of what
  is to be sent, and \<open>do_socket_read\<close>, which reads headers and messages as bytes come in and answers
  them with the readers of the library. \<open>None\<close> is a fault, as in \<open>Reader_Store\<close>. Words are in the byte
  order of a little-endian machine; output on the terminal and the comparison with a real card
  (option \<open>-p\<close>) are left out.
\<close>

section \<open>The protocol\<close>

type_synonym uint32 = "32 word"

datatype VSCMsgType = VSC_Init | VSC_Error | VSC_ReaderAdd | VSC_ReaderRemove | VSC_ATR | VSC_CardRemove
  | VSC_APDU | VSC_Flush | VSC_FlushComplete

fun msg_type :: "VSCMsgType \<Rightarrow> uint32" where
  "msg_type VSC_Init = 1"
| "msg_type VSC_Error = 2"
| "msg_type VSC_ReaderAdd = 3"
| "msg_type VSC_ReaderRemove = 4"
| "msg_type VSC_ATR = 5"
| "msg_type VSC_CardRemove = 6"
| "msg_type VSC_APDU = 7"
| "msg_type VSC_Flush = 8"
| "msg_type VSC_FlushComplete = 9"

abbreviation "VSC_SUCCESS \<equiv> (0 :: uint32)"
abbreviation "VSC_GENERAL_ERROR \<equiv> (1 :: uint32)"
abbreviation "VSC_CANNOT_ADD_MORE_READERS \<equiv> (2 :: uint32)"
abbreviation "VSCARD_UNDEFINED_READER_ID \<equiv> (0xffffffff :: uint32)"
abbreviation "VSCARD_MINIMAL_READER_ID \<equiv> (0 :: uint32)"

definition VSCARD_VERSION :: uint32 where
  "VSCARD_VERSION = push_bit 21 0 OR push_bit 10 0 OR 2"

text \<open>The bytes of a word in memory, and in network order.\<close>

definition le32 :: "uint32 \<Rightarrow> bytes" where
  "le32 w = [ucast w, ucast (drop_bit 8 w), ucast (drop_bit 16 w), ucast (drop_bit 24 w)]"

definition of_le32 :: "bytes \<Rightarrow> uint32" where
  "of_le32 bs = ucast (bs ! 0) OR push_bit 8 (ucast (bs ! 1)) OR push_bit 16 (ucast (bs ! 2)) OR push_bit 24 (ucast (bs ! 3))"

definition be32 :: "uint32 \<Rightarrow> bytes" where
  "be32 w = rev (le32 w)"

definition of_be32 :: "bytes \<Rightarrow> uint32" where
  "of_be32 bs = of_le32 (rev (take 4 bs))"

definition VSCARD_MAGIC :: uint32 where
  "VSCARD_MAGIC = of_le32 [0x56, 0x53, 0x43, 0x44]"

record VSCMsgHeader =
  mh_type :: uint32
  mh_reader_id :: uint32
  mh_length :: uint32

definition header_of :: "bytes \<Rightarrow> VSCMsgHeader" where
  "header_of bs = \<lparr>mh_type = of_be32 bs, mh_reader_id = of_be32 (drop 4 bs), mh_length = of_be32 (drop 8 bs)\<rparr>"

definition header_bytes :: "VSCMsgHeader \<Rightarrow> bytes" where
  "header_bytes h = be32 (mh_type h) @ be32 (mh_reader_id h) @ be32 (mh_length h)"

section \<open>The client\<close>

datatype read_state = STATE_HEADER | STATE_MESSAGE

text \<open>The static variables. \<open>buf\<close> points into the header or into \<open>pbSendBuffer\<close>, as \<open>state\<close> says, and is an
  offset. An event thread (see \<open>Vsc_Events\<close>) holds the event it has taken, with the identifier it has read
  for it, and what its array \<open>atr\<close> holds from before: at first what was on the stack, \<open>c_stack\<close>.\<close>

abbreviation APDUBufSize :: nat where "APDUBufSize \<equiv> 270"
abbreviation MAX_ATR_LEN :: nat where "MAX_ATR_LEN \<equiv> 40"

datatype thread_wait = Running | Have_Event nat uint32 | Wait_Status nat | Wait_Insert nat uint32

record thread_state =
  th_wait :: thread_wait
  th_atr :: bytes

record 's vscclient =
  c_memory :: "'s emul_memory"
  socket_to_send :: bytes
  pending_reader :: "nat option"
  c_threads :: "thread_state list"
  c_stack :: bytes
  c_header :: bytes
  mhHeader :: VSCMsgHeader
  pbSendBuffer :: bytes
  c_buf :: nat
  to_read :: nat
  c_state :: read_state
  watching :: bool

definition send_msg :: "VSCMsgType \<Rightarrow> uint32 \<Rightarrow> bytes \<Rightarrow> 's vscclient \<Rightarrow> 's vscclient" where
  "send_msg type rid msg k =
     k\<lparr>socket_to_send := socket_to_send k @
       header_bytes \<lparr>mh_type = msg_type type, mh_reader_id = 0, mh_length = of_nat (length msg)\<rparr> @ msg\<rparr>"

text \<open>\<open>do_socket_send\<close>: the socket took \<open>bw\<close> bytes.\<close>

definition do_socket_send :: "nat \<Rightarrow> 's vscclient \<Rightarrow> 's vscclient" where
  "do_socket_send bw k = k\<lparr>socket_to_send := drop bw (socket_to_send k)\<rparr>"

section \<open>Readers of the library\<close>

text \<open>\<open>vreader_xfr_bytes\<close> and \<open>vreader_power_on\<close> on a reader in memory: its card, behind a pointer, is
  used as the card of the reader of \<open>Card_System\<close>.\<close>

definition with_card ::
  "nat option \<Rightarrow> ('s VReader \<Rightarrow> fault + VReaderStatus \<times> bytes \<times> 's VReader) \<Rightarrow> 's emul_memory \<Rightarrow>
   (VReaderStatus \<times> bytes \<times> 's emul_memory) option" where
  "with_card reader f m = do {
     (vcard, m) \<leftarrow> vreader_get_card reader m;
     (case vcard of
        None \<Rightarrow> Some (VREADER_NO_CARD, [], m)
      | Some c \<Rightarrow> do {
          obj \<leftarrow> vcards m c;
          (case f \<lparr>reader_card = Some (cd_card obj), reader_name = [], reader_id = 0\<rparr> of
             Inl fault \<Rightarrow> None
           | Inr (status, out, reader') \<Rightarrow> do {
               card' \<leftarrow> reader_card reader';
               m \<leftarrow> vcard_free vcard (m\<lparr>vcards := (vcards m)(c \<mapsto> obj\<lparr>cd_card := card'\<rparr>)\<rparr>);
               Some (status, out, m)
             })
        })
   }"

definition memory_xfr_bytes ::
  "'s nss \<Rightarrow> nat option \<Rightarrow> bytes \<Rightarrow> nat \<Rightarrow> 's emul_memory \<Rightarrow> (VReaderStatus \<times> bytes \<times> 's emul_memory) option" where
  "memory_xfr_bytes nss reader send_buf cap m = with_card reader (\<lambda>r. vreader_xfr_bytes nss r send_buf cap) m"

definition memory_power_on ::
  "'s nss \<Rightarrow> nat option \<Rightarrow> nat \<Rightarrow> 's emul_memory \<Rightarrow> (VReaderStatus \<times> bytes \<times> 's emul_memory) option" where
  "memory_power_on nss reader atr_len m = with_card reader (\<lambda>r. vreader_power_on nss r atr_len) m"

section \<open>Messages from the host\<close>

fun status_code :: "VReaderStatus \<Rightarrow> uint32" where
  "status_code VREADER_OK = 0"
| "status_code VREADER_NO_CARD = 1"
| "status_code VREADER_OUT_OF_MEMORY = 2"

definition handle_apdu :: "'s nss \<Rightarrow> 's vscclient \<Rightarrow> 's vscclient option" where
  "handle_apdu nss k = do {
     (reader, m) \<leftarrow> vreader_get_reader_by_id (mh_reader_id (mhHeader k)) (c_memory k);
     (reader_status, pbRecvBuffer, m) \<leftarrow> memory_xfr_bytes nss reader
       (take (unat (mh_length (mhHeader k))) (pbSendBuffer k)) APDUBufSize m;
     let k = (if reader_status = VREADER_OK
              then send_msg VSC_APDU (mh_reader_id (mhHeader k)) pbRecvBuffer
                (k\<lparr>mhHeader := (mhHeader k)\<lparr>mh_length := of_nat (length pbRecvBuffer)\<rparr>\<rparr>)
              else send_msg VSC_Error (mh_reader_id (mhHeader k)) (le32 (status_code reader_status)) k);
     m \<leftarrow> vreader_free reader m;
     Some (k\<lparr>c_memory := m\<rparr>)
   }"

definition handle_error :: "'s vscclient \<Rightarrow> 's vscclient option" where
  "handle_error k =
     (let code = of_le32 (pbSendBuffer k) in
      if code = VSC_SUCCESS \<and> pending_reader k \<noteq> None
      then do {
        (st, m) \<leftarrow> vreader_set_id (pending_reader k) (mh_reader_id (mhHeader k)) (c_memory k);
        m \<leftarrow> vreader_free (pending_reader k) m;
        Some (k\<lparr>c_memory := m, pending_reader := None\<rparr>)
      }
      else if code = VSC_CANNOT_ADD_MORE_READERS then Some (k\<lparr>pending_reader := None\<rparr>)
      else Some k)"

text \<open>\<open>on_host_init\<close>: \<open>incoming\<close> is a structure of twelve bytes, and the loop over \<open>num_capabilities\<close> words
  must not leave it. The length is converted to \<open>size_t\<close> before 12 is subtracted, and the number to
  \<open>int\<close>.\<close>

definition num_capabilities :: "uint32 \<Rightarrow> int" where
  "num_capabilities msg_length = sint (ucast (1 + (ucast msg_length - 12) div 4 :: 64 word) :: 32 word)"

definition on_host_init :: "'s vscclient \<Rightarrow> (bool \<times> 's vscclient) option" where
  "on_host_init k =
     (if of_le32 (pbSendBuffer k) \<noteq> VSCARD_MAGIC then Some (False, k)
      else if num_capabilities (mh_length (mhHeader k)) > 1 then None
      else Some (True, (send_msg VSC_ReaderRemove VSCARD_MINIMAL_READER_ID [] k)
        \<lparr>c_threads := c_threads k @ [\<lparr>th_wait = Running, th_atr = c_stack k\<rparr>]\<rparr>))"

text \<open>A message is complete: whether the socket is still watched, and the client. The header of a message
  has one of the four types.\<close>

definition handle_message :: "'s nss \<Rightarrow> 's vscclient \<Rightarrow> (bool \<times> 's vscclient) option" where
  "handle_message nss k =
     (let type = mh_type (mhHeader k); done_with = (\<lambda>k. (True, k\<lparr>c_state := STATE_HEADER\<rparr>)) in
      if type = msg_type VSC_APDU then map_option done_with (handle_apdu nss k)
      else if type = msg_type VSC_Flush
      then Some (done_with (send_msg VSC_FlushComplete (mh_reader_id (mhHeader k)) [] k))
      else if type = msg_type VSC_Error then map_option done_with (handle_error k)
      else if type = msg_type VSC_Init
      then do { (ok, k) \<leftarrow> on_host_init k; Some (if ok then done_with k else (False, k)) }
      else None)"

section \<open>Reading from the socket\<close>

definition store_bytes :: "nat \<Rightarrow> bytes \<Rightarrow> bytes \<Rightarrow> bytes option" where
  "store_bytes off bs xs =
     (if off + length bs \<le> length xs then Some (take off xs @ bs @ drop (off + length bs) xs) else None)"

text \<open>\<open>g_io_channel_read_chars\<close>: what it read is stored behind \<open>buf\<close>.\<close>

definition store_input :: "bytes \<Rightarrow> 's vscclient \<Rightarrow> 's vscclient option" where
  "store_input bs k = do {
     k' \<leftarrow> (case c_state k of
        STATE_HEADER \<Rightarrow> do { b \<leftarrow> store_bytes (c_buf k) bs (c_header k); Some (k\<lparr>c_header := b\<rparr>) }
      | STATE_MESSAGE \<Rightarrow> do { b \<leftarrow> store_bytes (c_buf k) bs (pbSendBuffer k); Some (k\<lparr>pbSendBuffer := b\<rparr>) });
     Some (k'\<lparr>c_buf := c_buf k + length bs, to_read := to_read k - length bs\<rparr>)
   }"

definition start_header :: "'s vscclient \<Rightarrow> 's vscclient" where
  "start_header k = (if c_state k = STATE_HEADER \<and> to_read k = 0 then k\<lparr>c_buf := 0, to_read := 12\<rparr> else k)"

definition handle_header :: "'s vscclient \<Rightarrow> bool \<times> 's vscclient" where
  "handle_header k =
     (let h = header_of (c_header k); k = k\<lparr>mhHeader := h\<rparr> in
      if mh_type h \<in> {msg_type VSC_APDU, msg_type VSC_Flush, msg_type VSC_Error, msg_type VSC_Init}
      then (True, k\<lparr>c_buf := 0, to_read := unat (mh_length h), c_state := STATE_MESSAGE\<rparr>)
      else (False, k))"

definition process_input :: "'s nss \<Rightarrow> 's vscclient \<Rightarrow> (bool \<times> 's vscclient) option" where
  "process_input nss k =
     (if to_read k \<noteq> 0 then Some (True, k)
      else if c_state k = STATE_HEADER then Some (handle_header k)
      else handle_message nss k)"

text \<open>One call of \<open>do_socket_read\<close>, when \<open>input\<close> is what can be read: the result, what is left of the input,
  and the client.\<close>

definition do_socket_read :: "'s nss \<Rightarrow> bytes \<Rightarrow> 's vscclient \<Rightarrow> (bool \<times> bytes \<times> 's vscclient) option" where
  "do_socket_read nss input k = do {
     let k = start_header k;
     let n = min (to_read k) (length input);
     k \<leftarrow> (if to_read k > 0 then store_input (take n input) k else Some k);
     (ok, k) \<leftarrow> process_input nss k;
     Some (ok, drop n input, k)
   }"


lemma start_header_simps [simp]:
  "watching (start_header k) = watching k" "c_state (start_header k) = c_state k"
  by (simp_all add: start_header_def)

lemma handle_apdu_frame:
  "handle_apdu nss k = Some k' \<Longrightarrow> c_state k' = c_state k \<and> to_read k' = to_read k"
  by (auto simp: handle_apdu_def send_msg_def Let_def bind_eq_Some_conv split: prod.splits if_splits)

lemma handle_error_frame:
  "handle_error k = Some k' \<Longrightarrow> c_state k' = c_state k \<and> to_read k' = to_read k"
  by (auto simp: handle_error_def Let_def bind_eq_Some_conv split: prod.splits if_splits)

lemma handle_message_frame:
  "handle_message nss k = Some (ok, k') \<Longrightarrow> to_read k' = to_read k \<and> (ok \<longrightarrow> c_state k' = STATE_HEADER)"
  by (auto simp: handle_message_def Let_def bind_eq_Some_conv on_host_init_def send_msg_def
      split: prod.splits if_splits dest: handle_apdu_frame handle_error_frame)

text \<open>The main loop calls it while there is input, until it returns false. Every call reads at least one byte,
  or completes a message of length zero.\<close>

definition feed_measure :: "bytes \<Rightarrow> 's vscclient \<Rightarrow> nat" where
  "feed_measure input k = 3 * length input + (if c_state k = STATE_MESSAGE \<and> to_read k = 0 then 1 else 0) +
     (if watching k then 1 else 0)"

lemma store_input_some:
  "store_input bs k = Some k' \<Longrightarrow> c_state k' = c_state k \<and> to_read k' = to_read k - length bs \<and> watching k' = watching k"
  by (auto simp: store_input_def bind_eq_Some_conv split: read_state.splits)

lemma do_socket_read_measure:
  assumes "do_socket_read nss input k = Some (ok, input', k')" and "input \<noteq> []" and "watching k"
  shows "feed_measure input' (k'\<lparr>watching := ok\<rparr>) < feed_measure input k"
proof (cases "to_read (start_header k) > 0")
  case True
  then have "length input' < length input"
    using assms(1,2) by (auto simp: do_socket_read_def Let_def bind_eq_Some_conv)
  then show ?thesis using assms(3) by (simp add: feed_measure_def)
next
  case False
  then have msg: "c_state k = STATE_MESSAGE" "to_read k = 0" "start_header k = k"
    by (cases "c_state k"; auto simp: start_header_def split: if_splits)+
  then have "handle_message nss k = Some (ok, k')" "input' = input"
    using assms(1) by (auto simp: do_socket_read_def process_input_def Let_def bind_eq_Some_conv)
  from handle_message_frame [OF this(1)] this(2) msg show ?thesis
    using assms(3) by (auto simp: feed_measure_def)
qed

function feed :: "'s nss \<Rightarrow> bytes \<Rightarrow> 's vscclient \<Rightarrow> 's vscclient option" where
  "feed nss input k =
     (if input = [] \<or> \<not> watching k then Some k
      else do {
        (ok, input, k) \<leftarrow> do_socket_read nss input k;
        feed nss input (k\<lparr>watching := ok\<rparr>)
      })"
  by pat_completeness auto
termination
  by (relation "measure (\<lambda>(nss, input, k). feed_measure input k)") (auto dest: do_socket_read_measure)

declare feed.simps [simp del]

lemma feed_Nil [simp]: "feed nss [] k = Some k"
  by (subst feed.simps) simp

lemma feed_closed [simp]: "\<not> watching k \<Longrightarrow> feed nss input k = Some k"
  by (subst feed.simps) simp

lemma store_bytes_append:
  "store_bytes off (bs @ cs) xs = Option.bind (store_bytes off bs xs) (store_bytes (off + length bs) cs)"
proof (cases "off + length (bs @ cs) \<le> length xs")
  case True
  then have "length (take off xs) = off" by simp
  then show ?thesis using True by (simp add: store_bytes_def add.assoc) (simp add: ac_simps)
next
  case False
  then show ?thesis by (auto simp: store_bytes_def)
qed

lemma store_input_append:
  "store_input (bs @ cs) k = Option.bind (store_input bs k) (store_input cs)"
proof (cases "c_state k")
  case STATE_HEADER
  then show ?thesis
    by (cases "store_bytes (c_buf k) bs (c_header k)")
      (simp_all add: store_input_def store_bytes_append add.assoc bind_assoc)
next
  case STATE_MESSAGE
  then show ?thesis
    by (cases "store_bytes (c_buf k) bs (pbSendBuffer k)")
      (simp_all add: store_input_def store_bytes_append add.assoc bind_assoc)
qed


text \<open>How the reader sees input that comes in two parts.\<close>

lemma do_socket_read_enough:
  assumes "to_read (start_header k) \<le> length xs"
  shows "do_socket_read nss (xs @ ys) k =
    map_option (\<lambda>(ok, input, k). (ok, input @ ys, k)) (do_socket_read nss xs k)"
proof -
  let ?k = "start_header k" and ?n = "to_read (start_header k)"
  have n: "min ?n (length (xs @ ys)) = ?n" "min ?n (length xs) = ?n" using assms by simp_all
  have part: "take ?n (xs @ ys) = take ?n xs" "drop ?n (xs @ ys) = drop ?n xs @ ys" using assms by simp_all
  show ?thesis
  proof (cases "if ?n > 0 then store_input (take ?n xs) ?k else Some ?k")
    case None
    then show ?thesis unfolding do_socket_read_def Let_def n part by simp
  next
    case (Some k1)
    then show ?thesis unfolding do_socket_read_def Let_def n part
      by (cases "process_input nss k1") (simp_all add: split_def)
  qed
qed

lemma do_socket_read_short:
  assumes "length xs < to_read (start_header k)"
  shows "do_socket_read nss xs k = map_option (\<lambda>k. (True, [], k)) (store_input xs (start_header k))"
    and "do_socket_read nss (xs @ ys) k =
      Option.bind (store_input xs (start_header k)) (do_socket_read nss ys)"
proof -
  let ?k = "start_header k"
  have n: "min (to_read ?k) (length xs) = length xs" using assms by simp
  show "do_socket_read nss xs k = map_option (\<lambda>k. (True, [], k)) (store_input xs ?k)"
  proof (cases "store_input xs ?k")
    case (Some k1)
    then show ?thesis using assms n store_input_some [OF Some]
      by (simp add: do_socket_read_def process_input_def Let_def)
  qed (use assms n in \<open>simp add: do_socket_read_def Let_def\<close>)
  let ?n = "min (to_read ?k - length xs) (length ys)"
  have n2: "min (to_read ?k) (length (xs @ ys)) = length xs + ?n" using assms by (auto simp: min_def)
  have part: "take (length xs + ?n) (xs @ ys) = xs @ take ?n ys" "drop (length xs + ?n) (xs @ ys) = drop ?n ys"
    by simp_all
  have pos: "0 < to_read ?k" using assms by simp
  show "do_socket_read nss (xs @ ys) k = Option.bind (store_input xs ?k) (do_socket_read nss ys)"
  proof (cases "store_input xs ?k")
    case None
    then show ?thesis
      unfolding do_socket_read_def Let_def n2 part store_input_append using pos by simp
  next
    case (Some k1)
    then have k1: "to_read k1 = to_read ?k - length xs" "start_header k1 = k1" "0 < to_read k1"
      using assms store_input_some [OF Some] by (simp_all add: start_header_def)
    then show ?thesis
      unfolding do_socket_read_def Let_def n2 part store_input_append using pos Some by simp
  qed
qed

lemma feed_append: "feed nss (xs @ ys) k = Option.bind (feed nss xs k) (feed nss ys)"
proof (induction nss xs k rule: feed.induct)
  case (1 nss xs k)
  consider "xs = [] \<or> \<not> watching k" | "xs \<noteq> []" "watching k" "ys = []"
    | "xs \<noteq> []" "watching k" "ys \<noteq> []" "to_read (start_header k) \<le> length xs"
    | "xs \<noteq> []" "watching k" "ys \<noteq> []" "length xs < to_read (start_header k)" by force
  then show ?case
  proof cases
    case 1
    then show ?thesis by auto
  next
    case 2
    then show ?thesis by (cases "feed nss xs k") simp_all
  next
    case 3
    show ?thesis
    proof (cases "do_socket_read nss xs k")
      case None
      then show ?thesis using 3 by (simp add: feed.simps [of nss _ k] do_socket_read_enough)
    next
      case (Some r)
      obtain ok input k1 where r: "r = (ok, input, k1)" by (cases r)
      have "feed nss (input @ ys) (k1\<lparr>watching := ok\<rparr>) = Option.bind (feed nss input (k1\<lparr>watching := ok\<rparr>)) (feed nss ys)"
        using "1.IH" [OF _ Some [unfolded r] refl refl] 3(1,2) by blast
      then show ?thesis using 3 Some r by (simp add: feed.simps [of nss _ k] do_socket_read_enough)
    qed
  next
    case 4
    show ?thesis
    proof (cases "store_input xs (start_header k)")
      case None
      then show ?thesis using 4 by (simp add: feed.simps [of nss _ k] do_socket_read_short)
    next
      case (Some k1)
      then have same: "k1\<lparr>watching := True\<rparr> = k1" and still: "watching k1"
        using store_input_some [OF Some] 4(2) by simp_all
      have "feed nss xs k = Some (k1\<lparr>watching := True\<rparr>)"
        using 4 Some by (simp add: feed.simps [of nss xs k] do_socket_read_short(1))
      then have "feed nss xs k = Some k1" unfolding same .
      moreover have "feed nss (xs @ ys) k = feed nss ys k1"
        using 4 Some still
        by (simp add: feed.simps [of nss "xs @ ys" k] feed.simps [of nss ys k1] do_socket_read_short(2))
      ultimately show ?thesis by simp
    qed
  qed
qed


section \<open>Whole messages\<close>

lemma of_le32_le32 [simp]: "of_le32 (le32 w) = w"
proof (rule bit_word_eqI)
  fix n :: nat
  assume "n < LENGTH(32)"
  then consider "n < 8" | "8 \<le> n" "n < 16" | "16 \<le> n" "n < 24" | "24 \<le> n" "n < 32" by fastforce
  then show "bit (of_le32 (le32 w)) n = bit w n"
    by cases (auto simp: of_le32_def le32_def bit_simps)
qed

lemma le32_length [simp]: "length (le32 w) = 4" "length (be32 w) = 4"
  by (simp_all add: le32_def be32_def)

lemma of_be32_be32 [simp]: "of_be32 (be32 w @ xs) = w" "of_be32 (be32 w) = w"
  by (simp_all add: of_be32_def) (simp_all add: be32_def)

lemma header_roundtrip: "header_of (header_bytes h) = h" "length (header_bytes h) = 12"
  by (simp_all add: header_of_def header_bytes_def)

text \<open>The client waits for a header; its arrays have their sizes.\<close>

definition at_header :: "'s vscclient \<Rightarrow> bool" where
  "at_header k \<longleftrightarrow> c_state k = STATE_HEADER \<and> to_read k = 0 \<and> watching k \<and> length (c_header k) = 12 \<and>
     length (pbSendBuffer k) = APDUBufSize"

definition known_type :: "VSCMsgHeader \<Rightarrow> bool" where
  "known_type h \<longleftrightarrow> mh_type h \<in> {msg_type VSC_APDU, msg_type VSC_Flush, msg_type VSC_Error, msg_type VSC_Init}"

text \<open>The client after it has read a header and some data.\<close>

definition received :: "VSCMsgHeader \<Rightarrow> bytes \<Rightarrow> 's vscclient \<Rightarrow> 's vscclient" where
  "received h data k =
     k\<lparr>c_header := header_bytes h, mhHeader := h, c_state := STATE_MESSAGE,
       pbSendBuffer := data @ drop (length data) (pbSendBuffer k), c_buf := length data,
       to_read := unat (mh_length h) - length data\<rparr>"

lemma feed_header:
  assumes "at_header k" and "known_type h"
  shows "feed nss (header_bytes h) k = Some (received h [] k)"
proof -
  let ?k = "k\<lparr>c_buf := 0, to_read := 12\<rparr>"
  have start: "start_header k = ?k" using assms(1) by (simp add: at_header_def start_header_def)
  have "store_bytes 0 (header_bytes h) (c_header k) = Some (header_bytes h)"
    using assms(1) by (simp add: store_bytes_def at_header_def header_roundtrip)
  then have "store_input (header_bytes h) ?k = Some (?k\<lparr>c_header := header_bytes h, c_buf := 12, to_read := 0\<rparr>)"
    using assms(1) by (simp add: store_input_def at_header_def header_roundtrip)
  then have "do_socket_read nss (header_bytes h) k = Some (True, [], received h [] k)"
    using assms start
    by (simp add: do_socket_read_def process_input_def handle_header_def header_roundtrip at_header_def
        known_type_def received_def Let_def)
  moreover have "header_bytes h \<noteq> []" using header_roundtrip(2) [of h] by auto
  moreover have "(received h [] k)\<lparr>watching := True\<rparr> = received h [] k"
    using assms(1) by (simp add: received_def at_header_def)
  ultimately show ?thesis using assms(1) by (simp add: feed.simps [of nss _ k] at_header_def)
qed

lemma feed_data:
  assumes "at_header k" and "unat (mh_length h) = length data" and "data \<noteq> []" and "length data \<le> APDUBufSize"
  shows "feed nss data (received h [] k) =
    map_option (\<lambda>(ok, k). k\<lparr>watching := ok\<rparr>) (handle_message nss (received h data k))"
proof -
  let ?k = "received h [] k"
  have len: "length (pbSendBuffer k) = APDUBufSize" and watch: "watching ?k"
    using assms(1) by (simp_all add: at_header_def received_def)
  have start: "start_header ?k = ?k" by (simp add: received_def start_header_def)
  have "store_bytes 0 data (pbSendBuffer k) = Some (data @ drop (length data) (pbSendBuffer k))"
    using assms(4) len by (simp add: store_bytes_def)
  then have "store_input data ?k = Some (received h data k)"
    using assms(2) by (simp add: store_input_def received_def)
  then have "do_socket_read nss data ?k = map_option (\<lambda>(ok, k). (ok, [], k)) (handle_message nss (received h data k))"
    using assms(2,3) start
    by (cases "handle_message nss (received h data k)")
      (auto simp: do_socket_read_def process_input_def received_def Let_def)
  then show ?thesis using assms(3) watch
    by (cases "handle_message nss (received h data k)") (auto simp: feed.simps [of nss data ?k])
qed

lemma feed_message:
  assumes "at_header k" and "known_type h" and "unat (mh_length h) = length data" and "data \<noteq> []"
    and "length data \<le> APDUBufSize"
  shows "feed nss (header_bytes h @ data) k =
    map_option (\<lambda>(ok, k). k\<lparr>watching := ok\<rparr>) (handle_message nss (received h data k))"
  using feed_header [OF assms(1,2)] feed_data [OF assms(1,3-5)] by (simp add: feed_append)

lemma feed_too_long:
  assumes "at_header k" and "unat (mh_length h) = length data" and "APDUBufSize < length data"
  shows "feed nss data (received h [] k) = None"
proof -
  let ?k = "received h [] k"
  have "store_input data ?k = None"
    using assms by (simp add: store_input_def store_bytes_def received_def at_header_def)
  moreover have "start_header ?k = ?k" "watching ?k" "data \<noteq> []" "to_read ?k = length data"
    using assms by (auto simp: received_def start_header_def at_header_def)
  ultimately show ?thesis
    by (simp add: feed.simps [of nss data ?k] do_socket_read_def Let_def)
qed


section \<open>The card of a reader\<close>

definition inserted_card :: "'s emul_memory \<Rightarrow> nat \<Rightarrow> 's cac_card option" where
  "inserted_card m r = do { reader \<leftarrow> vreaders m r; c \<leftarrow> rd_card reader; obj \<leftarrow> vcards m c; Some (cd_card obj) }"

definition the_reader :: "'s cac_card \<Rightarrow> 's VReader" where
  "the_reader vcard = \<lparr>reader_card = Some vcard, reader_name = [], reader_id = 0\<rparr>"

lemma with_card_eq:
  assumes "system m HR HC HE NE evs rs" and "inserted_card m r = Some vcard"
    and "f (the_reader vcard) = Inr (st, out, reader')" and "reader_card reader' = Some vcard'"
  shows "\<exists>m'. with_card (Some r) f m = Some (st, out, m') \<and> system m' HR HC HE NE evs rs \<and>
    vreaders m' = vreaders m \<and> inserted_card m' r = Some vcard' \<and>
    (\<exists>c obj. m' = m\<lparr>vcards := (vcards m)(c \<mapsto> obj\<lparr>cd_card := vcard'\<rparr>)\<rparr>)"
proof -
  obtain es l xs where sys: "system_at m HR HC HE NE es evs l xs rs" using assms(1) by (auto simp: system_def)
  note s = system_atD(1) [OF sys]
  obtain v c obj where v: "vreaders m r = Some v" "rd_card v = Some c" "vcards m c = Some obj" "cd_card obj = vcard"
    using assms(2) by (auto simp: inserted_card_def bind_eq_Some_conv)
  let ?m = "m\<lparr>vcards := (vcards m)(c \<mapsto> obj\<lparr>cd_card := vcard'\<rparr>)\<rparr>"
  have "c \<in># card_refs m + HC" using count_ok_count [OF countedD(2) [OF s] v(3)] by blast
  from count_okD [OF countedD(2) [OF s] this] have "cd_reference_count obj \<noteq> 0"
    using v(3) by (metis less_irrefl option.inject)
  then have "vcard_free (Some c) (m\<lparr>vcards := (vcards m)(c \<mapsto>
      obj\<lparr>cd_reference_count := cd_reference_count obj + 1, cd_card := vcard'\<rparr>)\<rparr>) = Some ?m"
    by (simp add: vcard_free.simps)
  then have "with_card (Some r) f m = Some (st, out, ?m)"
    using v assms(3,4) by (simp add: with_card_def vreader_get_card_def vcard_reference.simps the_reader_def)
  moreover have "counted ?m HR HC"
    using count_ok_keep [OF countedD(2) [OF s] v(3), of "obj\<lparr>cd_card := vcard'\<rparr>"] v(3)
    by (intro counted_vcards [OF s]) auto
  then have "system_at ?m HR HC HE NE es evs l xs rs"
    by (intro system_links [OF sys]) (simp_all add: same_links_def)
  moreover have "inserted_card ?m r = Some vcard'" using v by (simp add: inserted_card_def)
  moreover have "\<exists>c obj. ?m = m\<lparr>vcards := (vcards m)(c \<mapsto> obj\<lparr>cd_card := vcard'\<rparr>)\<rparr>" by blast
  ultimately show ?thesis unfolding system_def by (intro exI [of _ ?m]) auto
qed

lemma reader_by_id_eq:
  assumes "system m HR HC HE NE evs rs" and "i \<noteq> -1"
  shows "vreader_get_reader_by_id i m =
    (case find (\<lambda>r. map_option rd_id (vreaders m r) = Some i) rs of
       None \<Rightarrow> Some (None, m) | Some r \<Rightarrow> vreader_reference (Some r) m)"
proof -
  obtain es l xs where sys: "system_at m HR HC HE NE es evs l xs rs" using assms(1) by (auto simp: system_def)
  note s = system_atD [OF sys]
  have first: "vreader_list_get_first (vreader_list m) m = Some (start xs None)"
    using s(5,6) by (simp add: list_at_def)
  have "find (\<lambda>r. Some (rd_id (the (reader_at m r)) = i) = Some True) rs =
      find (\<lambda>r. map_option rd_id (vreaders m r) = Some i) rs"
  proof (rule find_cong [OF refl])
    fix r assume "r \<in> set rs"
    then obtain v where "vreaders m r = Some v" using system_reader_alive [OF assms(1)] by blast
    then show "(Some (rd_id (the (reader_at m r)) = i) = Some True) = (map_option rd_id (vreaders m r) = Some i)"
      by (simp add: reader_at_def)
  qed
  with list_lookup_eq [OF s(1,6), of "\<lambda>reader. Some (rd_id reader = i)"] show ?thesis
    using first assms(2) by (simp add: vreader_get_reader_by_id_def)
qed

lemma listed_live:
  assumes "system m HR HC HE NE evs rs" and "r \<in> set rs"
  obtains v where "vreaders m r = Some v" and "0 < rd_reference_count v" and "r \<in># reader_refs m + HR"
proof -
  obtain es l xs where sys: "system_at m HR HC HE NE es evs l xs rs" using assms(1) by (auto simp: system_def)
  note s = system_atD [OF sys]
  have "r \<in># reader_refs m + HR"
    using s(6) by (intro listed_reference [OF s(1) _ assms(2), of xs]) (simp add: list_at_def entries_ok_def)
  then show ?thesis using that count_okD [OF countedD(1) [OF s(1)]] by metis
qed

section \<open>Answering an APDU\<close>

definition apdu_message :: "uint32 \<Rightarrow> bytes \<Rightarrow> bytes" where
  "apdu_message i data = header_bytes \<lparr>mh_type = msg_type VSC_APDU, mh_reader_id = i, mh_length = of_nat (length data)\<rparr> @ data"

lemma handle_apdu_ok:
  assumes "system (c_memory k) HR HC HE NE evs rs" and "mh_reader_id (mhHeader k) \<noteq> -1"
    and "find (\<lambda>r. map_option rd_id (vreaders (c_memory k) r) = Some (mh_reader_id (mhHeader k))) rs = Some r"
    and "inserted_card (c_memory k) r = Some vcard"
    and "vreader_xfr_bytes nss (the_reader vcard) (take (unat (mh_length (mhHeader k))) (pbSendBuffer k)) APDUBufSize =
      Inr (VREADER_OK, out, the_reader vcard')"
  shows "\<exists>m'. handle_apdu nss k = Some (send_msg VSC_APDU (mh_reader_id (mhHeader k)) out
      (k\<lparr>mhHeader := (mhHeader k)\<lparr>mh_length := of_nat (length out)\<rparr>, c_memory := m'\<rparr>)) \<and>
    system m' HR HC HE NE evs rs \<and> vreaders m' = vreaders (c_memory k) \<and> inserted_card m' r = Some vcard'"
proof -
  let ?m = "c_memory k"
  have "r \<in> set rs" using assms(3) by (auto simp: find_Some_iff)
  then obtain v where v: "vreaders ?m r = Some v" "0 < rd_reference_count v" "r \<in># reader_refs ?m + HR"
    by (rule listed_live [OF assms(1)])
  let ?v = "v\<lparr>rd_reference_count := rd_reference_count v + 1\<rparr>"
  let ?m1 = "?m\<lparr>vreaders := (vreaders ?m)(r \<mapsto> ?v)\<rparr>"
  have ref: "vreader_reference (Some r) ?m = Some (Some r, ?m1)" using v(1) by (simp add: vreader_reference.simps)
  then have get: "vreader_get_reader_by_id (mh_reader_id (mhHeader k)) ?m = Some (Some r, ?m1)"
    using reader_by_id_eq [OF assms(1,2)] assms(3) by simp
  obtain es l xs where sys: "system_at ?m HR HC HE NE es evs l xs rs" using assms(1) by (auto simp: system_def)
  obtain m1' where "vreader_reference (Some r) ?m = Some (Some r, m1')" "counted m1' (add_mset r HR) HC" "same_links ?m m1'"
    using vreader_reference_ok [OF system_atD(1) [OF sys] v(3)] by blast
  moreover from this have "m1' = ?m1" using ref by simp
  ultimately have "system_at ?m1 (add_mset r HR) HC HE NE es evs l xs rs"
    using system_links [OF sys] by blast
  then have sys1: "system ?m1 (add_mset r HR) HC HE NE evs rs" unfolding system_def by blast
  have card1: "inserted_card ?m1 r = Some vcard" using assms(4) v(1) by (simp add: inserted_card_def)
  have "reader_card (the_reader vcard') = Some vcard'" by (simp add: the_reader_def)
  from with_card_eq [where f = "\<lambda>r. vreader_xfr_bytes nss r (take (unat (mh_length (mhHeader k))) (pbSendBuffer k)) APDUBufSize",
      OF sys1 card1 assms(5) this]
  obtain m2 where m2: "memory_xfr_bytes nss (Some r) (take (unat (mh_length (mhHeader k))) (pbSendBuffer k)) APDUBufSize ?m1 =
      Some (VREADER_OK, out, m2)" "system m2 (add_mset r HR) HC HE NE evs rs" "vreaders m2 = vreaders ?m1"
      "inserted_card m2 r = Some vcard'"
    by (auto simp: memory_xfr_bytes_def)
  let ?m3 = "m2\<lparr>vreaders := (vreaders m2)(r \<mapsto> v)\<rparr>"
  have free: "vreader_free (Some r) m2 = Some ?m3" using v(2) m2(3) by (simp add: vreader_free.simps)
  then have "system ?m3 HR HC HE NE evs rs" using free_reader_ok [OF m2(2)] by simp
  moreover have "vreaders ?m3 = vreaders ?m" using m2(3) v(1) by (simp add: fun_upd_idem)
  moreover have "inserted_card ?m3 r = Some vcard'" using m2(3,4) by (simp add: inserted_card_def)
  moreover have "handle_apdu nss k = Some (send_msg VSC_APDU (mh_reader_id (mhHeader k)) out
      (k\<lparr>mhHeader := (mhHeader k)\<lparr>mh_length := of_nat (length out)\<rparr>, c_memory := ?m3\<rparr>))"
    using get m2(1) free by (simp add: handle_apdu_def send_msg_def Let_def)
  ultimately show ?thesis by blast
qed

text \<open>A session with the card: the answers to a sequence of commands.\<close>

fun card_session :: "'s nss \<Rightarrow> 's VReader \<Rightarrow> bytes list \<Rightarrow> fault + bytes list \<times> 's VReader" where
  "card_session nss reader [] = Inr ([], reader)"
| "card_session nss reader (c # cs) =
     (case vreader_xfr_bytes nss reader c APDUBufSize of
        Inl f \<Rightarrow> Inl f
      | Inr (st, out, reader) \<Rightarrow>
          (case card_session nss reader cs of Inl f \<Rightarrow> Inl f | Inr (outs, reader) \<Rightarrow> Inr (out # outs, reader)))"


lemma card_session_ok:
  assumes "nss_ok nss" and "reader_ok reader"
  shows "\<exists>outs reader'. card_session nss reader cs = Inr (outs, reader') \<and> length outs = length cs \<and> reader_ok reader'"
  using assms(2)
proof (induction cs arbitrary: reader)
  case (Cons c cs)
  obtain r reader1 where "vreader_xfr_bytes nss reader c APDUBufSize = Inr (VREADER_OK, r, reader1)" "reader_ok reader1"
    using xfr_ok [OF assms(1) Cons.prems, of c APDUBufSize] by blast
  with Cons.IH [OF this(2)] show ?case by auto
qed simp

definition card_ok :: "'s cac_card \<Rightarrow> bool" where
  "card_ok vcard \<longleftrightarrow> card_wf applet_ok vcard \<and> card_type vcard = VCARD_VM"

lemma the_reader_xfr:
  assumes "nss_ok nss" and "card_ok vcard"
  shows "\<exists>out vcard'. vreader_xfr_bytes nss (the_reader vcard) data cap = Inr (VREADER_OK, out, the_reader vcard') \<and>
    card_ok vcard' \<and> length out \<le> cap"
proof -
  have "reader_ok (the_reader vcard)" using assms(2) by (simp add: reader_ok_def the_reader_def card_ok_def)
  from xfr_ok [OF assms(1) this] obtain r reader' where r: "vreader_xfr_bytes nss (the_reader vcard) data cap =
      Inr (VREADER_OK, take cap (response_bytes r), reader')" "reader_ok reader'" by blast
  have "\<exists>c. reader' = (the_reader vcard)\<lparr>reader_card := Some c\<rparr>"
    using r(1) by (auto simp: vreader_xfr_bytes_def the_reader_def Let_def split: sum.splits prod.splits option.splits if_splits)
  then obtain c where "reader' = the_reader c" by (auto simp: the_reader_def)
  then show ?thesis using r by (auto simp: the_reader_def reader_ok_def card_ok_def)
qed

text \<open>What a session through the socket relies on.\<close>

definition session_at :: "'s vscclient \<Rightarrow> uint32 \<Rightarrow> nat \<Rightarrow> 's cac_card \<Rightarrow> nat list \<Rightarrow> bool" where
  "session_at k i r vcard rs \<longleftrightarrow> at_header k \<and> i \<noteq> -1 \<and>
     (\<exists>HR HC HE NE evs. system (c_memory k) HR HC HE NE evs rs) \<and>
     find (\<lambda>r. map_option rd_id (vreaders (c_memory k) r) = Some i) rs = Some r \<and>
     inserted_card (c_memory k) r = Some vcard"

lemma apdu_answered:
  assumes "nss_ok nss" and "session_at k i r vcard rs" and "card_ok vcard" and "data \<noteq> []" and "length data \<le> APDUBufSize"
  shows "\<exists>k' out vcard'. vreader_xfr_bytes nss (the_reader vcard) data APDUBufSize = Inr (VREADER_OK, out, the_reader vcard') \<and>
    feed nss (apdu_message i data) k = Some k' \<and> socket_to_send k' = socket_to_send k @ apdu_message 0 out \<and>
    session_at k' i r vcard' rs \<and> card_ok vcard' \<and> vreaders (c_memory k') = vreaders (c_memory k)"
proof -
  let ?h = "\<lparr>mh_type = msg_type VSC_APDU, mh_reader_id = i, mh_length = of_nat (length data)\<rparr> :: VSCMsgHeader"
  obtain HR HC HE NE evs where k: "at_header k" "i \<noteq> -1" "system (c_memory k) HR HC HE NE evs rs"
      "find (\<lambda>r. map_option rd_id (vreaders (c_memory k) r) = Some i) rs = Some r" "inserted_card (c_memory k) r = Some vcard"
    using assms(2) by (auto simp: session_at_def)
  have len: "unat (of_nat (length data) :: uint32) = length data"
    using assms(5) by (simp add: unsigned_of_nat take_bit_eq_mod)
  let ?k = "received ?h data k"
  have same: "c_memory ?k = c_memory k" "mhHeader ?k = ?h" "take (length data) (pbSendBuffer ?k) = data"
      "watching ?k" "length (pbSendBuffer ?k) = APDUBufSize" "length (c_header ?k) = 12" "to_read ?k = 0"
      "socket_to_send ?k = socket_to_send k"
    using k(1) assms(5) len by (simp_all add: received_def at_header_def header_roundtrip)
  obtain out vcard' where x: "vreader_xfr_bytes nss (the_reader vcard) data APDUBufSize = Inr (VREADER_OK, out, the_reader vcard')"
      "card_ok vcard'" "length out \<le> APDUBufSize"
    using the_reader_xfr [OF assms(1,3)] by blast
  obtain m' where m': "handle_apdu nss ?k = Some (send_msg VSC_APDU i out
        (?k\<lparr>mhHeader := ?h\<lparr>mh_length := of_nat (length out)\<rparr>, c_memory := m'\<rparr>))"
      "system m' HR HC HE NE evs rs" "vreaders m' = vreaders (c_memory k)" "inserted_card m' r = Some vcard'"
    using handle_apdu_ok [of ?k HR HC HE NE evs rs r vcard nss out vcard'] k(2-5) x(1) same(1-3) len by auto
  let ?k' = "send_msg VSC_APDU i out (?k\<lparr>mhHeader := ?h\<lparr>mh_length := of_nat (length out)\<rparr>, c_memory := m'\<rparr>)
    \<lparr>c_state := STATE_HEADER, watching := True\<rparr>"
  have "feed nss (apdu_message i data) k = Some ?k'"
    using feed_message [of k ?h data nss] k(1) assms(4,5) len m'(1) same(2)
    by (simp add: apdu_message_def known_type_def handle_message_def)
  moreover have "socket_to_send ?k' = socket_to_send k @ apdu_message 0 out"
    using same(8) by (simp add: send_msg_def apdu_message_def)
  moreover have "session_at ?k' i r vcard' rs"
    using k(2,4) m'(2-4) same(5-7) by (simp add: session_at_def at_header_def send_msg_def) blast
  moreover have "vreaders (c_memory ?k') = vreaders (c_memory k)" using m'(3) by (simp add: send_msg_def)
  ultimately show ?thesis using x(1,2) by blast
qed

lemma session_feed:
  assumes "nss_ok nss" and "session_at k i r vcard rs" and "card_ok vcard"
    and "\<forall>c \<in> set cs. c \<noteq> [] \<and> length c \<le> APDUBufSize"
  shows "\<exists>k' outs vcard'. card_session nss (the_reader vcard) cs = Inr (outs, the_reader vcard') \<and>
    feed nss (concat (map (apdu_message i) cs)) k = Some k' \<and>
    socket_to_send k' = socket_to_send k @ concat (map (apdu_message 0) outs) \<and>
    session_at k' i r vcard' rs \<and> card_ok vcard'"
  using assms(2-4)
proof (induction cs arbitrary: k vcard)
  case Nil
  then show ?case by auto
next
  case (Cons c cs)
  obtain k1 out vcard1 where k1: "vreader_xfr_bytes nss (the_reader vcard) c APDUBufSize = Inr (VREADER_OK, out, the_reader vcard1)"
      "feed nss (apdu_message i c) k = Some k1" "socket_to_send k1 = socket_to_send k @ apdu_message 0 out"
      "session_at k1 i r vcard1 rs" "card_ok vcard1"
    using apdu_answered [OF assms(1) Cons.prems(1,2), of c] Cons.prems(3) by auto
  from Cons.IH [OF k1(4,5)] Cons.prems(3) obtain k2 outs vcard2 where
      "card_session nss (the_reader vcard1) cs = Inr (outs, the_reader vcard2)"
      "feed nss (concat (map (apdu_message i) cs)) k1 = Some k2"
      "socket_to_send k2 = socket_to_send k1 @ concat (map (apdu_message 0) outs)" "session_at k2 i r vcard2 rs" "card_ok vcard2"
    by auto
  then show ?case using k1(1-3) by (intro exI [of _ k2] exI [of _ "out # outs"] exI [of _ vcard2]) (simp add: feed_append)
qed


section \<open>Properties\<close>

text \<open>The static variables as the program starts, with the library initialised; \<open>c_stack\<close> is arbitrary.\<close>

definition initial_client :: "'s emul_memory \<Rightarrow> bytes \<Rightarrow> 's vscclient" where
  "initial_client m stack = \<lparr>c_memory = m, socket_to_send = [], pending_reader = None, c_threads = [], c_stack = stack,
     c_header = replicate 12 0, mhHeader = \<lparr>mh_type = 0, mh_reader_id = 0, mh_length = 0\<rparr>,
     pbSendBuffer = replicate APDUBufSize 0, c_buf = 0, to_read = 0, c_state = STATE_HEADER, watching = True\<rparr>"

lemma initial_at_header: "at_header (initial_client m stack)"
  by (simp add: initial_client_def at_header_def)

text \<open>C20: It does not matter how the bytes from the host arrive. Reading input in two parts, split anywhere, in the
  middle of a header or of a message too, has the same effect as reading it at once, up to the same fault.\<close>

theorem socket_chunks:
  "feed nss (xs @ ys) k = do { k \<leftarrow> feed nss xs k; feed nss ys k }"
  by (rule feed_append)

fun feed_chunks :: "'s nss \<Rightarrow> bytes list \<Rightarrow> 's vscclient \<Rightarrow> 's vscclient option" where
  "feed_chunks nss [] k = Some k"
| "feed_chunks nss (c # cs) k = do { k \<leftarrow> feed nss c k; feed_chunks nss cs k }"

lemma feed_chunks_concat: "feed_chunks nss cs k = feed nss (concat cs) k"
proof (induction cs arbitrary: k)
  case (Cons c cs)
  then show ?case by (cases "feed nss c k") (simp_all add: feed_append)
qed simp

text \<open>C3: The host talks to the card. APDU messages for a reader of the library, sent over the socket in whatever
  pieces, are answered one by one, in order, with exactly the bytes the card in the reader
  answers when it is given the commands directly, and the card in the library ends up in the same state.\<close>

theorem session_through_socket:
  assumes "nss_ok nss" and "session_at k i r vcard rs" and "card_ok vcard"
    and "\<forall>c \<in> set cs. c \<noteq> [] \<and> length c \<le> APDUBufSize"
    and "concat chunks = concat (map (apdu_message i) cs)"
  shows "\<exists>k' outs vcard'. card_session nss (the_reader vcard) cs = Inr (outs, the_reader vcard') \<and>
    feed_chunks nss chunks k = Some k' \<and>
    socket_to_send k' = socket_to_send k @ concat (map (apdu_message 0) outs) \<and> session_at k' i r vcard' rs"
  using session_feed [OF assms(1-4)] assms(5) by (auto simp: feed_chunks_concat)

lemma example_session:
  "\<exists>(k :: bool vscclient) r vcard. session_at k 0 r vcard [r] \<and> card_ok vcard \<and> socket_to_send k = []"
proof -
  let ?e = "vreader_emul_new 3 VCARD_EMUL_CAC None"
  let ?v = "\<lparr>rd_reference_count = 0, rd_card = None, rd_name = ''r'', rd_id = -1, rd_private = Some ?e\<rparr>"
  have "em_saved_vcard ?e = None" by (simp add: vreader_emul_new_def)
  from new_listed_reader_ok [OF start_system this, of "''r''"]
  obtain r and m1 :: "bool emul_memory" where m1: "system m1 {#r#} {#} {} {} [(VEVENT_READER_INSERT, Some r, None)] [r]"
      "reader_at m1 r = Some ?v"
    by (metis append_Nil fun_upd_same)
  obtain st vcard where vcard: "vcard_init demo_nss VCARD_EMUL_CAC [] (vcard_new True) = Inr (st, vcard)" "card_ok vcard"
    using vcard_init_ok [OF card_wf_new, of demo_nss "[]" True] by (auto simp: card_ok_def)
  obtain c m2 where m2: "vcard_alloc vcard m1 = (c, m2)" "vreaders m2 = vreaders m1"
      "system m2 {#r#} {#c#} {} {} [(VEVENT_READER_INSERT, Some r, None)] [r]"
    using new_card_ok [OF m1(1), of vcard] by (cases "vcard_alloc vcard m1") auto
  obtain obj where obj: "vcards m2 c = Some obj" "cd_card obj = vcard" using m2(1) by (auto simp: vcard_alloc_def)
  obtain v where v: "vreaders m2 r = Some v" "rd_card v = None"
    using m1(2) m2(2) by (cases "vreaders m1 r") (auto simp: reader_at_def dest: arg_cong [of _ _ rd_card])
  let ?w = "v\<lparr>rd_card := Some c, rd_id := 0\<rparr>"
  let ?m3 = "m2\<lparr>vreaders := (vreaders m2)(r \<mapsto> ?w)\<rparr>"
  obtain es l xs where sys: "system_at m2 {#r#} {#c#} {} {} es [(VEVENT_READER_INSERT, Some r, None)] l xs [r]"
    using m2(3) by (auto simp: system_def)
  have "counted ?m3 {#r#} {#}"
    using v(2) by (intro counted_reader_upd [OF system_atD(1) [OF sys] v(1)]) (simp_all add: saved_card_def)
  then have "system_at ?m3 {#r#} {#} {} {} es [(VEVENT_READER_INSERT, Some r, None)] l xs [r]"
    by (rule system_readers [OF sys])
  then have "\<exists>HR HC HE NE evs. system ?m3 HR HC HE NE evs [r]" unfolding system_def by blast
  moreover have "inserted_card ?m3 r = Some vcard" using obj by (simp add: inserted_card_def)
  ultimately have "session_at (initial_client ?m3 []) 0 r vcard [r]"
    by (simp add: session_at_def initial_at_header) (simp add: initial_client_def)
  then show ?thesis using vcard(2) by (intro exI [of _ "initial_client ?m3 []"] exI) (auto simp: initial_client_def)
qed

theorem session_through_socket_witness:
  "\<exists>(k :: bool vscclient) k' r vcard vcard' outs.
     card_session demo_nss (the_reader vcard) [[0, 0xa4, 4, 0], [0]] = Inr (outs, the_reader vcard') \<and>
     feed_chunks demo_nss [take 3 (apdu_message 0 [0, 0xa4, 4, 0]), drop 3 (apdu_message 0 [0, 0xa4, 4, 0]) @ apdu_message 0 [0]] k = Some k' \<and>
     socket_to_send k' = concat (map (apdu_message 0) outs) \<and> session_at k' 0 r vcard' [r]"
proof -
  obtain k :: "bool vscclient" and r vcard where k: "session_at k 0 r vcard [r]" "card_ok vcard" "socket_to_send k = []"
    using example_session by blast
  have "\<exists>k' outs vcard'. card_session demo_nss (the_reader vcard) [[0, 0xa4, 4, 0], [0]] = Inr (outs, the_reader vcard') \<and>
     feed_chunks demo_nss [take 3 (apdu_message 0 [0, 0xa4, 4, 0]), drop 3 (apdu_message 0 [0, 0xa4, 4, 0]) @ apdu_message 0 [0]] k = Some k' \<and>
     socket_to_send k' = socket_to_send k @ concat (map (apdu_message 0) outs) \<and> session_at k' 0 r vcard' [r]"
    by (rule session_through_socket [OF demo_nss_ok k(1,2)])
      (simp_all only: concat.simps list.map append_Nil2 append_take_drop_id append_assoc [symmetric], simp)
  then show ?thesis unfolding k(3) append_Nil by blast
qed

text \<open>A message without data is not answered when it has come: after the header of a flush nothing is sent, and
  only when more input comes is the flush completed, before that input is read.\<close>

theorem flush_waits:
  assumes "at_header k" and "h = \<lparr>mh_type = msg_type VSC_Flush, mh_reader_id = i, mh_length = 0\<rparr>" and "rest \<noteq> []"
  shows "\<exists>k1 k2. feed nss (header_bytes h) k = Some k1 \<and> socket_to_send k1 = socket_to_send k \<and>
    feed nss rest k1 = feed nss rest k2 \<and> at_header k2 \<and>
    socket_to_send k2 = socket_to_send k @ header_bytes \<lparr>mh_type = msg_type VSC_FlushComplete, mh_reader_id = 0, mh_length = 0\<rparr>"
proof -
  let ?k1 = "received h [] k"
  let ?k2 = "(send_msg VSC_FlushComplete i [] ?k1)\<lparr>c_state := STATE_HEADER\<rparr>"
  have first: "feed nss (header_bytes h) k = Some ?k1" "socket_to_send ?k1 = socket_to_send k"
    using assms(1,2) feed_header [of k h nss] by (simp_all add: known_type_def received_def)
  have read: "do_socket_read nss rest ?k1 = Some (True, rest, ?k2)"
    using assms(2) by (simp add: do_socket_read_def start_header_def received_def process_input_def handle_message_def Let_def)
  have w: "watching ?k1" "?k2\<lparr>watching := True\<rparr> = ?k2"
    using assms(1) by (simp_all add: received_def at_header_def send_msg_def)
  have "feed nss rest ?k1 = feed nss rest (?k2\<lparr>watching := True\<rparr>)"
    using assms(3) w(1) read by (simp add: feed.simps [of nss rest ?k1])
  then have "feed nss rest ?k1 = feed nss rest ?k2" unfolding w(2) .
  moreover have "at_header ?k2"
    using assms(1,2) by (simp add: at_header_def received_def send_msg_def header_roundtrip)
  moreover have "socket_to_send ?k2 = socket_to_send k @ header_bytes \<lparr>mh_type = msg_type VSC_FlushComplete, mh_reader_id = 0, mh_length = 0\<rparr>"
    by (simp add: send_msg_def received_def)
  ultimately show ?thesis using first by blast
qed

theorem flush_waits_witness:
  "\<exists>m k1 k2. feed demo_nss (header_bytes \<lparr>mh_type = msg_type VSC_Flush, mh_reader_id = 0, mh_length = 0\<rparr>)
      (initial_client m []) = Some k1 \<and> socket_to_send k1 = [] \<and>
    feed demo_nss [0] k1 = feed demo_nss [0] k2 \<and> at_header k2 \<and>
    socket_to_send k2 = header_bytes \<lparr>mh_type = msg_type VSC_FlushComplete, mh_reader_id = 0, mh_length = 0\<rparr>"
  using flush_waits [of "initial_client m []" _ 0 "[0]" demo_nss, OF initial_at_header refl] 
  by (simp add: initial_client_def) blast

text \<open>C27: A host can end the client with one message. A message longer than the array for it is stored beyond the
  array; an \<open>APDU\<close> for an identifier that no reader has uses a null pointer; and an \<open>Init\<close> that announces
  more than one word of capabilities is converted beyond the structure that holds it.\<close>

theorem host_can_crash_client:
  assumes "at_header k" and "system (c_memory k) HR HC HE NE evs rs"
  shows "(APDUBufSize < length data \<and> length data < 2 ^ 32 \<longrightarrow> feed nss (apdu_message i data) k = None) \<and>
    (data \<noteq> [] \<and> length data \<le> APDUBufSize \<and>
      (i = -1 \<or> (\<forall>r \<in> set rs. map_option rd_id (vreaders (c_memory k) r) \<noteq> Some i)) \<longrightarrow> feed nss (apdu_message i data) k = None) \<and>
    feed nss (header_bytes \<lparr>mh_type = msg_type VSC_Init, mh_reader_id = i, mh_length = 16\<rparr> @
      le32 VSCARD_MAGIC @ be32 VSCARD_VERSION @ be32 0 @ be32 0) k = None"
proof -
  let ?h = "\<lparr>mh_type = msg_type VSC_APDU, mh_reader_id = i, mh_length = of_nat (length data)\<rparr> :: VSCMsgHeader"
  have known: "known_type ?h" by (simp add: known_type_def)
  have n: "unat (mh_length ?h) = length data" if "length data < 2 ^ 32"
    using that by (simp add: unsigned_of_nat take_bit_eq_mod)
  have long: "feed nss (apdu_message i data) k = None" if "APDUBufSize < length data" "length data < 2 ^ 32"
    using feed_header [OF assms(1) known] feed_too_long [OF assms(1) n [OF that(2)] that(1)]
    by (simp add: apdu_message_def feed_append)
  have unknown: "feed nss (apdu_message i data) k = None" if data: "data \<noteq> []" "length data \<le> APDUBufSize"
    and none: "i = -1 \<or> (\<forall>r \<in> set rs. map_option rd_id (vreaders (c_memory k) r) \<noteq> Some i)"
  proof -
    have "vreader_get_reader_by_id i (c_memory k) = Some (None, c_memory k)"
    proof (cases "i = -1")
      case False
      then have "find (\<lambda>r. map_option rd_id (vreaders (c_memory k) r) = Some i) rs = None"
        using none by (auto simp: find_None_iff)
      then show ?thesis using reader_by_id_eq [OF assms(2) False] by simp
    qed (simp add: vreader_get_reader_by_id_def)
    then have "handle_message nss (received ?h data k) = None"
      by (simp add: handle_message_def handle_apdu_def received_def memory_xfr_bytes_def with_card_def vreader_get_card_def)
    then show ?thesis using feed_message [OF assms(1) known n data] data(2) by (simp add: apdu_message_def)
  qed
  let ?h = "\<lparr>mh_type = msg_type VSC_Init, mh_reader_id = i, mh_length = 16\<rparr> :: VSCMsgHeader"
  let ?data = "le32 VSCARD_MAGIC @ be32 VSCARD_VERSION @ be32 0 @ be32 0"
  have "num_capabilities 16 = 2" by (simp add: num_capabilities_def)
  moreover have "of_le32 (le32 w @ xs) = w" for w xs
    using of_le32_le32 [of w] by (simp add: of_le32_def le32_def)
  ultimately have "handle_message nss (received ?h ?data k) = None"
    by (simp add: handle_message_def on_host_init_def received_def)
  moreover have "?data \<noteq> []" by (simp add: le32_def)
  ultimately have "feed nss (header_bytes ?h @ ?data) k = None"
    using feed_message [OF assms(1), of ?h ?data nss] by (simp add: known_type_def)
  then show ?thesis using long unknown by (intro conjI impI) simp_all
qed

theorem host_can_crash_client_witness:
  "\<exists>m. feed demo_nss (apdu_message 0 (replicate 271 0)) (initial_client m []) = None \<and>
    feed demo_nss (apdu_message 7 [0]) (initial_client m []) = None"
proof -
  obtain m :: "bool emul_memory" where m: "system m {#} {#} {} {} [] []" using start_system by blast
  have at: "at_header (initial_client m [])" and sys: "system (c_memory (initial_client m [])) {#} {#} {} {} [] []"
    using m initial_at_header by (simp_all add: initial_client_def)
  show ?thesis
    using host_can_crash_client [OF at sys, of "replicate 271 0" demo_nss 0] host_can_crash_client [OF at sys, of "[0]" demo_nss 7]
    by (intro exI [of _ m]) simp
qed

end
