(* ===== verification/Vsc_Library.thy ===== *)
theory Vsc_Library
  imports Vsc_Socket
begin

text \<open>
  What the client of \<open>src/vscclient.c\<close> relies on in the library: \<open>library_ok\<close> is the state in which none
  of its calls can go wrong, whatever cards are in the readers, and every call keeps it. Events that
  a thread has taken from the queue, and the cards of other readers, are not touched by what happens to readers
  and cards meanwhile (\<open>library_kept\<close>).
\<close>

section \<open>Cards that are kept\<close>

definition cards_kept :: "'c memory \<Rightarrow> 'c memory \<Rightarrow> bool" where
  "cards_kept m m' \<longleftrightarrow> (\<forall>c. vcards m' c \<noteq> None \<longrightarrow> map_option cd_card (vcards m' c) = map_option cd_card (vcards m c))"

lemma cards_kept_refl: "vcards m' = vcards m \<Longrightarrow> cards_kept m m'"
  by (simp add: cards_kept_def)

lemma cards_kept_trans: "cards_kept m m' \<Longrightarrow> cards_kept m' m'' \<Longrightarrow> cards_kept m m''"
  by (force simp: cards_kept_def)

lemma vcard_free_cards: "vcard_free c m = Some m' \<Longrightarrow> cards_kept m m'"
  by (cases c) (auto simp: cards_kept_def vcard_free.simps Let_def split: bind_splits if_splits)

lemma vreader_free_cards:
  assumes "vreader_free r m = Some m'"
  shows "cards_kept m m'"
proof (cases r)
  case None
  then show ?thesis using assms by (simp add: cards_kept_def)
next
  case (Some a)
  then obtain reader where r: "vreaders m a = Some reader" using assms by (auto simp: vreader_free.simps split: bind_splits)
  show ?thesis
  proof (cases "rd_reference_count reader > 1")
    case True
    then show ?thesis using assms Some r by (auto simp: vreader_free.simps cards_kept_def)
  next
    case False
    then obtain m1 m2 where m: "vcard_free (rd_card reader) m = Some m1" "vreader_emul_delete (rd_private reader) m1 = Some m2"
        "m' = m2\<lparr>vreaders := (vreaders m2)(a := None)\<rparr>"
      using assms Some r by (auto simp: vreader_free.simps split: bind_splits)
    have "cards_kept m1 m2"
      using m(2) by (cases "rd_private reader") (auto simp: cards_kept_refl dest: vcard_free_cards)
    then have "cards_kept m m2" using vcard_free_cards [OF m(1)] cards_kept_trans by blast
    then show ?thesis using m(3) by (simp add: cards_kept_def)
  qed
qed

definition all_cards_ok :: "'s emul_memory \<Rightarrow> bool" where
  "all_cards_ok m \<longleftrightarrow> (\<forall>c obj. vcards m c = Some obj \<longrightarrow> card_ok (cd_card obj))"

lemma cards_keptD:
  assumes "cards_kept m m'" and "vcards m' c = Some obj'"
  obtains obj where "vcards m c = Some obj" and "cd_card obj = cd_card obj'"
  using assms(2) assms(1) [unfolded cards_kept_def, rule_format, of c] by (cases "vcards m c") auto

lemma all_cards_kept: "all_cards_ok m \<Longrightarrow> cards_kept m m' \<Longrightarrow> all_cards_ok m'"
  unfolding all_cards_ok_def by (metis cards_keptD)

text \<open>The library in a state in which no call can go wrong: the events taken from the queue, at \<open>HE\<close>, and those
  in it are about readers, and the cards are well-formed.\<close>

definition library_ok :: "'s emul_memory \<Rightarrow> nat multiset \<Rightarrow> nat multiset \<Rightarrow> nat set \<Rightarrow>
    (VEventType \<times> nat option \<times> nat option) list \<Rightarrow> nat list \<Rightarrow> bool" where
  "library_ok m HR HC HE evs rs \<longleftrightarrow> system m HR HC HE {} evs rs \<and> all_cards_ok m \<and>
     (\<forall>e \<in> HE. \<exists>ty r c. event_at m e = Some (ty, Some r, c)) \<and> (\<forall>(ty, r, c) \<in> set evs. r \<noteq> None)"

lemma event_reader_live:
  assumes "system m HR HC HE NE evs rs" and "event_at m e = Some (ty, Some r, c)"
  obtains v where "vreaders m r = Some v" and "0 < rd_reference_count v" and "r \<in># reader_refs m + HR"
proof -
  obtain es l xs where sys: "system_at m HR HC HE NE es evs l xs rs" using assms(1) by (auto simp: system_def)
  note c = system_atD(1) [OF sys]
  obtain w where "vevents m e = Some w" "ev_reader w = Some r" using assms(2) by (auto simp: event_at_def)
  then have "r \<in># reader_refs m + HR"
    using refs_in [OF countedD(3) [OF c], of e w ev_reader r] by (simp add: reader_refs_def)
  then show ?thesis using that count_okD [OF countedD(1) [OF c]] by metis
qed

lemma take_event_ok:
  assumes "library_ok m HR HC HE evs rs"
  shows "case evs of
      [] \<Rightarrow> vevent_get_next_vevent m = Some (None, m)
    | ev # evs' \<Rightarrow> \<exists>e m'. vevent_get_next_vevent m = Some (Some e, m') \<and> event_at m' e = Some ev \<and> e \<notin> HE \<and>
        event_at m' = event_at m \<and> vreaders m' = vreaders m \<and> vcards m' = vcards m \<and>
        library_ok m' HR HC (insert e HE) evs' rs"
proof (cases evs)
  case Nil
  then show ?thesis using assms next_event_ok [of m HR HC HE "{}" evs rs] by (simp add: library_ok_def)
next
  case (Cons ev evs')
  then obtain e m' where m': "vevent_get_next_vevent m = Some (Some e, m')" "event_at m' e = Some ev"
      "e \<notin> HE" "event_at m' = event_at m" "vreaders m' = vreaders m" "system m' HR HC (insert e HE) {} evs' rs"
    using assms next_event_ok [of m HR HC HE "{}" evs rs] by (auto simp: library_ok_def)
  have "vcards m' = vcards m"
    using m'(1) by (auto simp: vevent_get_next_vevent_def vevent_dequeue_vevent_def vevent_set_next_def
        split: option.splits bind_splits)
  moreover have "\<exists>ty r c. ev = (ty, Some r, c)" using assms Cons by (auto simp: library_ok_def)
  ultimately have "library_ok m' HR HC (insert e HE) evs' rs"
    using assms Cons m' by (auto simp: library_ok_def all_cards_ok_def)
  then show ?thesis using Cons m' \<open>vcards m' = vcards m\<close> by auto
qed

lemma delete_held_ok:
  assumes "library_ok m HR HC HE evs rs" and "e \<in> HE"
  shows "\<exists>m'. vevent_delete (Some e) m = Some m' \<and> readers_kept m m' \<and> cards_kept m m' \<and>
    event_at m' = (event_at m)(e := None) \<and> library_ok m' HR HC (HE - {e}) evs rs"
proof -
  have sys: "system m HR HC HE {} evs rs" using assms(1) by (simp add: library_ok_def)
  obtain m' where m': "vevent_delete (Some e) m = Some m'" "readers_kept m m'" "system m' HR HC (HE - {e}) {} evs rs"
    using delete_event_ok [OF sys assms(2)] by blast
  obtain v m1 m2 where d: "vevents m e = Some v" "vreader_free (ev_reader v) m = Some m1"
      "vcard_free (ev_card v) m1 = Some m2" "m' = m2\<lparr>vevents := (vevents m2)(e := None)\<rparr>"
    using m'(1) by (auto split: bind_splits)
  have "vevents m2 = vevents m"
    using vreader_free_links [OF d(2)] vcard_free_links [OF d(3)] by (simp add: same_links_def)
  then have "event_at m' = (event_at m)(e := None)" using d(4) by (auto simp: event_at_def fun_eq_iff)
  moreover have "cards_kept m m'"
    using cards_kept_trans [OF vreader_free_cards [OF d(2)] vcard_free_cards [OF d(3)]] d(4) by (simp add: cards_kept_def)
  ultimately show ?thesis
    using assms(1) m' all_cards_kept [of m m'] by (auto simp: library_ok_def)
qed

lemma reference_library_ok:
  assumes "library_ok m HR HC HE evs rs" and "r \<in># reader_refs m + HR"
  shows "\<exists>m'. vreader_reference (Some r) m = Some (Some r, m') \<and> reader_at m' = reader_at m \<and> vcards m' = vcards m \<and>
    event_at m' = event_at m \<and> library_ok m' (add_mset r HR) HC HE evs rs"
proof -
  have "system m HR HC HE {} evs rs" using assms(1) by (simp add: library_ok_def)
  then obtain es l xs where sys: "system_at m HR HC HE {} es evs l xs rs" by (auto simp: system_def)
  obtain v where v: "vreaders m r = Some v" using count_okD [OF countedD(1) [OF system_atD(1) [OF sys]] assms(2)] by blast
  obtain m' where m': "vreader_reference (Some r) m = Some (Some r, m')" "counted m' (add_mset r HR) HC" "same_links m m'"
    using vreader_reference_ok [OF system_atD(1) [OF sys] assms(2)] by blast
  have "vcards m' = vcards m" "vevents m' = vevents m" "reader_at m' = reader_at m"
    using m'(1) v by (auto simp: vreader_reference.simps reader_at_def fun_eq_iff)
  moreover have "system m' (add_mset r HR) HC HE {} evs rs"
    using system_links [OF sys m'(3,2)] by (auto simp: system_def)
  moreover have "event_at m' = event_at m" using calculation(2) by (simp add: event_at_def fun_eq_iff)
  ultimately show ?thesis using m'(1) assms(1) by (auto simp: library_ok_def all_cards_ok_def)
qed

lemma event_reference_ok:
  assumes "library_ok m HR HC HE evs rs" and "event_at m e = Some (ty, Some r, c)"
  shows "\<exists>m'. vreader_reference (Some r) m = Some (Some r, m') \<and> reader_at m' = reader_at m \<and> vcards m' = vcards m \<and>
    event_at m' = event_at m \<and> library_ok m' (add_mset r HR) HC HE evs rs"
proof -
  have "system m HR HC HE {} evs rs" using assms(1) by (simp add: library_ok_def)
  from event_reader_live [OF this assms(2)] have "r \<in># reader_refs m + HR" by metis
  then show ?thesis by (rule reference_library_ok [OF assms(1)])
qed

lemma free_library_ok:
  assumes "library_ok m (add_mset r HR) HC HE evs rs"
  shows "\<exists>m'. vreader_free (Some r) m = Some m' \<and> readers_kept m m' \<and> cards_kept m m' \<and> event_at m' = event_at m \<and>
    library_ok m' HR HC HE evs rs"
proof -
  have "system m (add_mset r HR) HC HE {} evs rs" using assms by (simp add: library_ok_def)
  from free_reader_ok [OF this] obtain m' where m': "vreader_free (Some r) m = Some m'" "readers_kept m m'"
      "system m' HR HC HE {} evs rs" by blast
  have "cards_kept m m'" by (rule vreader_free_cards [OF m'(1)])
  moreover have "event_at m' = event_at m"
    using vreader_free_links [OF m'(1)] by (simp add: same_links_def event_at_def fun_eq_iff)
  ultimately show ?thesis using m' assms all_cards_kept [of m m'] by (auto simp: library_ok_def)
qed

lemma set_id_library_ok:
  assumes "library_ok m HR HC HE evs rs" and "r \<in># HR"
  shows "\<exists>m' v. vreader_set_id (Some r) i m = Some (VREADER_OK, m') \<and> reader_at m r = Some v \<and>
    reader_at m' = (reader_at m)(r \<mapsto> v\<lparr>rd_id := i\<rparr>) \<and> vcards m' = vcards m \<and> event_at m' = event_at m \<and>
    library_ok m' HR HC HE evs rs"
proof -
  have sys: "system m HR HC HE {} evs rs" using assms(1) by (simp add: library_ok_def)
  from set_id_ok [OF sys assms(2), of i] obtain m' where m': "vreader_set_id (Some r) i m = Some (VREADER_OK, m')"
      "reader_at m' = (reader_at m)(r := map_option (\<lambda>v. v\<lparr>rd_id := i\<rparr>) (reader_at m r))" "system m' HR HC HE {} evs rs"
    by blast
  then obtain v where v: "reader_at m r = Some v" by (auto simp: reader_at_def split: bind_splits)
  have "vcards m' = vcards m" "event_at m' = event_at m"
    using m'(1) by (auto simp: event_at_def fun_eq_iff split: bind_splits)
  then show ?thesis using m' v assms(1) by (auto simp: library_ok_def all_cards_ok_def simp del: vreader_set_id.simps)
qed

lemma inserted_card_at:
  "inserted_card m r = do { v \<leftarrow> reader_at m r; c \<leftarrow> rd_card v; obj \<leftarrow> vcards m c; Some (cd_card obj) }"
  by (cases "vreaders m r") (simp_all add: inserted_card_def reader_at_def)

lemma inserted_same:
  "reader_at m' q = reader_at m q \<Longrightarrow> vcards m' = vcards m \<Longrightarrow> inserted_card m' q = inserted_card m q"
  by (simp add: inserted_card_at)

text \<open>The card of a listed reader that stays is the same card.\<close>

lemma inserted_kept:
  assumes "system m' HR HC HE NE evs rs" and "q \<in> set rs" and "reader_at m' q = reader_at m q" and "cards_kept m m'"
  shows "inserted_card m' q = inserted_card m q"
proof -
  obtain es l xs where at: "system_at m' HR HC HE NE es evs l xs rs" using assms(1) by (auto simp: system_def)
  note c = system_atD(1) [OF at]
  obtain v' where v': "vreaders m' q = Some v'" using listed_live [OF assms(1,2)] by metis
  define v where "v = v'\<lparr>rd_reference_count := 0\<rparr>"
  have v: "reader_at m' q = Some v" "reader_at m q = Some v" "rd_card v = rd_card v'"
    using v' assms(3) [symmetric] by (simp_all add: v_def reader_at_def)
  show ?thesis
  proof (cases "rd_card v'")
    case None
    then show ?thesis using v by (simp add: inserted_card_at)
  next
    case (Some d)
    then have "d \<in># card_refs m' + HC"
      using refs_in [OF countedD(5) [OF c] v', of rd_card d] by (simp add: card_refs_def)
    then obtain obj' where obj': "vcards m' d = Some obj'" using count_okD [OF countedD(2) [OF c]] by blast
    obtain obj where obj: "vcards m d = Some obj" "cd_card obj = cd_card obj'" by (rule cards_keptD [OF assms(4) obj'])
    have "rd_card v = Some d" using v(3) Some by simp
    then show ?thesis using v(1,2) obj obj' by (simp add: inserted_card_at)
  qed
qed

text \<open>Using the card of a reader, when what is done goes well on every card.\<close>

definition good_on_cards :: "('s VReader \<Rightarrow> fault + VReaderStatus \<times> bytes \<times> 's VReader) \<Rightarrow> bool" where
  "good_on_cards f \<longleftrightarrow> (\<forall>vcard. card_ok vcard \<longrightarrow>
     (\<exists>st out vcard'. f (the_reader vcard) = Inr (st, out, the_reader vcard') \<and> card_ok vcard'))"

lemma xfr_good: "nss_ok nss \<Longrightarrow> good_on_cards (\<lambda>r. vreader_xfr_bytes nss r data cap)"
  using the_reader_xfr [of nss _ data cap] by (fastforce simp: good_on_cards_def)

lemma the_reader_power_on:
  assumes "card_ok vcard"
  shows "\<exists>vcard'. vreader_power_on nss (the_reader vcard) n = Inr (VREADER_OK, vcard_get_atr vcard' n, the_reader vcard') \<and>
    card_ok vcard'"
  using reset_ok [of vcard nss VCARD_POWER_ON] assms
  by (auto simp: card_ok_def vreader_power_on_def vreader_reset_def the_reader_def)

lemma power_on_good: "good_on_cards (\<lambda>r. vreader_power_on nss r n)"
  using the_reader_power_on [of _ nss n] by (fastforce simp: good_on_cards_def)

lemma with_card_library:
  assumes "library_ok m HR HC HE evs rs" and "vreaders m r = Some v" and "good_on_cards f"
  shows "\<exists>st out m'. with_card (Some r) f m = Some (st, out, m') \<and> vreaders m' = vreaders m \<and> event_at m' = event_at m \<and>
    library_ok m' HR HC HE evs rs"
proof (cases "rd_card v")
  case None
  then have "with_card (Some r) f m = Some (VREADER_NO_CARD, [], m)"
    using assms(2) by (simp add: with_card_def vreader_get_card_def)
  then show ?thesis using assms(1) by blast
next
  case (Some c)
  have sys: "system m HR HC HE {} evs rs" and cards: "all_cards_ok m" using assms(1) by (simp_all add: library_ok_def)
  obtain es l xs where at: "system_at m HR HC HE {} es evs l xs rs" using sys by (auto simp: system_def)
  note counted = system_atD(1) [OF at]
  have "c \<in># card_refs m + HC"
    using refs_in [OF countedD(5) [OF counted] assms(2), of rd_card c] Some by (simp add: card_refs_def)
  then obtain obj where obj: "vcards m c = Some obj" using count_okD [OF countedD(2) [OF counted]] by blast
  then have "card_ok (cd_card obj)" using cards by (simp add: all_cards_ok_def)
  then obtain st out vcard' where f: "f (the_reader (cd_card obj)) = Inr (st, out, the_reader vcard')" "card_ok vcard'"
    using assms(3) by (auto simp: good_on_cards_def)
  have "inserted_card m r = Some (cd_card obj)" using assms(2) Some obj by (simp add: inserted_card_def)
  from with_card_eq [where f = f, OF sys this f(1)]
  obtain m' c' obj' where m': "with_card (Some r) f m = Some (st, out, m')" "system m' HR HC HE {} evs rs"
      "vreaders m' = vreaders m" "m' = m\<lparr>vcards := (vcards m)(c' \<mapsto> obj'\<lparr>cd_card := vcard'\<rparr>)\<rparr>"
    by (auto simp: the_reader_def)
  have "event_at m' = event_at m" using m'(4) by (simp add: event_at_def fun_eq_iff)
  moreover have "all_cards_ok m'" using cards f(2) m'(4) by (auto simp: all_cards_ok_def)
  ultimately show ?thesis using m'(1-3) assms(1) by (auto simp: library_ok_def)
qed


section \<open>What is kept while readers and cards come and go\<close>

definition no_events_above :: "'c memory \<Rightarrow> bool" where
  "no_events_above m \<longleftrightarrow> (\<forall>a \<ge> next_address m. vevents m a = None)"

definition events_have_readers :: "'c memory \<Rightarrow> bool" where
  "events_have_readers m \<longleftrightarrow> (\<forall>e v. event_at m e = Some v \<longrightarrow> fst (snd v) \<noteq> None)"

definition library_kept :: "'s emul_memory \<Rightarrow> 's emul_memory \<Rightarrow> bool" where
  "library_kept m m' \<longleftrightarrow> (all_cards_ok m \<longrightarrow> all_cards_ok m') \<and> (events_have_readers m \<longrightarrow> events_have_readers m') \<and>
     (no_events_above m \<longrightarrow> no_events_above m' \<and> (\<forall>e v. event_at m e = Some v \<longrightarrow> event_at m' e = Some v))"

lemma library_kept_refl [simp]: "library_kept m m"
  by (simp add: library_kept_def)

lemma library_kept_trans [trans]: "library_kept m m' \<Longrightarrow> library_kept m' m'' \<Longrightarrow> library_kept m m''"
  by (simp add: library_kept_def)

lemma library_kept_quiet:
  assumes "vevents m' = vevents m" and "next_address m \<le> next_address m'" and "cards_kept m m'"
  shows "library_kept m m'"
  using assms all_cards_kept [OF _ assms(3)]
  by (simp add: library_kept_def no_events_above_def event_at_def events_have_readers_def)

named_theorems kept

lemma vcard_reference_kept [kept]: "vcard_reference c m = Some (c', m') \<Longrightarrow> library_kept m m'"
  by (rule library_kept_quiet; cases c) (auto simp: counting_simps cards_kept_def split: bind_splits if_splits)

lemma vcard_free_address: "vcard_free c m = Some m' \<Longrightarrow> next_address m' = next_address m \<and> vevents m' = vevents m"
  by (cases c) (auto simp: counting_simps Let_def split: bind_splits if_splits)

lemma vcard_free_kept [kept]: "vcard_free c m = Some m' \<Longrightarrow> library_kept m m'"
  by (rule library_kept_quiet) (simp_all add: vcard_free_address vcard_free_cards)

lemma vreader_reference_kept [kept]: "vreader_reference r m = Some (r', m') \<Longrightarrow> library_kept m m'"
  by (rule library_kept_quiet; cases r) (auto simp: counting_simps cards_kept_def split: bind_splits)

lemma vreader_free_kept [kept]:
  assumes "vreader_free r m = Some m'"
  shows "library_kept m m'"
proof (cases r)
  case (Some a)
  then obtain v where v: "vreaders m a = Some v" using assms by (auto simp: counting_simps split: bind_splits)
  show ?thesis
  proof (cases "rd_reference_count v > 1")
    case True
    then show ?thesis using assms Some v
      by (intro library_kept_quiet) (auto simp: counting_simps cards_kept_def)
  next
    case False
    then obtain m1 m2 where m: "vcard_free (rd_card v) m = Some m1" "vreader_emul_delete (rd_private v) m1 = Some m2"
        "m' = m2\<lparr>vreaders := (vreaders m2)(a := None)\<rparr>"
      using assms Some v by (auto simp: counting_simps split: bind_splits)
    have "library_kept m1 m2" using m(2) by (cases "rd_private v") (auto intro: kept)
    moreover have "library_kept m2 m'" using m(3) by (intro library_kept_quiet) (simp_all add: cards_kept_def)
    ultimately show ?thesis using vcard_free_kept [OF m(1)] library_kept_trans by blast
  qed
qed (use assms in simp)

lemma set_entry_kept [kept]: "set_entry e f m = Some m' \<Longrightarrow> library_kept m m'"
  by (rule library_kept_quiet) (auto simp: set_entry_def cards_kept_def split: bind_splits)

lemma set_list_kept [kept]: "set_list l f m = Some m' \<Longrightarrow> library_kept m m'"
  by (rule library_kept_quiet) (auto simp: set_list_def cards_kept_def split: bind_splits)

lemma set_reader_card_kept [kept]: "set_reader_card r c m = Some m' \<Longrightarrow> library_kept m m'"
  by (rule library_kept_quiet) (auto simp: set_reader_card_def cards_kept_def split: bind_splits)

lemma set_private_kept [kept]: "set_private r f m = Some m' \<Longrightarrow> library_kept m m'"
  by (rule library_kept_quiet) (auto simp: set_private_def cards_kept_def split: bind_splits)

lemma vreader_alloc_kept [kept]: "vreader_alloc name p m = (r, m') \<Longrightarrow> library_kept m m'"
  by (rule library_kept_quiet) (auto simp: vreader_alloc_def cards_kept_def)

lemma vcard_alloc_kept:
  assumes "vcard_alloc vcard m = (c, m')" and "card_ok vcard"
  shows "library_kept m m'"
proof -
  have "event_at m' = event_at m" using assms(1) by (auto simp: vcard_alloc_def event_at_def fun_eq_iff)
  then show ?thesis using assms
    by (auto simp: vcard_alloc_def library_kept_def all_cards_ok_def no_events_above_def events_have_readers_def
        split: if_splits)
qed

lemma vevent_new_kept [kept]:
  assumes "vevent_new type (Some r) c m = Some (e, m')"
  shows "library_kept m m'"
proof -
  let ?m = "m\<lparr>next_address := next_address m + 1\<rparr>"
  obtain c' m1 m2 where m: "vreader_reference (Some r) ?m = Some (Some r, m1)" "vcard_reference c m1 = Some (c', m2)"
      "m' = m2\<lparr>vevents := (vevents m2)(next_address m \<mapsto> \<lparr>ev_next = None, ev_type = type, ev_reader = Some r, ev_card = c'\<rparr>)\<rparr>"
    using assms by (auto simp: vevent_new_def vreader_reference.simps Let_def split: bind_splits)
  have m1: "vevents m1 = vevents m \<and> next_address m1 = next_address m + 1 \<and> vcards m1 = vcards m"
    using m(1) by (auto simp: counting_simps split: bind_splits)
  have m2: "vevents m2 = vevents m1 \<and> next_address m2 = next_address m1 \<and> cards_kept m1 m2"
    using m(2) by (cases c) (auto simp: counting_simps cards_kept_def split: bind_splits if_splits)
  have "cards_kept m m'" using m(3) m1 m2 by (simp add: cards_kept_def)
  then show ?thesis using m(3) m1 m2 all_cards_kept [of m m']
    by (auto simp: library_kept_def no_events_above_def event_at_def events_have_readers_def split: if_splits)
qed

lemma vevent_queue_vevent_kept [kept]:
  assumes "vevent_queue_vevent e m = Some m'"
  shows "library_kept m m'"
proof -
  have "vcards m' = vcards m" "next_address m' = next_address m"
    using assms by (auto simp: vevent_queue_vevent_def vevent_set_next_def split: bind_splits if_splits)
  moreover note at = queue_vevent_event_at [OF assms]
  moreover have "vevents m' a = None \<longleftrightarrow> vevents m a = None" for a
    using fun_cong [OF at, of a] by (simp add: event_at_None [symmetric])
  ultimately show ?thesis
    by (simp add: library_kept_def all_cards_ok_def no_events_above_def events_have_readers_def)
qed


lemma library_kept_fields [simp]:
  "library_kept m (m'\<lparr>ventries := E\<rparr>) = library_kept m m'" "library_kept m (m'\<lparr>vlists := L\<rparr>) = library_kept m m'"
  "library_kept m (m'\<lparr>vreader_list := l\<rparr>) = library_kept m m'"
  by (simp_all add: library_kept_def all_cards_ok_def no_events_above_def event_at_def events_have_readers_def)

lemma vreader_list_new_kept [kept]: "vreader_list_new m = (l, m') \<Longrightarrow> library_kept m m'"
  by (rule library_kept_quiet) (auto simp: vreader_list_new_def cards_kept_def)

lemma entry_new_kept [kept]:
  assumes "vreader_list_entry_new r m = Some (e, m')"
  shows "library_kept m m'"
proof -
  obtain r' m1 where m1: "vreader_reference r (m\<lparr>next_address := next_address m + 1\<rparr>) = Some (r', m1)"
      "m' = m1\<lparr>ventries := (ventries m1)(next_address m \<mapsto> \<lparr>en_next = None, en_prev = None, en_reader = r'\<rparr>)\<rparr>"
    using assms by (auto simp: vreader_list_entry_new_def Let_def split: bind_splits)
  have "library_kept m (m\<lparr>next_address := next_address m + 1\<rparr>)"
    by (rule library_kept_quiet) (simp_all add: cards_kept_def)
  from library_kept_trans [OF this vreader_reference_kept [OF m1(1)]] m1(2) show ?thesis by simp
qed

lemma entry_delete_kept [kept]: "vreader_list_entry_delete e m = Some m' \<Longrightarrow> library_kept m m'"
  by (cases e) (auto dest!: kept intro: library_kept_trans split: bind_splits)

lemma vreader_list_get_reader_kept [kept]: "vreader_list_get_reader e m = Some (r, m') \<Longrightarrow> library_kept m m'"
  by (cases e) (auto dest!: kept split: bind_splits)

lemma vreader_queue_kept [kept]: "vreader_queue l e m = Some m' \<Longrightarrow> library_kept m m'"
  by (cases e) (auto dest!: kept intro: library_kept_trans split: bind_splits if_splits)

lemma list_delete_loop_kept [kept]:
  assumes "list_delete_loop e m = Some m'"
  shows "library_kept m m'"
  by (rule list_delete_loop.raw_induct [OF _ assms])
    (auto dest!: kept intro: library_kept_trans split: bind_splits if_splits)

lemma copy_list_loop_kept [kept]:
  assumes "copy_list_loop l e m = Some m'"
  shows "library_kept m m'"
  by (rule copy_list_loop.raw_induct [OF _ assms])
    (auto simp del: vreader_queue.simps vreader_list_get_reader.simps dest!: kept split: bind_splits if_splits,
      meson library_kept_trans)

lemma find_reader_loop_kept [kept]:
  assumes "find_reader_loop test e m = Some (r, m')"
  shows "library_kept m m'"
proof -
  have "library_kept m (snd (r, m'))"
    by (rule find_reader_loop.raw_induct [OF _ assms, of "\<lambda>test e m x. library_kept m (snd x)"])
      (auto simp del: vreader_list_get_reader.simps dest!: kept split: bind_splits if_splits,
        meson library_kept_trans)
  then show ?thesis by simp
qed

lemma vreader_list_delete_kept [kept]: "vreader_list_delete l m = Some m' \<Longrightarrow> library_kept m m'"
  by (auto simp: vreader_list_delete_def simp del: vreader_list_get_first.simps dest!: kept
      split: bind_splits option.splits)

lemma vreader_get_reader_list_kept [kept]: "vreader_get_reader_list m = Some (l, m') \<Longrightarrow> library_kept m m'"
  by (auto simp: vreader_get_reader_list_def vreader_copy_list_def dest!: kept
      split: bind_splits prod.splits) (meson library_kept_trans)+

lemma find_vreader_kept [kept]: "vcard_emul_find_vreader_from_slot slot m = Some (r, m') \<Longrightarrow> library_kept m m'"
  by (auto simp: vcard_emul_find_vreader_from_slot_def simp del: vreader_list_get_first.simps dest!: kept split: bind_splits) (meson library_kept_trans)+

lemma vreader_add_reader_kept [kept]: "vreader_add_reader (Some r) m = Some (st, m') \<Longrightarrow> library_kept m m'"
  by (auto simp: vreader_add_reader_def simp del: vreader_queue.simps dest!: kept split: bind_splits) (meson library_kept_trans)+

lemma queue_card_event_kept [kept]: "vreader_queue_card_event r m = Some m' \<Longrightarrow> library_kept m m'"
  by (auto simp: vreader_queue_card_event_def dest!: kept split: bind_splits) (meson library_kept_trans)+

lemma insert_card_kept [kept]: "vreader_insert_card r c m = Some (st, m') \<Longrightarrow> library_kept m m'"
  by (auto simp: vreader_insert_card_def dest!: kept split: bind_splits if_splits) (meson library_kept_trans)+


text \<open>The cards of the emulation are well-formed.\<close>

lemma make_card_good:
  assumes "vcard_emul_make_card nss sha256 ty slot certs = Inr (Some vcard)"
  shows "card_ok vcard"
proof -
  obtain s where s: "slot = Some s" using assms by (cases slot) (auto simp: vcard_emul_make_card_def split: if_splits)
  define new where "new = (if certs \<noteq> [] then vcard_emul_create_serial sha256 (vcard_new s) (fst (hd certs))
    else vcard_new s)"
  have new: "card_wf applet_ok new" by (simp add: new_def vcard_emul_create_serial_def card_wf_new card_wf_serial split: option.split)
  have "card_type new = VCARD_VM"
    by (simp add: new_def vcard_emul_create_serial_def vcard_set_serial_def vcard_new_def Let_def split: option.split)
  note new = new this
  obtain st where "vcard_init nss ty certs new = Inr (st, vcard)"
    using assms s unfolding new_def vcard_emul_make_card_def Let_def
    by (auto split: if_splits sum.splits prod.splits)
  then show ?thesis
    using vcard_init_ok [OF new(1), of nss certs] new by (cases ty) (auto simp: vcard_init_def card_ok_def)
qed

lemma make_card_kept [kept]: "make_card em r certs m = Some (c, m') \<Longrightarrow> library_kept m m'"
  by (auto simp: make_card_def intro: vcard_alloc_kept dest: make_card_good
      split: bind_splits sum.splits option.splits prod.splits)

lemma mirror_card_kept [kept]: "vcard_emul_mirror_card em r m = Some (c, m') \<Longrightarrow> library_kept m m'"
  by (auto simp: vcard_emul_mirror_card_def Let_def dest: make_card_kept split: bind_splits option.splits if_splits)

lemma insert_mirror_kept [kept]: "insert_mirror em r m = Some m' \<Longrightarrow> library_kept m m'"
  by (auto simp: insert_mirror_def dest!: kept split: bind_splits) (meson library_kept_trans)+

lemma remove_card_kept [kept]: "remove_card r m = Some m' \<Longrightarrow> library_kept m m'"
  by (auto simp: remove_card_def dest!: kept)

lemma new_slot_reader_kept [kept]: "new_slot_reader em ty ps slot m = Some m' \<Longrightarrow> library_kept m m'"
  by (auto simp: new_slot_reader_def dest!: kept split: bind_splits prod.splits) (meson library_kept_trans)+

lemma token_change_kept [kept]: "token_change em r slot m = Some m' \<Longrightarrow> library_kept m m'"
  by (auto simp: token_change_def Let_def dest!: kept split: bind_splits if_splits) (meson library_kept_trans)+

lemma slot_event_kept [kept]: "slot_event em ty ps slot m = Some m' \<Longrightarrow> library_kept m m'"
  by (auto simp: slot_event_def dest!: kept split: bind_splits if_splits) (meson library_kept_trans)+

lemma force_remove_kept [kept]: "vcard_emul_force_card_remove b r m = Some (st, m') \<Longrightarrow> library_kept m m'"
  by (auto simp: vcard_emul_force_card_remove_def vreader_card_is_present_def vreader_get_card_def
      dest!: kept split: bind_splits if_splits) (meson library_kept_trans)+

lemma force_insert_kept [kept]: "vcard_emul_force_card_insert em b r m = Some (st, m') \<Longrightarrow> library_kept m m'"
  by (auto simp: vcard_emul_force_card_insert_def vreader_card_is_present_def vreader_get_card_def
      dest!: kept split: bind_splits if_splits) (meson library_kept_trans)+

text \<open>The events that such a call posts are about readers.\<close>

lemma library_ok_new:
  assumes "system m HR HC HE {} evs rs" and "all_cards_ok m" and "events_have_readers m"
  shows "library_ok m HR HC HE evs rs"
proof -
  obtain es l xs where sys: "system_at m HR HC HE {} es evs l xs rs" using assms(1) by (auto simp: system_def)
  have "\<exists>ty r c. event_at m e = Some (ty, Some r, c)" if "e \<in> HE" for e
  proof -
    have "vevents m e \<noteq> None" using system_atD(4) [OF sys] that by auto
    then obtain ty r c where "event_at m e = Some (ty, r, c)" by (auto simp: event_at_def)
    then show ?thesis using assms(3) [unfolded events_have_readers_def, rule_format, of e] by auto
  qed
  moreover have "r \<noteq> None" if "(ty, r, c) \<in> set evs" for ty r c
  proof -
    have "Some (ty, r, c) \<in> set (map (event_at m) es)" using system_atD(3) [OF sys] that by simp
    then obtain e where "event_at m e = Some (ty, r, c)" by auto
    then show ?thesis using assms(3) [unfolded events_have_readers_def, rule_format, of e] by simp
  qed
  ultimately show ?thesis using assms(1,2) by (auto simp: library_ok_def)
qed

lemma library_ok_have_readers:
  assumes "library_ok m HR HC HE evs rs"
  shows "events_have_readers m"
  unfolding events_have_readers_def
proof (intro allI impI)
  fix e v
  assume "event_at m e = Some v"
  then obtain ty r c where e: "event_at m e = Some (ty, r, c)" and v: "v = (ty, r, c)" by (cases v) auto
  have "system m HR HC HE {} evs rs" using assms by (simp add: library_ok_def)
  then obtain es l xs where sys: "system_at m HR HC HE {} es evs l xs rs" by (auto simp: system_def)
  have "r \<noteq> None"
  proof (cases "e \<in> set es")
    case True
    then have "Some (ty, r, c) \<in> set (map (event_at m) es)" using e by (force simp flip: e)
    then have "(ty, r, c) \<in> set evs" using system_atD(3) [OF sys] by auto
    then show ?thesis using assms by (auto simp: library_ok_def)
  next
    case False
    then have "e \<in> HE" using e system_atD(4) [OF sys] by (auto simp: event_at_def)
    then show ?thesis using assms e by (force simp: library_ok_def)
  qed
  then show "fst (snd v) \<noteq> None" using v by simp
qed

lemma library_ok_kept:
  assumes "library_ok m HR HC HE evs rs" and "library_kept m m'" and "system m' HR' HC' HE {} evs' rs'"
  shows "library_ok m' HR' HC' HE evs' rs'"
  using assms(2) library_ok_have_readers [OF assms(1)] assms(1)
  by (intro library_ok_new [OF assms(3)]) (simp_all add: library_kept_def library_ok_def)

end
