(* ===== verification/Vsc_Events.thy ===== *)
theory Vsc_Events
  imports Vsc_Library
begin

text \<open>
  The event thread of \<open>src/vscclient.c\<close>, which tells the host of readers and cards, as steps between
  the places where other threads can come in: an event is taken from the queue and the
  identifier of its reader read; the event is handled, or the thread waits until no reader is pending; and what
  it waited for is done. A thread that waits takes no step. \<open>None\<close> is a fault.
\<close>

section \<open>The thread\<close>

definition thread_goes :: "nat \<Rightarrow> thread_wait \<Rightarrow> 's vscclient \<Rightarrow> 's vscclient" where
  "thread_goes t w k = k\<lparr>c_threads := (c_threads k)[t := (c_threads k ! t)\<lparr>th_wait := w\<rparr>]\<rparr>"

text \<open>The end of an iteration.\<close>

definition drop_event :: "nat \<Rightarrow> nat \<Rightarrow> 's vscclient \<Rightarrow> 's vscclient option" where
  "drop_event t e k = do {
     m \<leftarrow> vevent_delete (Some e) (c_memory k);
     Some (thread_goes t Running (k\<lparr>c_memory := m\<rparr>))
   }"

definition announce_reader :: "nat \<Rightarrow> nat \<Rightarrow> uint32 \<Rightarrow> 's vscclient \<Rightarrow> 's vscclient option" where
  "announce_reader t e rid k = do {
     vevent \<leftarrow> vevents (c_memory k) e;
     (r, m) \<leftarrow> vreader_reference (ev_reader vevent) (c_memory k);
     reader_name \<leftarrow> vreader_get_name (ev_reader vevent) m;
     drop_event t e (send_msg VSC_ReaderAdd rid [] (k\<lparr>c_memory := m, pending_reader := r\<rparr>))
   }"

text \<open>The status of \<open>vreader_power_on\<close> is not looked at: without a card the length stays that of the
  array, and the array what it was.\<close>

definition announce_card :: "'s nss \<Rightarrow> nat \<Rightarrow> nat \<Rightarrow> uint32 \<Rightarrow> 's vscclient \<Rightarrow> 's vscclient option" where
  "announce_card nss t e rid k = do {
     vevent \<leftarrow> vevents (c_memory k) e;
     (st, out, m) \<leftarrow> memory_power_on nss (ev_reader vevent) MAX_ATR_LEN (c_memory k);
     let atr = out @ drop (length out) (th_atr (c_threads k ! t));
     let atr_len = (if st = VREADER_OK then length out else MAX_ATR_LEN);
     drop_event t e (send_msg VSC_ATR rid (take atr_len atr)
       (k\<lparr>c_memory := m, c_threads := (c_threads k)[t := (c_threads k ! t)\<lparr>th_atr := atr\<rparr>]\<rparr>))
   }"

definition handle_event :: "'s nss \<Rightarrow> nat \<Rightarrow> nat \<Rightarrow> uint32 \<Rightarrow> 's vscclient \<Rightarrow> 's vscclient option" where
  "handle_event nss t e rid k = do {
     vevent \<leftarrow> vevents (c_memory k) e;
     (case ev_type vevent of
        VEVENT_READER_INSERT \<Rightarrow>
          if pending_reader k \<noteq> None then Some (thread_goes t (Wait_Insert e rid) k) else announce_reader t e rid k
      | VEVENT_READER_REMOVE \<Rightarrow> drop_event t e (send_msg VSC_ReaderRemove rid [] k)
      | VEVENT_CARD_INSERT \<Rightarrow> announce_card nss t e rid k
      | VEVENT_CARD_REMOVE \<Rightarrow> drop_event t e (send_msg VSC_CardRemove rid [] k)
      | VEVENT_LAST \<Rightarrow> drop_event t e k)
   }"

definition event_thread :: "'s nss \<Rightarrow> nat \<Rightarrow> 's vscclient \<Rightarrow> 's vscclient option" where
  "event_thread nss t k =
     (case th_wait (c_threads k ! t) of
        Running \<Rightarrow> do {
          (event, m) \<leftarrow> vevent_get_next_vevent (c_memory k);
          (case event of
             None \<Rightarrow> Some k
           | Some e \<Rightarrow> do {
               vevent \<leftarrow> vevents m e;
               rid \<leftarrow> vreader_get_id (ev_reader vevent) m;
               Some (thread_goes t (Have_Event e rid) (k\<lparr>c_memory := m\<rparr>))
             })
        }
      | Have_Event e rid \<Rightarrow> do {
          vevent \<leftarrow> vevents (c_memory k) e;
          if rid = VSCARD_UNDEFINED_READER_ID \<and> ev_type vevent \<noteq> VEVENT_READER_INSERT
          then if pending_reader k = None \<or> pending_reader k \<noteq> ev_reader vevent then drop_event t e k
            else Some (thread_goes t (Wait_Status e) k)
          else handle_event nss t e rid k
        }
      | Wait_Status e \<Rightarrow>
          if pending_reader k \<noteq> None then Some k
          else do {
            vevent \<leftarrow> vevents (c_memory k) e;
            rid \<leftarrow> vreader_get_id (ev_reader vevent) (c_memory k);
            if rid = VSCARD_UNDEFINED_READER_ID then drop_event t e k else handle_event nss t e rid k
          }
      | Wait_Insert e rid \<Rightarrow> if pending_reader k \<noteq> None then Some k else announce_reader t e rid k)"

section \<open>Every step of the thread is safe\<close>

fun held_event :: "thread_wait \<Rightarrow> nat list" where
  "held_event Running = []"
| "held_event (Have_Event e rid) = [e]"
| "held_event (Wait_Status e) = [e]"
| "held_event (Wait_Insert e rid) = [e]"

definition held :: "'s vscclient \<Rightarrow> nat list" where
  "held k = concat (map (held_event \<circ> th_wait) (c_threads k))"

text \<open>The references \<open>lost\<close> are held by nobody: see \<open>VSC_CANNOT_ADD_MORE_READERS\<close>.\<close>

definition client_at :: "'s vscclient \<Rightarrow> nat multiset \<Rightarrow> nat multiset \<Rightarrow> (VEventType \<times> nat option \<times> nat option) list \<Rightarrow>
    nat list \<Rightarrow> bool" where
  "client_at k lost HC evs rs \<longleftrightarrow> distinct (held k) \<and>
     library_ok (c_memory k) (mset_option (pending_reader k) + lost) HC (set (held k)) evs rs"

lemma client_at_cong:
  "c_threads k' = c_threads k \<Longrightarrow> c_memory k' = c_memory k \<Longrightarrow> pending_reader k' = pending_reader k \<Longrightarrow>
    client_at k' lost HC evs rs = client_at k lost HC evs rs"
  by (simp add: client_at_def held_def)

lemma send_msg_simps [simp]:
  "c_threads (send_msg type rid msg k) = c_threads k" "c_memory (send_msg type rid msg k) = c_memory k"
  "pending_reader (send_msg type rid msg k) = pending_reader k" "c_state (send_msg type rid msg k) = c_state k"
  "mhHeader (send_msg type rid msg k) = mhHeader k" "to_read (send_msg type rid msg k) = to_read k"
  "c_header (send_msg type rid msg k) = c_header k" "pbSendBuffer (send_msg type rid msg k) = pbSendBuffer k"
  "watching (send_msg type rid msg k) = watching k" "c_buf (send_msg type rid msg k) = c_buf k"
  "c_stack (send_msg type rid msg k) = c_stack k"
  by (simp_all add: send_msg_def)

lemma thread_goes_simps [simp]:
  "c_memory (thread_goes t w k) = c_memory k" "pending_reader (thread_goes t w k) = pending_reader k"
  "socket_to_send (thread_goes t w k) = socket_to_send k"
  by (simp_all add: thread_goes_def)

text \<open>The events held by the threads before \<open>t\<close>, by \<open>t\<close>, and by those behind.\<close>

lemma held_split:
  assumes "t < length (c_threads k)"
  shows "\<exists>xs ys. held k = xs @ held_event (th_wait (c_threads k ! t)) @ ys \<and>
    (\<forall>w. held (thread_goes t w k) = xs @ held_event w @ ys)"
proof -
  let ?f = "held_event \<circ> th_wait" and ?xs = "c_threads k"
  have "held k = concat (map ?f (take t ?xs @ ?xs ! t # drop (Suc t) ?xs))"
    unfolding held_def by (subst id_take_nth_drop [OF assms]) (rule refl)
  moreover have "held (thread_goes t w k) = concat (map ?f (take t ?xs @ (?xs ! t)\<lparr>th_wait := w\<rparr> # drop (Suc t) ?xs))" for w
    unfolding held_def thread_goes_def by (simp add: upd_conv_take_nth_drop [OF assms])
  ultimately show ?thesis
    by (intro exI [of _ "concat (map ?f (take t ?xs))"] exI [of _ "concat (map ?f (drop (Suc t) ?xs))"]) simp
qed

text \<open>What a step keeps: the buffers, the number of threads, and the private data of the readers.\<close>

definition same_reading :: "'s vscclient \<Rightarrow> 's vscclient \<Rightarrow> bool" where
  "same_reading k k' \<longleftrightarrow> c_state k' = c_state k \<and> to_read k' = to_read k \<and> c_buf k' = c_buf k \<and>
     mhHeader k' = mhHeader k \<and> c_header k' = c_header k \<and> pbSendBuffer k' = pbSendBuffer k \<and> watching k' = watching k"

lemma drop_event_ok:
  assumes "client_at k lost HC evs rs" and "t < length (c_threads k)" and "held_event (th_wait (c_threads k ! t)) = [e]"
  shows "\<exists>k'. drop_event t e k = Some k' \<and> client_at k' lost HC evs rs \<and> readers_kept (c_memory k) (c_memory k') \<and>
    cards_kept (c_memory k) (c_memory k') \<and> same_reading k k' \<and>
    k' = thread_goes t Running (k\<lparr>c_memory := c_memory k'\<rparr>)"
proof -
  obtain xs ys where split: "held k = xs @ [e] @ ys" "held (thread_goes t Running k) = xs @ ys"
    using held_split [OF assms(2)] assms(3) by fastforce
  have lib: "library_ok (c_memory k) (mset_option (pending_reader k) + lost) HC (set (held k)) evs rs" and dist: "distinct (held k)"
    using assms(1) by (simp_all add: client_at_def)
  obtain m' where m': "vevent_delete (Some e) (c_memory k) = Some m'" "readers_kept (c_memory k) m'"
      "cards_kept (c_memory k) m'"
      "library_ok m' (mset_option (pending_reader k) + lost) HC (set (held k) - {e}) evs rs"
    using delete_held_ok [OF lib, of e] split(1) by auto
  let ?k' = "thread_goes t Running (k\<lparr>c_memory := m'\<rparr>)"
  have "held ?k' = held (thread_goes t Running k)" by (simp add: held_def thread_goes_def)
  then have "held ?k' = xs @ ys" using split(2) by simp
  moreover have "set (held k) - {e} = set (xs @ ys)" using split(1) dist by auto
  ultimately have "client_at ?k' lost HC evs rs" using m'(4) dist split(1) by (auto simp: client_at_def)
  moreover have "drop_event t e k = Some ?k'" using m'(1) by (simp add: drop_event_def del: vevent_delete.simps)
  ultimately show ?thesis using m'(2,3) by (auto simp: same_reading_def thread_goes_def)
qed


lemma held_eventD:
  assumes "client_at k lost HC evs rs" and "t < length (c_threads k)" and "held_event (th_wait (c_threads k ! t)) = [e]"
  obtains ty r c vevent v where "vevents (c_memory k) e = Some vevent" and "event_at (c_memory k) e = Some (ty, Some r, c)"
    and "ev_type vevent = ty" and "ev_reader vevent = Some r" and "vreaders (c_memory k) r = Some v"
proof -
  have "e \<in> set (held k)" using held_split [OF assms(2)] assms(3) by fastforce
  then obtain ty r c where at: "event_at (c_memory k) e = Some (ty, Some r, c)"
    using assms(1) by (auto simp: client_at_def library_ok_def)
  then obtain vevent where vevent: "vevents (c_memory k) e = Some vevent" "ev_type vevent = ty" "ev_reader vevent = Some r"
    by (auto simp: event_at_def)
  have "system (c_memory k) (mset_option (pending_reader k) + lost) HC (set (held k)) {} evs rs"
    using assms(1) by (simp add: client_at_def library_ok_def)
  from event_reader_live [OF this at] show ?thesis using that vevent at by metis
qed

definition stays_ok :: "'s vscclient \<Rightarrow> 's vscclient option \<Rightarrow> nat multiset \<Rightarrow> nat multiset \<Rightarrow>
    (VEventType \<times> nat option \<times> nat option) list \<Rightarrow> nat list \<Rightarrow> bool" where
  "stays_ok k result lost HC evs rs \<longleftrightarrow> (\<exists>k'. result = Some k' \<and> client_at k' lost HC evs rs \<and>
     readers_kept (c_memory k) (c_memory k') \<and> same_reading k k' \<and> length (c_threads k') = length (c_threads k))"

lemma stays_ok_refl: "client_at k lost HC evs rs \<Longrightarrow> stays_ok k (Some k) lost HC evs rs"
  by (simp add: stays_ok_def readers_kept_def same_reading_def)

lemma stays_ok_drop:
  assumes "client_at k1 lost HC evs rs" and "t < length (c_threads k1)" and "held_event (th_wait (c_threads k1 ! t)) = [e]"
    and "readers_kept (c_memory k) (c_memory k1)" and "same_reading k k1" and "length (c_threads k1) = length (c_threads k)"
  shows "stays_ok k (drop_event t e k1) lost HC evs rs"
proof -
  obtain k' where k': "drop_event t e k1 = Some k'" "client_at k' lost HC evs rs"
      "readers_kept (c_memory k1) (c_memory k')" "same_reading k1 k'" "k' = thread_goes t Running (k1\<lparr>c_memory := c_memory k'\<rparr>)"
    using drop_event_ok [OF assms(1-3)] by blast
  have "length (c_threads k') = length (c_threads k1)" using arg_cong [OF k'(5), of "length \<circ> c_threads"] by (simp add: thread_goes_def)
  then show ?thesis
    using k' assms(4-6) readers_kept_trans by (auto simp: stays_ok_def same_reading_def)
qed

lemma announce_reader_ok:
  assumes "client_at k lost HC evs rs" and "t < length (c_threads k)" and "held_event (th_wait (c_threads k ! t)) = [e]"
    and "pending_reader k = None"
  shows "stays_ok k (announce_reader t e rid k) lost HC evs rs"
proof -
  from held_eventD [OF assms(1-3)] obtain ty r c vevent v
    where e: "vevents (c_memory k) e = Some vevent" "event_at (c_memory k) e = Some (ty, Some r, c)" "ev_reader vevent = Some r"
    by metis
  have lib: "library_ok (c_memory k) lost HC (set (held k)) evs rs" and dist: "distinct (held k)"
    using assms(1,4) by (simp_all add: client_at_def)
  obtain m' where m': "vreader_reference (Some r) (c_memory k) = Some (Some r, m')" "reader_at m' = reader_at (c_memory k)"
      "library_ok m' (add_mset r lost) HC (set (held k)) evs rs"
    using event_reference_ok [OF lib e(2)] by blast
  let ?k = "send_msg VSC_ReaderAdd rid [] (k\<lparr>c_memory := m', pending_reader := Some r\<rparr>)"
  have "client_at ?k lost HC evs rs" using m'(3) dist by (simp add: client_at_def held_def)
  then have "stays_ok k (drop_event t e ?k) lost HC evs rs"
    using assms(2,3) m'(2) by (intro stays_ok_drop) (simp_all add: readers_keptI same_reading_def)
  moreover have "\<exists>v'. vreaders m' r = Some v'" using m'(1) by (auto simp: vreader_reference.simps split: bind_splits)
  ultimately show ?thesis using e(1,3) m'(1) by (auto simp: announce_reader_def)
qed

lemma announce_card_ok:
  assumes "client_at k lost HC evs rs" and "t < length (c_threads k)" and "held_event (th_wait (c_threads k ! t)) = [e]"
  shows "stays_ok k (announce_card nss t e rid k) lost HC evs rs"
proof -
  from held_eventD [OF assms(1-3)] obtain ty r c vevent v
    where e: "vevents (c_memory k) e = Some vevent" "event_at (c_memory k) e = Some (ty, Some r, c)" "ev_reader vevent = Some r"
      "vreaders (c_memory k) r = Some v"
    by metis
  have lib: "library_ok (c_memory k) (mset_option (pending_reader k) + lost) HC (set (held k)) evs rs" and dist: "distinct (held k)"
    using assms(1) by (simp_all add: client_at_def)
  obtain st out m' where m': "memory_power_on nss (Some r) MAX_ATR_LEN (c_memory k) = Some (st, out, m')"
      "vreaders m' = vreaders (c_memory k)" "library_ok m' (mset_option (pending_reader k) + lost) HC (set (held k)) evs rs"
    using with_card_library [OF lib e(4) power_on_good [of nss MAX_ATR_LEN]] unfolding memory_power_on_def by blast
  let ?atr = "out @ drop (length out) (th_atr (c_threads k ! t))"
  let ?ths = "(c_threads k)[t := (c_threads k ! t)\<lparr>th_atr := ?atr\<rparr>]"
  let ?k = "send_msg VSC_ATR rid (take (if st = VREADER_OK then length out else MAX_ATR_LEN) ?atr)
    (k\<lparr>c_memory := m', c_threads := ?ths\<rparr>)"
  have "map th_wait ?ths = map th_wait (c_threads k)"
    using assms(2) by (simp add: map_update list_update_same_conv)
  then have waits: "map (held_event \<circ> th_wait) ?ths = map (held_event \<circ> th_wait) (c_threads k)"
    by (metis map_map)
  have "client_at ?k lost HC evs rs" unfolding client_at_def held_def send_msg_simps
    using m'(3) dist waits by (simp add: held_def)
  then have "stays_ok k (drop_event t e ?k) lost HC evs rs"
    using assms(2,3) m'(2) by (intro stays_ok_drop) (simp_all add: readers_keptI reader_at_def fun_eq_iff same_reading_def)
  then show ?thesis using e(1,3) m'(1) by (simp add: announce_card_def Let_def)
qed

lemma thread_goes_ok:
  assumes "client_at k lost HC evs rs" and "t < length (c_threads k)" and "held_event w = held_event (th_wait (c_threads k ! t))"
  shows "stays_ok k (Some (thread_goes t w k)) lost HC evs rs"
proof -
  have "held (thread_goes t w k) = held k" using held_split [OF assms(2)] assms(3) by fastforce
  then have "client_at (thread_goes t w k) lost HC evs rs" using assms(1) by (simp add: client_at_def)
  then show ?thesis by (simp add: stays_ok_def same_reading_def readers_kept_def) (simp add: thread_goes_def)
qed

lemma handle_event_ok:
  assumes "client_at k lost HC evs rs" and "t < length (c_threads k)" and "held_event (th_wait (c_threads k ! t)) = [e]"
  shows "stays_ok k (handle_event nss t e rid k) lost HC evs rs"
proof -
  from held_eventD [OF assms] obtain vevent where e: "vevents (c_memory k) e = Some vevent" by metis
  have send: "stays_ok k (drop_event t e (send_msg ty rid [] k)) lost HC evs rs" for ty
    using assms by (intro stays_ok_drop) (simp_all add: client_at_def held_def same_reading_def readers_kept_def)
  have drop: "stays_ok k (drop_event t e k) lost HC evs rs"
    using assms by (intro stays_ok_drop) (simp_all add: same_reading_def readers_kept_def)
  show ?thesis
  proof (cases "ev_type vevent")
    case VEVENT_READER_INSERT
    then show ?thesis
      using e announce_reader_ok [OF assms] thread_goes_ok [OF assms(1,2), of "Wait_Insert e rid"] assms(3)
      by (simp add: handle_event_def)
  qed (use e send drop announce_card_ok [OF assms] in \<open>simp_all add: handle_event_def\<close>)
qed

lemma event_thread_step_ok:
  assumes "client_at k lost HC evs rs" and "t < length (c_threads k)"
  shows "\<exists>evs'. stays_ok k (event_thread nss t k) lost HC evs' rs \<and> (evs' = evs \<or> evs' = drop 1 evs)"
proof (cases "th_wait (c_threads k ! t)")
  case Running
  obtain xs ys where split: "held k = xs @ ys" "\<And>w. held (thread_goes t w k) = xs @ held_event w @ ys"
    using held_split [OF assms(2)] Running by fastforce
  have lib: "library_ok (c_memory k) (mset_option (pending_reader k) + lost) HC (set (held k)) evs rs" and dist: "distinct (held k)"
    using assms(1) by (simp_all add: client_at_def)
  show ?thesis
  proof (cases evs)
    case Nil
    then have "event_thread nss t k = Some k" using Running take_event_ok [OF lib] by (simp add: event_thread_def)
    then show ?thesis using stays_ok_refl [OF assms(1)] by auto
  next
    case (Cons ev evs')
    with take_event_ok [OF lib] obtain e m' where m': "vevent_get_next_vevent (c_memory k) = Some (Some e, m')"
        "event_at m' e = Some ev" "e \<notin> set (held k)" "vreaders m' = vreaders (c_memory k)"
        "library_ok m' (mset_option (pending_reader k) + lost) HC (insert e (set (held k))) evs' rs"
      by auto
    obtain ty r c where ev: "ev = (ty, Some r, c)" using lib Cons by (cases ev) (auto simp: library_ok_def)
    have "system m' (mset_option (pending_reader k) + lost) HC (insert e (set (held k))) {} evs' rs"
      using m'(5) by (simp add: library_ok_def)
    from event_reader_live [OF this m'(2) [unfolded ev]] obtain v where v: "vreaders m' r = Some v" by metis
    obtain vevent where vevent: "vevents m' e = Some vevent" "ev_reader vevent = Some r"
      using m'(2) ev by (auto simp: event_at_def)
    let ?k' = "thread_goes t (Have_Event e (rd_id v)) (k\<lparr>c_memory := m'\<rparr>)"
    have "held ?k' = held (thread_goes t (Have_Event e (rd_id v)) k)" by (simp add: held_def thread_goes_def)
    then have "held ?k' = xs @ e # ys" using split(2) by simp
    then have "client_at ?k' lost HC evs' rs" using m'(3,5) dist split(1) by (auto simp: client_at_def insert_commute)
    moreover have "event_thread nss t k = Some ?k'" using Running m'(1) vevent v by (simp add: event_thread_def)
    ultimately have "stays_ok k (event_thread nss t k) lost HC evs' rs"
      using m'(4) by (simp add: stays_ok_def readers_keptI reader_at_def fun_eq_iff same_reading_def)
        (simp add: thread_goes_def)
    then show ?thesis using Cons by auto
  qed
next
  case (Have_Event e rid)
  then have e: "held_event (th_wait (c_threads k ! t)) = [e]" by simp
  from held_eventD [OF assms e] obtain vevent where vevent: "vevents (c_memory k) e = Some vevent" by metis
  have drop: "stays_ok k (drop_event t e k) lost HC evs rs"
    using assms e by (intro stays_ok_drop) (simp_all add: same_reading_def readers_kept_def)
  show ?thesis
    using Have_Event vevent handle_event_ok [OF assms e] drop thread_goes_ok [OF assms, of "Wait_Status e"]
    by (auto simp: event_thread_def)
next
  case (Wait_Status e)
  then have e: "held_event (th_wait (c_threads k ! t)) = [e]" by simp
  from held_eventD [OF assms e] obtain vevent r v where vevent: "vevents (c_memory k) e = Some vevent" "ev_reader vevent = Some r"
      "vreaders (c_memory k) r = Some v" by metis
  have drop: "stays_ok k (drop_event t e k) lost HC evs rs"
    using assms e by (intro stays_ok_drop) (simp_all add: same_reading_def readers_kept_def)
  show ?thesis
    using Wait_Status vevent handle_event_ok [OF assms e] drop stays_ok_refl [OF assms(1)]
    by (auto simp: event_thread_def)
next
  case (Wait_Insert e rid)
  then show ?thesis
    using announce_reader_ok [OF assms, of e rid] stays_ok_refl [OF assms(1)] by (auto simp: event_thread_def)
qed


section \<open>A reader and its card are announced\<close>

definition message :: "VSCMsgType \<Rightarrow> bytes \<Rightarrow> bytes" where
  "message type data = header_bytes \<lparr>mh_type = msg_type type, mh_reader_id = 0, mh_length = of_nat (length data)\<rparr> @ data"

lemma send_msg_sent [simp]: "socket_to_send (send_msg type rid data k) = socket_to_send k @ message type data"
  by (simp add: send_msg_def message_def)

text \<open>What is the same before and after a step of a thread, for the readers of the list.\<close>

definition unchanged :: "nat list \<Rightarrow> 's vscclient \<Rightarrow> 's vscclient \<Rightarrow> bool" where
  "unchanged rs k k' \<longleftrightarrow> same_reading k k' \<and> length (c_threads k') = length (c_threads k) \<and>
     (\<forall>q \<in> set rs. reader_at (c_memory k') q = reader_at (c_memory k) q \<and>
        inserted_card (c_memory k') q = inserted_card (c_memory k) q)"

lemma take_step:
  assumes "client_at k lost HC ((ty, Some r, c) # evs) rs" and "t < length (c_threads k)"
    and "th_wait (c_threads k ! t) = Running" and "reader_at (c_memory k) r = Some v"
  shows "\<exists>k' e. event_thread nss t k = Some k' \<and> client_at k' lost HC evs rs \<and> unchanged rs k k' \<and>
    th_wait (c_threads k' ! t) = Have_Event e (rd_id v) \<and> event_at (c_memory k') e = Some (ty, Some r, c) \<and>
    pending_reader k' = pending_reader k \<and> socket_to_send k' = socket_to_send k"
proof -
  have lib: "library_ok (c_memory k) (mset_option (pending_reader k) + lost) HC (set (held k)) ((ty, Some r, c) # evs) rs"
    and dist: "distinct (held k)"
    using assms(1) by (simp_all add: client_at_def)
  obtain e m' where m': "vevent_get_next_vevent (c_memory k) = Some (Some e, m')" "event_at m' e = Some (ty, Some r, c)"
      "e \<notin> set (held k)" "vreaders m' = vreaders (c_memory k)" "vcards m' = vcards (c_memory k)"
      "library_ok m' (mset_option (pending_reader k) + lost) HC (insert e (set (held k))) evs rs"
    using take_event_ok [OF lib] by auto
  have readers: "reader_at m' = reader_at (c_memory k)" using m'(4) by (simp add: reader_at_def fun_eq_iff)
  obtain w where w: "vreaders m' r = Some w" "rd_id w = rd_id v" using assms(4) m'(4) by (auto simp: reader_at_def)
  obtain vevent where vevent: "vevents m' e = Some vevent" "ev_reader vevent = Some r"
    using m'(2) by (auto simp: event_at_def)
  let ?k' = "thread_goes t (Have_Event e (rd_id v)) (k\<lparr>c_memory := m'\<rparr>)"
  obtain xs ys where split: "held k = xs @ ys" "\<And>w. held (thread_goes t w k) = xs @ held_event w @ ys"
    using held_split [OF assms(2)] assms(3) by fastforce
  have "held ?k' = held (thread_goes t (Have_Event e (rd_id v)) k)" by (simp add: held_def thread_goes_def)
  then have "held ?k' = xs @ e # ys" using split(2) by simp
  then have "client_at ?k' lost HC evs rs" using m'(3,6) dist split(1) by (auto simp: client_at_def insert_commute)
  moreover have "unchanged rs k ?k'"
    using readers m'(5) by (simp add: unchanged_def same_reading_def inserted_card_at) (simp add: thread_goes_def)
  moreover have "event_thread nss t k = Some ?k'" using assms(3) m'(1) vevent w by (simp add: event_thread_def)
  ultimately show ?thesis using m'(2) assms(2)
    by (intro exI [of _ ?k'] exI [of _ e]) (simp add: thread_goes_def)
qed

lemma drop_step:
  assumes "client_at k lost HC evs rs" and "t < length (c_threads k)" and "held_event (th_wait (c_threads k ! t)) = [e]"
  shows "\<exists>k'. drop_event t e k = Some k' \<and> client_at k' lost HC evs rs \<and> unchanged rs k k' \<and>
    th_wait (c_threads k' ! t) = Running \<and> pending_reader k' = pending_reader k \<and> socket_to_send k' = socket_to_send k"
proof -
  obtain k' where k': "drop_event t e k = Some k'" "client_at k' lost HC evs rs" "readers_kept (c_memory k) (c_memory k')"
      "cards_kept (c_memory k) (c_memory k')" "same_reading k k'" "k' = thread_goes t Running (k\<lparr>c_memory := c_memory k'\<rparr>)"
    using drop_event_ok [OF assms] by blast
  have sys: "system (c_memory k') (mset_option (pending_reader k') + lost) HC (set (held k')) {} evs rs"
    using k'(2) by (simp add: client_at_def library_ok_def)
  have readers: "reader_at (c_memory k') q = reader_at (c_memory k) q" if "q \<in> set rs" for q
    using k'(3) system_reader_alive [OF sys that] by (simp add: readers_kept_def)
  with inserted_kept [OF sys _ _ k'(4)] have "inserted_card (c_memory k') q = inserted_card (c_memory k) q" if "q \<in> set rs" for q
    using that by blast
  moreover have "pending_reader k' = pending_reader k" "socket_to_send k' = socket_to_send k"
      "c_threads k' = (c_threads k)[t := (c_threads k ! t)\<lparr>th_wait := Running\<rparr>]"
    using arg_cong [OF k'(6), of pending_reader] arg_cong [OF k'(6), of socket_to_send] arg_cong [OF k'(6), of c_threads]
    by (simp_all add: thread_goes_def)
  ultimately show ?thesis using k'(1,2,5) readers assms(2) by (simp add: unchanged_def)
qed


lemma announce_reader_step:
  assumes "client_at k lost HC evs rs" and "t < length (c_threads k)"
    and "th_wait (c_threads k ! t) = Have_Event e rid" and "event_at (c_memory k) e = Some (VEVENT_READER_INSERT, Some r, c)"
    and "pending_reader k = None"
  shows "\<exists>k'. event_thread nss t k = Some k' \<and> client_at k' lost HC evs rs \<and> unchanged rs k k' \<and>
    th_wait (c_threads k' ! t) = Running \<and> pending_reader k' = Some r \<and>
    socket_to_send k' = socket_to_send k @ message VSC_ReaderAdd []"
proof -
  have lib: "library_ok (c_memory k) lost HC (set (held k)) evs rs" and dist: "distinct (held k)"
    using assms(1,5) by (simp_all add: client_at_def)
  obtain vevent where vevent: "vevents (c_memory k) e = Some vevent" "ev_type vevent = VEVENT_READER_INSERT" "ev_reader vevent = Some r"
    using assms(4) by (auto simp: event_at_def)
  obtain m' where m': "vreader_reference (Some r) (c_memory k) = Some (Some r, m')" "reader_at m' = reader_at (c_memory k)"
      "vcards m' = vcards (c_memory k)" "library_ok m' (add_mset r lost) HC (set (held k)) evs rs"
    using event_reference_ok [OF lib assms(4)] by blast
  let ?k = "send_msg VSC_ReaderAdd rid [] (k\<lparr>c_memory := m', pending_reader := Some r\<rparr>)"
  have "client_at ?k lost HC evs rs" using m'(4) dist by (simp add: client_at_def held_def)
  from drop_step [OF this, of t e] assms(2,3)
  obtain k' where k': "drop_event t e ?k = Some k'" "client_at k' lost HC evs rs" "unchanged rs ?k k'"
      "th_wait (c_threads k' ! t) = Running" "pending_reader k' = Some r"
      "socket_to_send k' = socket_to_send k @ message VSC_ReaderAdd []" by auto
  have "\<exists>v'. vreaders m' r = Some v'" using m'(1) by (auto simp: vreader_reference.simps split: bind_splits)
  then have "event_thread nss t k = drop_event t e ?k"
    using assms(3,5) vevent m'(1) by (auto simp: event_thread_def handle_event_def announce_reader_def)
  moreover have "inserted_card m' q = inserted_card (c_memory k) q" for q
    by (rule inserted_same) (simp_all add: m'(2,3))
  then have "unchanged rs k k'" using k'(3) m'(2) by (simp add: unchanged_def same_reading_def)
  ultimately show ?thesis using k' by simp
qed

lemma announce_card_step:
  assumes "client_at k lost HC evs rs" and "t < length (c_threads k)" and "held_event (th_wait (c_threads k ! t)) = [e]"
    and "event_at (c_memory k) e = Some (ty, Some r, c)" and "r \<in> set rs" and "inserted_card (c_memory k) r = Some vcard"
  shows "\<exists>k' vcard'. announce_card nss t e rid k = Some k' \<and> client_at k' lost HC evs rs \<and>
    same_reading k k' \<and> (\<forall>q \<in> set rs. reader_at (c_memory k') q = reader_at (c_memory k) q) \<and>
    vreader_power_on nss (the_reader vcard) MAX_ATR_LEN =
      Inr (VREADER_OK, vcard_get_atr vcard' MAX_ATR_LEN, the_reader vcard') \<and> card_ok vcard' \<and>
    inserted_card (c_memory k') r = Some vcard' \<and> th_wait (c_threads k' ! t) = Running \<and>
    pending_reader k' = pending_reader k \<and>
    socket_to_send k' = socket_to_send k @ message VSC_ATR (vcard_get_atr vcard' MAX_ATR_LEN)"
proof -
  let ?HR = "mset_option (pending_reader k) + lost"
  have lib: "library_ok (c_memory k) ?HR HC (set (held k)) evs rs" and dist: "distinct (held k)"
    using assms(1) by (simp_all add: client_at_def)
  then have sys: "system (c_memory k) ?HR HC (set (held k)) {} evs rs" and cards: "all_cards_ok (c_memory k)"
    by (simp_all add: library_ok_def)
  obtain vevent where vevent: "vevents (c_memory k) e = Some vevent" "ev_reader vevent = Some r"
    using assms(4) by (auto simp: event_at_def)
  have "card_ok vcard" using assms(6) cards by (auto simp: inserted_card_def all_cards_ok_def split: bind_splits)
  then obtain vcard' where on: "vreader_power_on nss (the_reader vcard) MAX_ATR_LEN =
      Inr (VREADER_OK, vcard_get_atr vcard' MAX_ATR_LEN, the_reader vcard')" "card_ok vcard'"
    using the_reader_power_on by blast
  from with_card_eq [where f = "\<lambda>r. vreader_power_on nss r MAX_ATR_LEN", OF sys assms(6) on(1)]
  obtain m' c' obj where m': "memory_power_on nss (Some r) MAX_ATR_LEN (c_memory k) =
        Some (VREADER_OK, vcard_get_atr vcard' MAX_ATR_LEN, m')" "system m' ?HR HC (set (held k)) {} evs rs"
      "vreaders m' = vreaders (c_memory k)" "inserted_card m' r = Some vcard'"
      "m' = (c_memory k)\<lparr>vcards := (vcards (c_memory k))(c' \<mapsto> obj\<lparr>cd_card := vcard'\<rparr>)\<rparr>"
    by (auto simp: memory_power_on_def the_reader_def)
  have "event_at m' = event_at (c_memory k)" using m'(5) by (simp add: event_at_def fun_eq_iff)
  moreover have "all_cards_ok m'" using cards on(2) m'(5) by (auto simp: all_cards_ok_def)
  ultimately have lib': "library_ok m' ?HR HC (set (held k)) evs rs" using lib m'(2) by (simp add: library_ok_def)
  let ?atr = "vcard_get_atr vcard' MAX_ATR_LEN"
  let ?ths = "(c_threads k)[t := (c_threads k ! t)\<lparr>th_atr := ?atr @ drop (length ?atr) (th_atr (c_threads k ! t))\<rparr>]"
  let ?k = "send_msg VSC_ATR rid ?atr (k\<lparr>c_memory := m', c_threads := ?ths\<rparr>)"
  have "map th_wait ?ths = map th_wait (c_threads k)"
    using assms(2) by (simp add: map_update list_update_same_conv)
  then have "map (held_event \<circ> th_wait) ?ths = map (held_event \<circ> th_wait) (c_threads k)" by (metis map_map)
  then have "client_at ?k lost HC evs rs" using lib' dist by (simp add: client_at_def held_def)
  from drop_step [OF this, of t e] assms(2,3)
  obtain k' where k': "drop_event t e ?k = Some k'" "client_at k' lost HC evs rs" "unchanged rs ?k k'"
      "th_wait (c_threads k' ! t) = Running" "pending_reader k' = pending_reader k"
      "socket_to_send k' = socket_to_send k @ message VSC_ATR ?atr" by auto
  have "announce_card nss t e rid k = drop_event t e ?k"
    using vevent m'(1) by (simp add: announce_card_def Let_def)
  moreover have "inserted_card (c_memory k') r = Some vcard'"
    using k'(3) assms(5) m'(4) by (simp add: unchanged_def)
  moreover have "same_reading k k'" using k'(3) by (simp add: unchanged_def same_reading_def)
  moreover have "reader_at m' = reader_at (c_memory k)" using m'(3) by (simp add: reader_at_def fun_eq_iff)
  then have "\<forall>q \<in> set rs. reader_at (c_memory k') q = reader_at (c_memory k) q"
    using k'(3) by (simp add: unchanged_def)
  ultimately show ?thesis using k' on by auto
qed


text \<open>The host answers that it has added the reader, under the identifier \<open>i\<close>.\<close>

definition error_message :: "uint32 \<Rightarrow> uint32 \<Rightarrow> bytes" where
  "error_message i code = header_bytes \<lparr>mh_type = msg_type VSC_Error, mh_reader_id = i, mh_length = 4\<rparr> @ le32 code"

lemma of_le32_append [simp]: "of_le32 (le32 w @ xs) = w"
  using of_le32_le32 [of w] by (simp add: of_le32_def le32_def)

lemma reply_step:
  assumes "client_at k lost HC evs rs" and "at_header k" and "pending_reader k = Some r" and "r \<in> set rs"
  shows "\<exists>k' v. feed nss (error_message i VSC_SUCCESS) k = Some k' \<and> client_at k' lost HC evs rs \<and> at_header k' \<and>
    c_threads k' = c_threads k \<and> pending_reader k' = None \<and> socket_to_send k' = socket_to_send k \<and>
    reader_at (c_memory k) r = Some v \<and>
    (\<forall>q \<in> set rs. reader_at (c_memory k') q = ((reader_at (c_memory k))(r \<mapsto> v\<lparr>rd_id := i\<rparr>)) q \<and>
      inserted_card (c_memory k') q = inserted_card (c_memory k) q) \<and>
    event_at (c_memory k') = event_at (c_memory k)"
proof -
  let ?h = "\<lparr>mh_type = msg_type VSC_Error, mh_reader_id = i, mh_length = 4\<rparr> :: VSCMsgHeader"
  let ?k = "received ?h (le32 VSC_SUCCESS) k"
  have lib: "library_ok (c_memory k) (add_mset r lost) HC (set (held k)) evs rs" and dist: "distinct (held k)"
    using assms(1,3) by (simp_all add: client_at_def)
  obtain m1 v where m1: "vreader_set_id (Some r) i (c_memory k) = Some (VREADER_OK, m1)" "reader_at (c_memory k) r = Some v"
      "reader_at m1 = (reader_at (c_memory k))(r \<mapsto> v\<lparr>rd_id := i\<rparr>)" "vcards m1 = vcards (c_memory k)"
      "event_at m1 = event_at (c_memory k)" "library_ok m1 (add_mset r lost) HC (set (held k)) evs rs"
    using set_id_library_ok [OF lib, of r i] by auto
  obtain m2 where m2: "vreader_free (Some r) m1 = Some m2" "readers_kept m1 m2" "cards_kept m1 m2" "event_at m2 = event_at m1"
      "library_ok m2 lost HC (set (held k)) evs rs"
    using free_library_ok [OF m1(6)] by blast
  let ?k' = "?k\<lparr>c_memory := m2, pending_reader := None, c_state := STATE_HEADER, watching := True\<rparr>"
  have "handle_error ?k = Some (?k\<lparr>c_memory := m2, pending_reader := None\<rparr>)"
    using assms(3) m1(1) m2(1) by (simp add: handle_error_def received_def del: vreader_set_id.simps vreader_free.simps)
  then have "handle_message nss ?k = Some (True, ?k\<lparr>c_memory := m2, pending_reader := None, c_state := STATE_HEADER\<rparr>)"
    by (simp add: handle_message_def received_def)
  moreover have "le32 VSC_SUCCESS \<noteq> []" by (simp add: le32_def)
  ultimately have fed: "feed nss (error_message i VSC_SUCCESS) k = Some ?k'"
    using feed_message [OF assms(2), of ?h "le32 VSC_SUCCESS" nss] by (simp add: error_message_def known_type_def)
  have sys: "system m2 lost HC (set (held k)) {} evs rs" using m2(5) by (simp add: library_ok_def)
  have readers: "reader_at m2 q = reader_at m1 q" if "q \<in> set rs" for q
    using m2(2) system_reader_alive [OF sys that] by (simp add: readers_kept_def)
  have cards: "inserted_card m2 q = inserted_card m1 q" if "q \<in> set rs" for q
    by (rule inserted_kept [OF sys that readers [OF that] m2(3)])
  have "inserted_card m1 q = inserted_card (c_memory k) q" for q
    using m1(2-4) by (simp add: inserted_card_at)
  moreover have "client_at ?k' lost HC evs rs" using m2(5) dist by (simp add: client_at_def held_def received_def)
  moreover have "at_header ?k'" using assms(2) by (simp add: at_header_def received_def header_roundtrip)
  moreover have "c_threads ?k' = c_threads k" "socket_to_send ?k' = socket_to_send k" by (simp_all add: received_def)
  ultimately show ?thesis using fed m1(2,3,5) m2(4) readers cards
    by (intro exI [of _ ?k'] exI [of _ v]) simp
qed


fun run_thread :: "'s nss \<Rightarrow> nat \<Rightarrow> nat \<Rightarrow> 's vscclient \<Rightarrow> 's vscclient option" where
  "run_thread nss t 0 k = Some k"
| "run_thread nss t (Suc n) k = do { k \<leftarrow> event_thread nss t k; run_thread nss t n k }"

lemma run_thread_add: "run_thread nss t (m + n) k = do { k \<leftarrow> run_thread nss t m k; run_thread nss t n k }"
proof (induction m arbitrary: k)
  case (Suc m)
  then show ?case by (cases "event_thread nss t k") simp_all
qed simp

lemma run_thread_stays: "event_thread nss t k = Some k \<Longrightarrow> run_thread nss t n k = Some k"
  by (induction n) simp_all

lemma no_event_step:
  assumes "client_at k lost HC [] rs" and "th_wait (c_threads k ! t) = Running"
  shows "event_thread nss t k = Some k"
proof -
  have lib: "library_ok (c_memory k) (mset_option (pending_reader k) + lost) HC (set (held k)) [] rs"
    using assms(1) by (simp add: client_at_def)
  show ?thesis using take_event_ok [OF lib] assms(2) by (simp add: event_thread_def)
qed

text \<open>The thread has the card event of a reader that has an identifier by now: the card is announced.\<close>

lemma card_event_step:
  assumes "client_at k lost HC [] rs" and "t < length (c_threads k)"
    and "th_wait (c_threads k ! t) = Have_Event e i \<or> th_wait (c_threads k ! t) = Wait_Status e"
    and "event_at (c_memory k) e = Some (VEVENT_CARD_INSERT, Some r, c)" and "r \<in> set rs"
    and "inserted_card (c_memory k) r = Some vcard" and "reader_at (c_memory k) r = Some v" and "rd_id v = i" and "i \<noteq> -1"
    and "pending_reader k = None"
  shows "\<exists>k' vcard'. run_thread nss t (Suc n) k = Some k' \<and> pending_reader k' = None \<and>
    reader_at (c_memory k') r = Some v \<and>
    vreader_power_on nss (the_reader vcard) MAX_ATR_LEN =
      Inr (VREADER_OK, vcard_get_atr vcard' MAX_ATR_LEN, the_reader vcard') \<and> inserted_card (c_memory k') r = Some vcard' \<and>
    socket_to_send k' = socket_to_send k @ message VSC_ATR (vcard_get_atr vcard' MAX_ATR_LEN)"
proof -
  have held: "held_event (th_wait (c_threads k ! t)) = [e]" using assms(3) by auto
  obtain k' vcard' where k': "announce_card nss t e i k = Some k'" "client_at k' lost HC [] rs"
      "\<forall>q \<in> set rs. reader_at (c_memory k') q = reader_at (c_memory k) q"
      "vreader_power_on nss (the_reader vcard) MAX_ATR_LEN =
        Inr (VREADER_OK, vcard_get_atr vcard' MAX_ATR_LEN, the_reader vcard')"
      "inserted_card (c_memory k') r = Some vcard'" "th_wait (c_threads k' ! t) = Running"
      "pending_reader k' = pending_reader k"
      "socket_to_send k' = socket_to_send k @ message VSC_ATR (vcard_get_atr vcard' MAX_ATR_LEN)"
    using announce_card_step [OF assms(1,2) held assms(4-6), of nss i] by blast
  obtain vevent where vevent: "vevents (c_memory k) e = Some vevent" "ev_type vevent = VEVENT_CARD_INSERT" "ev_reader vevent = Some r"
    using assms(4) by (auto simp: event_at_def)
  obtain w where w: "vreaders (c_memory k) r = Some w" "rd_id w = i" using assms(7,8) by (auto simp: reader_at_def)
  have "event_thread nss t k = Some k'"
    using assms(3,9,10) vevent w k'(1) by (auto simp: event_thread_def handle_event_def)
  moreover have "run_thread nss t n k' = Some k'" by (rule run_thread_stays [OF no_event_step [OF k'(2,6)]])
  ultimately show ?thesis using k' assms(5,7,10) by auto
qed

text \<open>C12: A new reader with a card reaches the host. The library has queued the insertion of a reader and of its
  card; the event thread takes \<open>n\<close> steps, the host accepts the reader as number \<open>i\<close>, and the thread goes on.
  Then the reader has that number and the host has been sent the addition of the reader and the answer to reset of
  its card. The exception is when the answer of the host comes just between the two looks of the thread at
  the identifier and at the pending reader (\<open>n\<close> is 3): the thread takes the reader for a rejected one and the card is
  not announced.\<close>

theorem reader_announced:
  assumes "client_at k lost HC [(VEVENT_READER_INSERT, Some r, c1), (VEVENT_CARD_INSERT, Some r, c2)] rs"
    and "at_header k" and "pending_reader k = None" and "t < length (c_threads k)" and "th_wait (c_threads k ! t) = Running"
    and "r \<in> set rs" and "reader_at (c_memory k) r = Some v" and "rd_id v = -1"
    and "inserted_card (c_memory k) r = Some vcard" and "i \<noteq> -1" and "2 \<le> n"
  shows "\<exists>k' vcard'. do { k \<leftarrow> run_thread nss t n k; k \<leftarrow> feed nss (error_message i VSC_SUCCESS) k; run_thread nss t 2 k } = Some k' \<and>
    pending_reader k' = None \<and> reader_at (c_memory k') r = Some (v\<lparr>rd_id := i\<rparr>) \<and>
    socket_to_send k' = socket_to_send k @ message VSC_ReaderAdd [] @
      (if n = 3 then [] else message VSC_ATR (vcard_get_atr vcard' MAX_ATR_LEN)) \<and>
    (n \<noteq> 3 \<longrightarrow> inserted_card (c_memory k') r = Some vcard' \<and> vreader_power_on nss (the_reader vcard) MAX_ATR_LEN =
      Inr (VREADER_OK, vcard_get_atr vcard' MAX_ATR_LEN, the_reader vcard'))"
proof -
  obtain k1 e1 where k1: "event_thread nss t k = Some k1"
      "client_at k1 lost HC [(VEVENT_CARD_INSERT, Some r, c2)] rs" "unchanged rs k k1"
      "th_wait (c_threads k1 ! t) = Have_Event e1 (rd_id v)" "event_at (c_memory k1) e1 = Some (VEVENT_READER_INSERT, Some r, c1)"
      "pending_reader k1 = pending_reader k" "socket_to_send k1 = socket_to_send k"
    using take_step [OF assms(1,4,5,7), of nss] by blast
  obtain k2 where k2: "event_thread nss t k1 = Some k2" "client_at k2 lost HC [(VEVENT_CARD_INSERT, Some r, c2)] rs"
      "unchanged rs k1 k2" "th_wait (c_threads k2 ! t) = Running" "pending_reader k2 = Some r"
      "socket_to_send k2 = socket_to_send k1 @ message VSC_ReaderAdd []"
    using announce_reader_step [OF k1(2) _ k1(4,5), of nss] k1(3,6) assms(3,4) by (auto simp: unchanged_def)
  have at2: "at_header k2" "t < length (c_threads k2)" "reader_at (c_memory k2) r = Some v" "inserted_card (c_memory k2) r = Some vcard"
    using k1(3) k2(3) assms(2,4,6,7,9) by (simp_all add: unchanged_def same_reading_def at_header_def)
  have two: "run_thread nss t 2 k = Some k2" using k1(1) k2(1) by (simp add: numeral_2_eq_2)
  obtain k3 e where k3: "event_thread nss t k2 = Some k3" "client_at k3 lost HC [] rs" "unchanged rs k2 k3"
      "th_wait (c_threads k3 ! t) = Have_Event e (rd_id v)" "event_at (c_memory k3) e = Some (VEVENT_CARD_INSERT, Some r, c2)"
      "pending_reader k3 = pending_reader k2" "socket_to_send k3 = socket_to_send k2"
    using take_step [OF k2(2) at2(2) k2(4) at2(3), of nss] by blast
  have at3: "at_header k3" "t < length (c_threads k3)" "reader_at (c_memory k3) r = Some v" "inserted_card (c_memory k3) r = Some vcard"
    using k3(3) at2 assms(6) by (simp_all add: unchanged_def same_reading_def at_header_def)
  have send: "socket_to_send k2 = socket_to_send k @ message VSC_ReaderAdd []" using k1(7) k2(6) by simp
  consider "n = 2" | "n = 3" | m where "n = 3 + Suc m"
    using assms(11) by (metis Suc_eq_plus1 add_2_eq_Suc le_Suc_ex numeral_3_eq_3 add_Suc_right add_0_right not0_implies_Suc add_Suc)
  then show ?thesis
  proof cases
    case 1
    obtain k4 where k4: "feed nss (error_message i VSC_SUCCESS) k2 = Some k4"
        "client_at k4 lost HC [(VEVENT_CARD_INSERT, Some r, c2)] rs" "c_threads k4 = c_threads k2" "pending_reader k4 = None"
        "socket_to_send k4 = socket_to_send k2" "reader_at (c_memory k4) r = Some (v\<lparr>rd_id := i\<rparr>)"
        "inserted_card (c_memory k4) r = Some vcard"
      using reply_step [OF k2(2) at2(1) k2(5) assms(6), of nss i] at2(3,4) assms(6) by auto
    obtain k5 e where k5: "event_thread nss t k4 = Some k5" "client_at k5 lost HC [] rs" "unchanged rs k4 k5"
        "th_wait (c_threads k5 ! t) = Have_Event e (rd_id (v\<lparr>rd_id := i\<rparr>))" "event_at (c_memory k5) e = Some (VEVENT_CARD_INSERT, Some r, c2)"
        "pending_reader k5 = pending_reader k4" "socket_to_send k5 = socket_to_send k4"
      using take_step [OF k4(2) _ _ k4(6), of t nss] k4(3) at2(2) k2(4) by auto
    have "run_thread nss t 2 k4 = run_thread nss t (Suc 0) k5" using k5(1) by (simp add: numeral_2_eq_2)
    moreover obtain k' vcard' where "run_thread nss t (Suc 0) k5 = Some k'" "pending_reader k' = None"
        "reader_at (c_memory k') r = Some (v\<lparr>rd_id := i\<rparr>)"
        "vreader_power_on nss (the_reader vcard) MAX_ATR_LEN = Inr (VREADER_OK, vcard_get_atr vcard' MAX_ATR_LEN, the_reader vcard')"
        "inserted_card (c_memory k') r = Some vcard'"
        "socket_to_send k' = socket_to_send k5 @ message VSC_ATR (vcard_get_atr vcard' MAX_ATR_LEN)"
      using card_event_step [OF k5(2) _ _ k5(5) assms(6), where t = t and v = "v\<lparr>rd_id := i\<rparr>" and n = 0 and i = i and nss = nss and vcard = vcard]
        k5(3,4,6) k4(3,4,6,7) at2(2) assms(6,10) by (auto simp: unchanged_def)
    ultimately show ?thesis using 1 two k4(1,5) k5(7) send by (intro exI [of _ k'] exI [of _ vcard']) simp
  next
    case 2
    obtain k4 where k4: "feed nss (error_message i VSC_SUCCESS) k3 = Some k4"
        "client_at k4 lost HC [] rs" "c_threads k4 = c_threads k3" "pending_reader k4 = None"
        "socket_to_send k4 = socket_to_send k3" "reader_at (c_memory k4) r = Some (v\<lparr>rd_id := i\<rparr>)"
        "event_at (c_memory k4) = event_at (c_memory k3)"
      using reply_step [OF k3(2) at3(1) _ assms(6), of nss i] k3(6) k2(5) at3(3) assms(6) by auto
    have held: "th_wait (c_threads k4 ! t) = Have_Event e (-1)" using k4(3) k3(4) assms(8) by simp
    then have "held_event (th_wait (c_threads k4 ! t)) = [e]" by simp
    from drop_step [OF k4(2) _ this] obtain k5 where k5: "drop_event t e k4 = Some k5" "client_at k5 lost HC [] rs" "unchanged rs k4 k5"
        "th_wait (c_threads k5 ! t) = Running" "pending_reader k5 = pending_reader k4" "socket_to_send k5 = socket_to_send k4"
      using k4(3) at3(2) by auto
    obtain vevent where "vevents (c_memory k4) e = Some vevent" "ev_type vevent = VEVENT_CARD_INSERT"
      using k3(5) k4(7) [THEN fun_cong, of e] by (auto simp: event_at_def)
    then have "event_thread nss t k4 = Some k5" using held k4(4) k5(1) by (simp add: event_thread_def)
    then have "run_thread nss t 2 k4 = Some k5" using no_event_step [OF k5(2,4), of nss] by (simp add: numeral_2_eq_2)
    moreover have "run_thread nss t 3 k = Some k3"
      using run_thread_add [of nss t 2 1 k] two k3(1) by simp
    ultimately show ?thesis using 2 k4(1,4-6) k5(3,5,6) k3(7) send assms(6)
      by (intro exI [of _ k5]) (simp add: unchanged_def)
  next
    case (3 m)
    let ?k = "thread_goes t (Wait_Status e) k3"
    obtain vevent where "vevents (c_memory k3) e = Some vevent" "ev_type vevent = VEVENT_CARD_INSERT" "ev_reader vevent = Some r"
      using k3(5) by (auto simp: event_at_def)
    then have "event_thread nss t k3 = Some ?k"
      using k3(4,6) k2(5) assms(8) by (simp add: event_thread_def)
    moreover have wait: "th_wait (c_threads ?k ! t) = Wait_Status e" using at3(2) by (simp add: thread_goes_def)
    then have "event_thread nss t ?k = Some ?k" using k3(6) k2(5) by (simp add: event_thread_def)
    then have "run_thread nss t m ?k = Some ?k" by (rule run_thread_stays)
    moreover have "run_thread nss t 3 k = Some k3"
      using run_thread_add [of nss t 2 1 k] two k3(1) by simp
    ultimately have run: "run_thread nss t n k = Some ?k" using 3 run_thread_add [of nss t 3 "Suc m" k] by simp
    have "stays_ok k3 (Some ?k) lost HC [] rs" using thread_goes_ok [OF k3(2) at3(2)] k3(4) by simp
    then have ok: "client_at ?k lost HC [] rs" by (simp add: stays_ok_def)
    have "at_header ?k" using at3(1) by (simp add: at_header_def thread_goes_def)
    from reply_step [OF ok this _ assms(6), of nss i]
    obtain k4 where k4: "feed nss (error_message i VSC_SUCCESS) ?k = Some k4"
        "client_at k4 lost HC [] rs" "c_threads k4 = c_threads ?k" "pending_reader k4 = None"
        "socket_to_send k4 = socket_to_send ?k" "reader_at (c_memory k4) r = Some (v\<lparr>rd_id := i\<rparr>)"
        "event_at (c_memory k4) = event_at (c_memory ?k)" "inserted_card (c_memory k4) r = Some vcard"
      using k3(6) k2(5) at3(3,4) assms(6) by auto
    obtain k' vcard' where "run_thread nss t (Suc 1) k4 = Some k'" "pending_reader k' = None"
        "reader_at (c_memory k') r = Some (v\<lparr>rd_id := i\<rparr>)"
        "vreader_power_on nss (the_reader vcard) MAX_ATR_LEN = Inr (VREADER_OK, vcard_get_atr vcard' MAX_ATR_LEN, the_reader vcard')"
        "inserted_card (c_memory k') r = Some vcard'"
        "socket_to_send k' = socket_to_send k4 @ message VSC_ATR (vcard_get_atr vcard' MAX_ATR_LEN)"
      using card_event_step [OF k4(2) _ _ _ assms(6) k4(8,6), where e = e and c = c2 and n = 1 and i = i and nss = nss and t = t]
        k4(3,4,7) wait at3(2) k3(5) assms(10) by (auto simp: thread_goes_def)
    then show ?thesis using 3 run k4(1,5) k3(7) send
      by (intro exI [of _ k'] exI [of _ vcard']) (simp add: numeral_2_eq_2)
  qed
qed


text \<open>A program to try this with: one reader, not yet announced, with a card in it.\<close>

lemma example_library:
  "\<exists>(m :: bool emul_memory) r v vcard HR HC. library_ok m HR HC {}
     [(VEVENT_READER_INSERT, Some r, None), (VEVENT_CARD_INSERT, Some r, rd_card v)] [r] \<and>
     reader_at m r = Some v \<and> rd_id v = -1 \<and> inserted_card m r = Some vcard"
proof -
  let ?e = "vreader_emul_new 3 VCARD_EMUL_CAC None" and ?m0 = "vevent_queue_init (vreader_init empty_memory) :: bool emul_memory"
  let ?v = "\<lparr>rd_reference_count = 0, rd_card = None, rd_name = ''r'', rd_id = -1, rd_private = Some ?e\<rparr>"
  have "vcards ?m0 = Map.empty"
    by (simp add: vevent_queue_init_def vreader_init_def vreader_list_init_def vreader_list_new_def empty_memory_def)
  then have ok0: "library_ok ?m0 {#} {#} {} [] []" using start_system by (simp add: library_ok_def all_cards_ok_def)
  have "em_saved_vcard ?e = None" by (simp add: vreader_emul_new_def)
  from new_listed_reader_ok [OF start_system this, of "''r''"]
  obtain r m1 and m2 :: "bool emul_memory" where m2: "vreader_alloc ''r'' (Some ?e) ?m0 = (r, m1)"
      "vreader_add_reader (Some r) m1 = Some (VREADER_OK, m2)" "system m2 {#r#} {#} {} {} [(VEVENT_READER_INSERT, Some r, None)] [r]"
      "reader_at m2 = (reader_at ?m0)(r \<mapsto> ?v)"
    by (auto simp del: One_nat_def)
  have "library_kept ?m0 m2"
    using vreader_alloc_kept [OF m2(1)] vreader_add_reader_kept [OF m2(2)] library_kept_trans by blast
  then have ok2: "library_ok m2 {#r#} {#} {} [(VEVENT_READER_INSERT, Some r, None)] [r]"
    by (rule library_ok_kept [OF ok0 _ m2(3)])
  obtain st vcard where vcard: "vcard_init demo_nss VCARD_EMUL_CAC [] (vcard_new True) = Inr (st, vcard)" "card_ok vcard"
    using vcard_init_ok [OF card_wf_new, of demo_nss "[]" True] by (auto simp: card_ok_def)
  obtain c m3 where m3: "vcard_alloc vcard m2 = (c, m3)" "vreaders m3 = vreaders m2"
      "system m3 {#r#} {#c#} {} {} [(VEVENT_READER_INSERT, Some r, None)] [r]"
    using new_card_ok [OF m2(3), of vcard] by (cases "vcard_alloc vcard m2") auto
  have ok3: "library_ok m3 {#r#} {#c#} {} [(VEVENT_READER_INSERT, Some r, None)] [r]"
    by (rule library_ok_kept [OF ok2 vcard_alloc_kept [OF m3(1) vcard(2)] m3(3)])
  have v3: "reader_at m3 r = Some ?v" using m2(4) m3(2) fun_cong [of _ _ r] by (simp add: reader_at_def fun_eq_iff)
  let ?w = "?v\<lparr>rd_card := Some c\<rparr>"
  obtain m4 where m4: "vreader_insert_card (Some r) (Some c) m3 = Some (VREADER_OK, m4)"
      "system m4 {#r#} {#c#} {} {} ([(VEVENT_READER_INSERT, Some r, None)] @ [(VEVENT_CARD_INSERT, Some r, Some c)]) [r]"
      "reader_at m4 r = Some ?w"
    using insert_card_ok [OF m3(3), of r "Some c"] v3 by auto
  have ok4: "library_ok m4 {#r#} {#c#} {} [(VEVENT_READER_INSERT, Some r, None), (VEVENT_CARD_INSERT, Some r, Some c)] [r]"
    using library_ok_kept [OF ok3 insert_card_kept [OF m4(1)] m4(2)] by simp
  obtain es l xs where at: "system_at m4 {#r#} {#c#} {} {} es
      ([(VEVENT_READER_INSERT, Some r, None)] @ [(VEVENT_CARD_INSERT, Some r, Some c)]) l xs [r]"
    using m4(2) by (auto simp: system_def)
  obtain obj where "vcards m4 c = Some obj"
    using count_okD [OF countedD(2) [OF system_atD(1) [OF at]], of c] by auto
  then have "inserted_card m4 r = Some (cd_card obj)" using m4(3) by (simp add: inserted_card_at)
  then show ?thesis using ok4 m4(3)
    by (intro exI [of _ m4] exI [of _ r] exI [of _ ?w] exI [of _ "cd_card obj"] exI [of _ "{#r#}"] exI [of _ "{#c#}"]) simp
qed

theorem reader_announced_witness:
  "\<exists>(k :: bool vscclient) k3 k4 atr.
     do { k \<leftarrow> run_thread demo_nss 0 3 k; k \<leftarrow> feed demo_nss (error_message 7 VSC_SUCCESS) k; run_thread demo_nss 0 2 k } = Some k3 \<and>
     do { k \<leftarrow> run_thread demo_nss 0 4 k; k \<leftarrow> feed demo_nss (error_message 7 VSC_SUCCESS) k; run_thread demo_nss 0 2 k } = Some k4 \<and>
     socket_to_send k = [] \<and> socket_to_send k3 = message VSC_ReaderAdd [] \<and>
     socket_to_send k4 = message VSC_ReaderAdd [] @ message VSC_ATR atr"
proof -
  obtain m :: "bool emul_memory" and r v vcard HR HC where m: "library_ok m HR HC {}
      [(VEVENT_READER_INSERT, Some r, None), (VEVENT_CARD_INSERT, Some r, rd_card v)] [r]"
      "reader_at m r = Some v" "rd_id v = -1" "inserted_card m r = Some vcard"
    using example_library by blast
  let ?k = "(initial_client m [])\<lparr>c_threads := [\<lparr>th_wait = Running, th_atr = []\<rparr>]\<rparr>"
  have k: "client_at ?k HR HC [(VEVENT_READER_INSERT, Some r, None), (VEVENT_CARD_INSERT, Some r, rd_card v)] [r]"
      "at_header ?k" "pending_reader ?k = None" "0 < length (c_threads ?k)" "th_wait (c_threads ?k ! 0) = Running"
      "r \<in> set [r]" "reader_at (c_memory ?k) r = Some v" "rd_id v = -1" "inserted_card (c_memory ?k) r = Some vcard"
      "socket_to_send ?k = []"
    using m initial_at_header [of m "[]"] by (simp_all add: client_at_def held_def initial_client_def at_header_def)
  obtain k3 where k3: "do { k \<leftarrow> run_thread demo_nss 0 3 ?k; k \<leftarrow> feed demo_nss (error_message 7 VSC_SUCCESS) k; run_thread demo_nss 0 2 k } =
      Some k3" "socket_to_send k3 = message VSC_ReaderAdd []"
    using reader_announced [OF k(1-9), of 7 3 demo_nss] k(10) by auto
  obtain k4 atr where k4: "do { k \<leftarrow> run_thread demo_nss 0 4 ?k; k \<leftarrow> feed demo_nss (error_message 7 VSC_SUCCESS) k; run_thread demo_nss 0 2 k } =
      Some k4" "socket_to_send k4 = message VSC_ReaderAdd [] @ message VSC_ATR atr"
    using reader_announced [OF k(1-9), of 7 4 demo_nss] k(10) by auto
  show ?thesis
    by (intro exI [of _ ?k] exI [of _ k3] exI [of _ k4] exI [of _ atr] conjI k3 k4 k(10))
qed

end
