(* ===== verification/Vsc_Commands.thy ===== *)
theory Vsc_Commands
  imports Vsc_Events
begin

text \<open>
  The command line of \<open>src/vscclient.c\<close>: the options it is started with, from which it makes those of
  the emulation, and the commands that are typed while it runs. The lines it prints are values;
  \<open>getopt\<close>, the socket and the terminal are outside. \<open>None\<close> is a fault.
\<close>


section \<open>Numbers\<close>

text \<open>\<open>atoi\<close> of the C library: the digits behind blanks and a sign. A value outside of \<open>int\<close> is undefined in C;
  here its low bits are taken.\<close>

definition digit_value :: "char \<Rightarrow> int option" where
  "digit_value c = (let n = of_char c :: int in if 48 \<le> n \<and> n \<le> 57 then Some (n - 48) else None)"

fun digits :: "int \<Rightarrow> string \<Rightarrow> int" where
  "digits n [] = n"
| "digits n (c # cs) = (case digit_value c of None \<Rightarrow> n | Some d \<Rightarrow> digits (10 * n + d) cs)"

definition atoi :: "string \<Rightarrow> int" where
  "atoi s = (let s = strip s in
     if starts_with ''-'' s then - digits 0 (tl s) else if starts_with ''+'' s then digits 0 (tl s) else digits 0 s)"

definition get_id_from_string :: "string \<Rightarrow> uint32 \<Rightarrow> uint32" where
  "get_id_from_string s default_id =
     (let i = of_int (atoi s) in if i = 0 \<and> \<not> starts_with ''0'' s then default_id else i)"

section \<open>Options\<close>

text \<open>What \<open>getopt\<close> returns, one after the other. More than \<open>MAX_CERTS\<close> certificates end the program.\<close>

datatype main_option = Option_c string | Option_e string | Option_d string | Option_p

record main_arguments =
  cert_names :: "string list"
  emul_args :: "string option"
  arg_verbose :: uint32
  with_pcsc :: bool

abbreviation MAX_CERTS :: nat where "MAX_CERTS \<equiv> 100"

fun main_options :: "main_option list \<Rightarrow> main_arguments \<Rightarrow> main_arguments option" where
  "main_options [] a = Some a"
| "main_options (Option_c optarg # os) a =
     (if length (cert_names a) \<ge> MAX_CERTS then None
      else main_options os (a\<lparr>cert_names := cert_names a @ [optarg]\<rparr>))"
| "main_options (Option_e optarg # os) a = main_options os (a\<lparr>emul_args := Some optarg\<rparr>)"
| "main_options (Option_d optarg # os) a = main_options os (a\<lparr>arg_verbose := get_id_from_string optarg 1\<rparr>)"
| "main_options (Option_p # os) a = main_options os (a\<lparr>with_pcsc := True\<rparr>)"

definition SOFT_STRING :: string where
  "SOFT_STRING = '',soft=(,Virtual Reader,CAC,,''"

definition quoted :: "string \<Rightarrow> string" where
  "quoted s = CHR 0x22 # s @ [CHR 0x22]"

definition soft_arguments :: "main_arguments \<Rightarrow> string option" where
  "soft_arguments a =
     (if cert_names a = [] then emul_args a
      else Some ((case emul_args a of None \<Rightarrow> ''db='' @ quoted ''/etc/pki/nssdb'' | Some args \<Rightarrow> args) @
        SOFT_STRING @ concat (map (\<lambda>name. name @ '','') (cert_names a)) @ '')''))"

definition command_line_options :: "bool \<Rightarrow> main_arguments \<Rightarrow> fault + VCardEmulOptions option" where
  "command_line_options enable_pcsc a =
     (case soft_arguments a of None \<Rightarrow> Inr None | Some args \<Rightarrow> vcard_emul_options enable_pcsc args)"

text \<open>The rest of \<open>main\<close>, connected to the host: the library is initialised (its result is not looked at) and
  the client introduces itself.\<close>

definition init_message :: bytes where
  "init_message = le32 VSCARD_MAGIC @ be32 VSCARD_VERSION @ le32 0"

definition main_start ::
  "bool \<Rightarrow> 's environment \<Rightarrow> VCardEmulOptions option \<Rightarrow> bytes \<Rightarrow> ('s emul_state \<times> 's vscclient) option" where
  "main_start enable_pcsc v options stack = do {
     (st, es) \<leftarrow> vcard_emul_init enable_pcsc v options emul_start;
     Some (es, send_msg VSC_Init 0 init_message (initial_client (es_memory es) stack))
   }"

section \<open>Commands\<close>

datatype output_line = Active_Readers | Inactive_Readers | Active uint32 bool "string option"
  | Inactive bool "string option" | Inserted "string option" VCardEmulError | Removed "string option" VCardEmulError
  | No_Reader uint32 | Selecting uint32 "string option" | Not_Found uint32 | Debug_Level uint32 | Valid_Commands

record command_state =
  default_reader_id :: uint32
  verbose :: uint32

definition command_id :: "nat \<Rightarrow> string \<Rightarrow> uint32 \<Rightarrow> uint32 \<Rightarrow> uint32" where
  "command_id n line default_id i =
     (if drop n line \<noteq> [] \<and> line ! n = CHR '' '' then get_id_from_string (drop (n + 1) line) default_id else i)"

text \<open>The loops take a reference to every reader of the list and give none back.\<close>

partial_function (option) exit_loop :: "nat option \<Rightarrow> 's vscclient \<Rightarrow> 's vscclient option" where
  "exit_loop reader_entry k =
     (if reader_entry = None then Some k
      else do {
        (r, m) \<leftarrow> vreader_list_get_reader reader_entry (c_memory k);
        i \<leftarrow> vreader_get_id r m;
        k \<leftarrow> (if i = -1 then Some (k\<lparr>c_memory := m\<rparr>)
              else do {
                (st, m) \<leftarrow> vreader_card_is_present r m;
                let k = k\<lparr>c_memory := m\<rparr>;
                let k = (if st = VREADER_OK then send_msg VSC_CardRemove i [] k else k);
                Some (send_msg VSC_ReaderRemove i [] k)
              });
        reader_entry \<leftarrow> vreader_list_get_next reader_entry (c_memory k);
        exit_loop reader_entry k
      })"

text \<open>A line for each reader whose identifier passes.\<close>

partial_function (option) print_loop ::
  "(nat option \<Rightarrow> 's emul_memory \<Rightarrow> uint32 option) \<Rightarrow> (uint32 \<Rightarrow> bool) \<Rightarrow> (uint32 \<Rightarrow> bool \<Rightarrow> string option \<Rightarrow> output_line) \<Rightarrow>
   nat option \<Rightarrow> 's emul_memory \<Rightarrow> (output_line list \<times> 's emul_memory) option" where
  "print_loop get_id skip show_line reader_entry m =
     (if reader_entry = None then Some ([], m)
      else do {
        (r, m) \<leftarrow> vreader_list_get_reader reader_entry m;
        i \<leftarrow> get_id r m;
        (line, m) \<leftarrow> (if skip i then Some ([], m)
              else do {
                (st, m) \<leftarrow> vreader_card_is_present r m;
                name \<leftarrow> vreader_get_name r m;
                Some ([show_line i (st = VREADER_OK) name], m)
              });
        reader_entry \<leftarrow> vreader_list_get_next reader_entry m;
        (lines, m) \<leftarrow> print_loop get_id skip show_line reader_entry m;
        Some (line @ lines, m)
      })"

definition active_loop :: "nat option \<Rightarrow> 's emul_memory \<Rightarrow> (output_line list \<times> 's emul_memory) option" where
  "active_loop = print_loop vreader_get_id (\<lambda>i. i = -1) Active"

text \<open>The second loop asks for the identifier of \<open>reader\<close>, which is null, instead of \<open>r\<close>.\<close>

definition inactive_loop :: "nat option \<Rightarrow> 's emul_memory \<Rightarrow> (output_line list \<times> 's emul_memory) option" where
  "inactive_loop = print_loop (\<lambda>r. vreader_get_id None) (\<lambda>i. i \<noteq> -1) (\<lambda>i. Inactive)"

definition exit_command :: "'s vscclient \<Rightarrow> 's vscclient option" where
  "exit_command k = do {
     (list, m) \<leftarrow> vreader_get_reader_list (c_memory k);
     reader_entry \<leftarrow> vreader_list_get_first (Some list) m;
     exit_loop reader_entry (k\<lparr>c_memory := m\<rparr>)
   }"

definition list_command :: "'s emul_memory \<Rightarrow> (output_line list \<times> 's emul_memory) option" where
  "list_command m = do {
     (list, m) \<leftarrow> vreader_get_reader_list m;
     reader_entry \<leftarrow> vreader_list_get_first (Some list) m;
     (active, m) \<leftarrow> active_loop reader_entry m;
     reader_entry \<leftarrow> vreader_list_get_first (Some list) m;
     (inactive, m) \<leftarrow> inactive_loop reader_entry m;
     m \<leftarrow> vreader_list_delete (Some list) m;
     Some (Active_Readers # active @ Inactive_Readers # inactive, m)
   }"

text \<open>\<open>insert\<close> and \<open>remove\<close>, up to the call of \<open>vreader_free\<close> at the end; \<open>force\<close> is the function they call.\<close>

definition force_command ::
  "(nat option \<Rightarrow> 's emul_memory \<Rightarrow> (VCardEmulError \<times> 's emul_memory) option) \<Rightarrow>
   (string option \<Rightarrow> VCardEmulError \<Rightarrow> output_line) \<Rightarrow> uint32 \<Rightarrow> 's emul_memory \<Rightarrow>
   (output_line list \<times> nat option \<times> 's emul_memory) option" where
  "force_command force show i m = do {
     (reader, m) \<leftarrow> vreader_get_reader_by_id i m;
     if reader \<noteq> None
     then do {
       (error, m) \<leftarrow> force reader m;
       name \<leftarrow> vreader_get_name reader m;
       Some ([show name error], reader, m)
     }
     else Some ([No_Reader i], reader, m)
   }"

definition select_command ::
  "uint32 \<Rightarrow> command_state \<Rightarrow> 's emul_memory \<Rightarrow> (output_line list \<times> nat option \<times> command_state \<times> 's emul_memory) option" where
  "select_command i cs m = do {
     (reader, m) \<leftarrow> (if i \<noteq> VSCARD_UNDEFINED_READER_ID then vreader_get_reader_by_id i m else Some (None, m));
     if reader \<noteq> None
     then do {
       name \<leftarrow> vreader_get_name reader m;
       Some ([Selecting i name], reader, cs\<lparr>default_reader_id := i\<rparr>, m)
     }
     else Some ([Not_Found i], reader, cs, m)
   }"

text \<open>What a command comes to: the program goes on or has ended, the lines printed, and the state.\<close>

definition do_command ::
  "'s emulation \<Rightarrow> bool \<Rightarrow> string option \<Rightarrow> command_state \<Rightarrow> 's vscclient \<Rightarrow>
   (bool \<times> output_line list \<times> command_state \<times> 's vscclient) option" where
  "do_command em initialized line cs k =
     (let i = default_reader_id cs; m = c_memory k in
      case line of
        None \<Rightarrow> Some (True, [], cs, k)
      | Some line \<Rightarrow>
          if starts_with ''exit'' line
          then do { k \<leftarrow> exit_command k; Some (False, [Active_Readers], cs, k) }
          else if starts_with ''insert'' line
          then do {
            (out, reader, m) \<leftarrow> force_command (vcard_emul_force_card_insert em initialized) Inserted (command_id 6 line i i) m;
            m \<leftarrow> vreader_free reader m;
            Some (True, out, cs, k\<lparr>c_memory := m\<rparr>)
          }
          else if starts_with ''remove'' line
          then do {
            (out, reader, m) \<leftarrow> force_command (vcard_emul_force_card_remove initialized) Removed (command_id 6 line i i) m;
            m \<leftarrow> vreader_free reader m;
            Some (True, out, cs, k\<lparr>c_memory := m\<rparr>)
          }
          else if starts_with ''select'' line
          then do {
            (out, reader, cs, m) \<leftarrow> select_command (command_id 6 line VSCARD_UNDEFINED_READER_ID i) cs m;
            m \<leftarrow> vreader_free reader m;
            Some (True, out, cs, k\<lparr>c_memory := m\<rparr>)
          }
          else if starts_with ''debug'' line
          then (let cs = cs\<lparr>verbose := command_id 5 line 0 (verbose cs)\<rparr> in
            Some (True, [Debug_Level (verbose cs)], cs, k))
          else if starts_with ''list'' line
          then do { (out, m) \<leftarrow> list_command m; Some (True, out, cs, k\<lparr>c_memory := m\<rparr>) }
          else if line \<noteq> [] then Some (True, [Valid_Commands], cs, k)
          else Some (True, [], cs, k))"

section \<open>The certificates of the command line\<close>

lemma concat_certs: "concat (map (\<lambda>name. name @ '','') cs) @ '')'' = show_certs (cs @ [[]])"
proof (induction cs)
  case (Cons c cs)
  then show ?case by (cases cs) simp_all
qed simp

definition no_arguments :: main_arguments where
  "no_arguments = \<lparr>cert_names = [], emul_args = None, arg_verbose = 0, with_pcsc = False\<rparr>"

lemma main_options_certs:
  "length (cert_names a) \<le> MAX_CERTS \<Longrightarrow> main_options (map Option_c certs) a =
    (if length (cert_names a) + length certs \<le> MAX_CERTS then Some (a\<lparr>cert_names := cert_names a @ certs\<rparr>) else None)"
  by (induction certs arbitrary: a) auto

definition virtual_reader :: "string list \<Rightarrow> VirtualReaderOptions" where
  "virtual_reader certs = \<lparr>vo_name = [], vo_vname = ''Virtual Reader'', vo_card_type = VCARD_EMUL_CAC,
     vo_type_params = [], vo_cert_name = certs @ [[]]\<rparr>"

lemma soft_arguments_parsed:
  assumes "list_all token_ok certs"
  shows "vcard_emul_options enable_pcsc (''db='' @ quoted ''/etc/pki/nssdb'' @ SOFT_STRING @
      concat (map (\<lambda>name. name @ '','') certs) @ '')'') =
    Inr (Some (default_options\<lparr>eo_nss_db := Some ''/etc/pki/nssdb'', eo_vreader := [virtual_reader certs]\<rparr>))"
proof -
  let ?v = "virtual_reader certs"
  have "reader_options_ok enable_pcsc ?v"
    using assms by (simp add: reader_options_ok_def virtual_reader_def token_ok_def type_ok_def isspace_def)
  note soft = soft_option_show [OF this, of _ "[]"]
  have show_v: "SOFT_STRING @ concat (map (\<lambda>name. name @ '','') certs) @ '')'' = '','' @ ''soft='' @ show_soft ?v"
    unfolding concat_certs by (simp add: SOFT_STRING_def show_soft_def virtual_reader_def show_type_def)
  let ?o = "default_options\<lparr>eo_nss_db := Some ''/etc/pki/nssdb''\<rparr>"
  have "option_step enable_pcsc default_options (''db='' @ quoted ''/etc/pki/nssdb'' @ '','' @ ''soft='' @ show_soft ?v) =
      Inr (Some (?o, '','' @ ''soft='' @ show_soft ?v))"
    using strpbrk_append [of "''/etc/pki/nssdb''" "[CHR 0x22, CHR 0x0A]" "CHR 0x22" "'','' @ ''soft='' @ show_soft ?v"]
      between_append [of "''/etc/pki/nssdb''"]
    by (simp add: option_step_def starts_with_def db_option_def isspace_def Let_def quoted_def default_options_def)
  moreover have "option_step enable_pcsc ?o ('','' @ ''soft='' @ show_soft ?v) = Inr (Some (?o, ''soft='' @ show_soft ?v))"
    by (simp add: option_step_def)
  moreover have "option_step enable_pcsc ?o (''soft='' @ show_soft ?v) = Inr (Some (?o\<lparr>eo_vreader := [?v]\<rparr>, []))"
    using soft [of ?o] by (simp add: option_step_def starts_with_def isspace_def skip_closing_def default_options_def)
  ultimately show ?thesis
    unfolding vcard_emul_options_def show_v by (simp add: options_loop.simps)
qed

text \<open>C24: Naming certificates on the command line is enough to get a card with them: with any number of
  \<open>-c\<close> options up to the limit, and plain names, the emulation is set up with the system's database and one software
  reader, whose certificates are those names, in this order (and one empty name at the end).\<close>

theorem client_certificates:
  assumes "certs \<noteq> []" and "list_all token_ok certs"
  shows "case main_options (map Option_c certs) no_arguments of
      None \<Rightarrow> MAX_CERTS < length certs
    | Some a \<Rightarrow> length certs \<le> MAX_CERTS \<and> command_line_options enable_pcsc a =
        Inr (Some (default_options\<lparr>eo_nss_db := Some ''/etc/pki/nssdb'', eo_vreader := [virtual_reader certs]\<rparr>))"
  using soft_arguments_parsed [OF assms(2)] assms(1)
  by (simp add: main_options_certs no_arguments_def command_line_options_def soft_arguments_def)

theorem client_certificates_witness:
  "\<exists>a. main_options (map Option_c [''cert 1'', ''cert2'']) no_arguments = Some a \<and> command_line_options False a =
     Inr (Some (default_options\<lparr>eo_nss_db := Some ''/etc/pki/nssdb'', eo_vreader := [virtual_reader [''cert 1'', ''cert2'']]\<rparr>))"
proof -
  obtain a where a: "main_options (map Option_c [''cert 1'', ''cert2'']) no_arguments = Some a"
    by (simp add: no_arguments_def)
  have "[''cert 1'', ''cert2''] \<noteq> []" "list_all token_ok [''cert 1'', ''cert2'']" by (simp_all add: token_ok_def isspace_def)
  from client_certificates [OF this, of False] show ?thesis
    unfolding a option.case by blast
qed

section \<open>The list of readers that is printed\<close>

lemma list_reader_step:
  assumes "system_at m HR HC HE NE es evs l xs rs" and "chain (entry_nexts (ventries m)) (z # zs) None"
    and "map (entry_reader (ventries m)) (z # zs) = map Some (r # ps)"
  shows "\<exists>m1. vreader_list_get_reader (Some z) m = Some (Some r, m1) \<and> reader_at m1 = reader_at m \<and> same_links m m1 \<and>
    system_at m1 (add_mset r HR) HC HE NE es evs l xs rs \<and> vreader_list_get_next (Some z) m1 = Some (start zs None)"
proof -
  obtain n where n: "ventries m z = Some n" "en_reader n = Some r" "en_next n = start zs None"
    using assms(2,3) by (auto simp: entry_reader_def entry_nexts_def bind_eq_Some_conv)
  note s = system_atD(1) [OF assms(1)]
  have "r \<in># reader_refs m + HR"
    using refs_in [OF countedD(4) [OF s] n(1), of en_reader] n(2) by (simp add: reader_refs_def)
  then obtain m1 where m1: "vreader_reference (Some r) m = Some (Some r, m1)" "counted m1 (add_mset r HR) HC"
      "same_links m m1" "reader_at m1 = reader_at m"
    using vreader_reference_ok [OF s] reader_at_reference by metis
  then show ?thesis
    using n system_links [OF assms(1) m1(3,2)] by (intro exI [of _ m1]) (simp add: same_links_def)
qed

definition reader_line ::
  "(uint32 \<Rightarrow> bool) \<Rightarrow> (uint32 \<Rightarrow> bool \<Rightarrow> string option \<Rightarrow> output_line) \<Rightarrow> uint32 \<Rightarrow> VReaderStruct \<Rightarrow> output_line list" where
  "reader_line skip show_line i v = (if skip i then [] else [show_line i (rd_card v \<noteq> None) (Some (rd_name v))])"

lemma print_loop_ok:
  assumes "system_at m HR HC HE NE es evs l xs rs" and "chain (entry_nexts (ventries m)) zs None"
    and "map (entry_reader (ventries m)) zs = map Some qs"
    and "\<And>m r v. reader_at m r = Some v \<Longrightarrow> get_id (Some r) m = Some (g v)"
  shows "\<exists>m'. print_loop get_id skip show_line (start zs None) m =
      Some (concat (map (\<lambda>r. reader_line skip show_line (g (the (reader_at m r))) (the (reader_at m r))) qs), m') \<and>
    reader_at m' = reader_at m \<and> same_links m m' \<and> system_at m' (mset qs + HR) HC HE NE es evs l xs rs"
  using assms(1-3)
proof (induction zs arbitrary: m HR qs)
  case Nil
  then show ?case by (auto simp: print_loop.simps same_links_def)
next
  case (Cons z zs)
  then obtain r ps where qs: "qs = r # ps" by (cases qs) auto
  obtain m1 where m1: "vreader_list_get_reader (Some z) m = Some (Some r, m1)" "reader_at m1 = reader_at m" "same_links m m1"
      "system_at m1 (add_mset r HR) HC HE NE es evs l xs rs" "vreader_list_get_next (Some z) m1 = Some (start zs None)"
    using list_reader_step [OF Cons.prems(1,2)] Cons.prems(3) qs by auto
  have "system m1 (add_mset r HR) HC HE NE evs rs" using m1(4) by (auto simp: system_def)
  from card_is_present_ok [OF this, of r] obtain w where w: "vreaders m1 r = Some w"
      "vreader_card_is_present (Some r) m1 = Some (if rd_card w = None then VREADER_NO_CARD else VREADER_OK, m1)" by auto
  define v where "v = w\<lparr>rd_reference_count := 0\<rparr>"
  have v: "reader_at m1 r = Some v" "rd_card v = rd_card w" "rd_name v = rd_name w"
    using w(1) by (simp_all add: v_def reader_at_def)
  have nodes: "ventries m1 = ventries m" using m1(3) by (simp add: same_links_def)
  obtain m2 where m2: "print_loop get_id skip show_line (start zs None) m1 =
        Some (concat (map (\<lambda>r. reader_line skip show_line (g (the (reader_at m1 r))) (the (reader_at m1 r))) ps), m2)"
      "reader_at m2 = reader_at m1" "same_links m1 m2" "system_at m2 (mset ps + add_mset r HR) HC HE NE es evs l xs rs"
    using Cons.IH [OF m1(4), of ps] Cons.prems(2,3) qs nodes by auto
  have "print_loop get_id skip show_line (start (z # zs) None) m =
      Some (concat (map (\<lambda>r. reader_line skip show_line (g (the (reader_at m r))) (the (reader_at m r))) qs), m2)"
    using m1(1,2,5) w v m2(1) assms(4) [OF v(1)] qs
    by (subst print_loop.simps) (simp add: reader_line_def del: vreader_list_get_next.simps vreader_list_get_reader.simps)
  then show ?case using m2(2-4) m1(2,3) qs by (intro exI [of _ m2]) (simp add: same_links_def)
qed

text \<open>What is printed of the readers, in the order of the list.\<close>

definition active_lines :: "VReaderStruct list \<Rightarrow> output_line list" where
  "active_lines vs = map (\<lambda>v. Active (rd_id v) (rd_card v \<noteq> None) (Some (rd_name v))) (filter (\<lambda>v. rd_id v \<noteq> -1) vs)"

definition inactive_lines :: "VReaderStruct list \<Rightarrow> output_line list" where
  "inactive_lines vs = map (\<lambda>v. Inactive (rd_card v \<noteq> None) (Some (rd_name v))) vs"

lemma reader_lines:
  "concat (map (\<lambda>r. reader_line (\<lambda>i. i = -1) Active (rd_id (f r)) (f r)) rs) = active_lines (map f rs)"
  "concat (map (\<lambda>r. reader_line (\<lambda>i. i \<noteq> -1) (\<lambda>i. Inactive) (-1) (f r)) rs) = inactive_lines (map f rs)"
  by (induction rs) (simp_all add: active_lines_def inactive_lines_def reader_line_def)

lemma list_command_ok:
  assumes "system m HR HC HE NE evs rs"
  shows "\<exists>m'. list_command m = Some (Active_Readers # active_lines (map (\<lambda>r. the (reader_at m r)) rs) @
      Inactive_Readers # inactive_lines (map (\<lambda>r. the (reader_at m r)) rs), m') \<and>
    (\<forall>r \<in> set rs. reader_at m' r = reader_at m r) \<and> system m' (mset rs + (mset rs + HR)) HC HE NE evs rs"
proof -
  obtain es l xs where sys: "system_at m HR HC HE NE es evs l xs rs" using assms(1) by (auto simp: system_def)
  obtain k m1 zs where m1: "vreader_get_reader_list m = Some (k, m1)" "k \<noteq> l" "list_at m1 k zs rs"
      "set zs \<inter> (set xs \<union> NE) = {}" "readers_kept m m1" "system_at m1 HR HC HE (NE \<union> set zs) es evs l xs rs"
    using get_reader_list_ok [OF sys] by blast
  have "system m1 HR HC HE (NE \<union> set zs) evs rs" using m1(6) by (auto simp: system_def)
  from system_reader_alive [OF this] m1(5)
  have kept: "reader_at m1 r = reader_at m r" if "r \<in> set rs" for r using that by (auto simp: readers_kept_def)
  then have vs: "map (\<lambda>r. the (reader_at m1 r)) rs = map (\<lambda>r. the (reader_at m r)) rs" by simp
  have first: "vreader_list_get_first (Some k) m1 = Some (start zs None)" using m1(3) by (simp add: list_at_def)
  have ch: "chain (entry_nexts (ventries m1)) zs None" "map (entry_reader (ventries m1)) zs = map Some rs"
    using m1(3) by (auto simp: list_at_def entries_ok_def)
  have get: "vreader_get_id (Some r) m = Some (rd_id v)" if "reader_at m r = Some v" for m :: "'a emul_memory" and r v
    using that by (auto simp: reader_at_def)
  from print_loop_ok [where get_id = vreader_get_id and g = rd_id and skip = "\<lambda>i. i = -1" and show_line = Active,
      OF m1(6) ch get]
  obtain m2 where m2: "active_loop (start zs None) m1 = Some (active_lines (map (\<lambda>r. the (reader_at m r)) rs), m2)"
      "reader_at m2 = reader_at m1" "same_links m1 m2" "system_at m2 (mset rs + HR) HC HE (NE \<union> set zs) es evs l xs rs"
    unfolding reader_lines(1) vs active_loop_def by blast
  have ch2: "chain (entry_nexts (ventries m2)) zs None" "map (entry_reader (ventries m2)) zs = map Some rs"
    using ch m2(3) by (simp_all add: same_links_def)
  have "vreader_get_id None m = Some (-1)" for m :: "'a emul_memory" by simp
  from print_loop_ok [where get_id = "\<lambda>r. vreader_get_id None" and g = "\<lambda>v. -1" and skip = "\<lambda>i. i \<noteq> -1"
      and show_line = "\<lambda>i. Inactive", OF m2(4) ch2 this]
  obtain m3 where m3: "inactive_loop (start zs None) m2 = Some (inactive_lines (map (\<lambda>r. the (reader_at m2 r)) rs), m3)"
      "reader_at m3 = reader_at m2" "same_links m2 m3"
      "system_at m3 (mset rs + (mset rs + HR)) HC HE (NE \<union> set zs) es evs l xs rs"
    unfolding reader_lines(2) inactive_loop_def by blast
  have "list_at m3 k zs rs" using m1(3) m2(3) m3(3) by (simp add: list_at_def same_links_def)
  moreover have "set zs \<inter> set xs = {}" "(NE \<union> set zs) - set zs = NE" using m1(4) by auto
  ultimately obtain m4 where m4: "vreader_list_delete (Some k) m3 = Some m4" "readers_kept m3 m4"
      "system_at m4 (mset rs + (mset rs + HR)) HC HE NE es evs l xs rs"
    using list_delete_ok [OF m3(4) _ m1(2)] by metis
  then have sys4: "system m4 (mset rs + (mset rs + HR)) HC HE NE evs rs" by (auto simp: system_def)
  have "\<forall>r \<in> set rs. reader_at m4 r = reader_at m r"
    using m4(2) system_reader_alive [OF sys4] m3(2) m2(2) kept by (auto simp: readers_kept_def)
  moreover have "vreader_list_get_first (Some k) m2 = Some (start zs None)"
    using first m2(3) by (simp add: same_links_def)
  moreover have vs2: "map (\<lambda>r. the (reader_at m2 r)) rs = map (\<lambda>r. the (reader_at m r)) rs" using vs m2(2) by simp
  ultimately show ?thesis using m1(1) first m2(1) m3(1) [unfolded vs2] m4(1) sys4
    by (intro exI [of _ m4]) (simp add: list_command_def del: vreader_list_get_first.simps)
qed

text \<open>C25: \<open>list\<close> prints the readers that have an identifier, in the order of the list, each with whether it has a card
  and its name; then, under the inactive readers, it prints all readers, the active ones too, since the
  second loop looks at a null pointer. Two references to every reader are never given back.\<close>

theorem list_command_shows:
  assumes "system (c_memory k) HR HC HE NE evs rs" and "vs = map (\<lambda>r. the (reader_at (c_memory k) r)) rs"
  shows "\<exists>k'. do_command em initialized (Some (''list'' @ rest)) cs k =
      Some (True, Active_Readers # active_lines vs @ Inactive_Readers # inactive_lines vs, cs, k') \<and>
    system (c_memory k') (mset rs + mset rs + HR) HC HE NE evs rs \<and> socket_to_send k' = socket_to_send k"
proof -
  obtain m' where m': "list_command (c_memory k) = Some (Active_Readers # active_lines vs @ Inactive_Readers # inactive_lines vs, m')"
      "system m' (mset rs + (mset rs + HR)) HC HE NE evs rs"
    using list_command_ok [OF assms(1)] assms(2) by blast
  then show ?thesis
    by (intro exI [of _ "k\<lparr>c_memory := m'\<rparr>"]) (simp add: do_command_def starts_with_def add.assoc)
qed

theorem list_command_shows_witness:
  "\<exists>(k :: bool vscclient) name k' cs. do_command (example_emulation True 1) True (Some ''list'') cs k =
     Some (True, [Active_Readers, Inactive_Readers, Inactive True (Some name)], cs, k')"
proof -
  obtain m :: "bool emul_memory" and r v vcard HR HC where m: "library_ok m HR HC {}
      [(VEVENT_READER_INSERT, Some r, None), (VEVENT_CARD_INSERT, Some r, rd_card v)] [r]"
      "reader_at m r = Some v" "rd_id v = -1" "inserted_card m r = Some vcard"
    using example_library by blast
  let ?k = "initial_client m []"
  have sys: "system (c_memory ?k) HR HC {} {} [(VEVENT_READER_INSERT, Some r, None), (VEVENT_CARD_INSERT, Some r, rd_card v)] [r]"
    using m(1) by (simp add: library_ok_def initial_client_def)
  have vs: "[v] = map (\<lambda>r. the (reader_at (c_memory ?k) r)) [r]" using m(2) by (simp add: initial_client_def)
  have "rd_card v \<noteq> None" using m(2,4) by (cases "rd_card v") (auto simp: inserted_card_at)
  then obtain k' where "do_command (example_emulation True 1) True (Some ''list'') \<lparr>default_reader_id = 0, verbose = 0\<rparr> ?k =
      Some (True, [Active_Readers, Inactive_Readers, Inactive True (Some (rd_name v))], \<lparr>default_reader_id = 0, verbose = 0\<rparr>, k')"
    using list_command_shows [OF sys vs, of "example_emulation True 1" True "[]" "\<lparr>default_reader_id = 0, verbose = 0\<rparr>"] m(3)
    by (auto simp: active_lines_def inactive_lines_def)
  then show ?thesis by blast
qed

section \<open>Leaving\<close>

definition goodbye :: "VReaderStruct \<Rightarrow> bytes" where
  "goodbye v = (if rd_id v = -1 then []
     else (if rd_card v \<noteq> None then message VSC_CardRemove [] else []) @ message VSC_ReaderRemove [])"

lemma exit_loop_ok:
  assumes "system_at (c_memory k) HR HC HE NE es evs l xs rs" and "chain (entry_nexts (ventries (c_memory k))) zs None"
    and "map (entry_reader (ventries (c_memory k))) zs = map Some qs"
  shows "\<exists>k'. exit_loop (start zs None) k = Some k' \<and>
    socket_to_send k' = socket_to_send k @ concat (map (\<lambda>r. goodbye (the (reader_at (c_memory k) r))) qs)"
  using assms
proof (induction zs arbitrary: k HR qs)
  case Nil
  then show ?case by (auto simp: exit_loop.simps)
next
  case (Cons z zs)
  then obtain r ps where qs: "qs = r # ps" by (cases qs) auto
  obtain m1 where m1: "vreader_list_get_reader (Some z) (c_memory k) = Some (Some r, m1)" "reader_at m1 = reader_at (c_memory k)"
      "same_links (c_memory k) m1" "system_at m1 (add_mset r HR) HC HE NE es evs l xs rs"
      "vreader_list_get_next (Some z) m1 = Some (start zs None)"
    using list_reader_step [OF Cons.prems(1,2)] Cons.prems(3) qs by auto
  have "system m1 (add_mset r HR) HC HE NE evs rs" using m1(4) by (auto simp: system_def)
  from card_is_present_ok [OF this, of r] obtain w where w: "vreaders m1 r = Some w"
      "vreader_card_is_present (Some r) m1 = Some (if rd_card w = None then VREADER_NO_CARD else VREADER_OK, m1)" by auto
  define v where "v = w\<lparr>rd_reference_count := 0\<rparr>"
  have v: "reader_at m1 r = Some v" "rd_card v = rd_card w" "rd_id v = rd_id w"
    using w(1) by (simp_all add: v_def reader_at_def)
  define k1 where "k1 = (if rd_id w = -1 then k\<lparr>c_memory := m1\<rparr> else send_msg VSC_ReaderRemove (rd_id w) []
    (if rd_card w = None then k\<lparr>c_memory := m1\<rparr> else send_msg VSC_CardRemove (rd_id w) [] (k\<lparr>c_memory := m1\<rparr>)))"
  have k1: "c_memory k1 = m1" "socket_to_send k1 = socket_to_send k @ goodbye v" using v by (simp_all add: k1_def goodbye_def)
  have nodes: "ventries m1 = ventries (c_memory k)" using m1(3) by (simp add: same_links_def)
  obtain k2 where k2: "exit_loop (start zs None) k1 = Some k2"
      "socket_to_send k2 = socket_to_send k1 @ concat (map (\<lambda>r. goodbye (the (reader_at m1 r))) ps)"
    using Cons.IH [of k1 "add_mset r HR" ps] m1(4) Cons.prems(2,3) qs nodes k1(1) by auto
  have "exit_loop (start (z # zs) None) k = Some k2"
    using m1(1,5) w k2(1)
    by (cases "rd_id w = -1"; cases "rd_card w"; subst exit_loop.simps)
      (simp_all add: k1_def Let_def del: vreader_list_get_next.simps vreader_list_get_reader.simps)
  then show ?case using k2(2) k1(2) m1(2) v(1) qs by (intro exI [of _ k2]) simp
qed

text \<open>C26: \<open>exit\<close> ends the program with the farewell unsent: the messages that the cards and the readers are
  removed, for each reader with an identifier, are put behind whatever still waits in the buffer, but only the main loop
  writes it to the socket, and the program has ended.\<close>

theorem exit_command_unsent:
  assumes "system (c_memory k) HR HC HE NE evs rs" and "vs = map (\<lambda>r. the (reader_at (c_memory k) r)) rs"
  shows "\<exists>k'. do_command em initialized (Some (''exit'' @ rest)) cs k = Some (False, [Active_Readers], cs, k') \<and>
    socket_to_send k' = socket_to_send k @ concat (map goodbye vs)"
proof -
  obtain es l xs where sys: "system_at (c_memory k) HR HC HE NE es evs l xs rs" using assms(1) by (auto simp: system_def)
  obtain j m1 zs where m1: "vreader_get_reader_list (c_memory k) = Some (j, m1)" "list_at m1 j zs rs"
      "readers_kept (c_memory k) m1" "system_at m1 HR HC HE (NE \<union> set zs) es evs l xs rs"
    using get_reader_list_ok [OF sys] by blast
  have "system m1 HR HC HE (NE \<union> set zs) evs rs" using m1(4) by (auto simp: system_def)
  from system_reader_alive [OF this] m1(3)
  have "map (\<lambda>r. goodbye (the (reader_at m1 r))) rs = map goodbye vs" by (auto simp: readers_kept_def assms(2))
  moreover have "system_at (c_memory (k\<lparr>c_memory := m1\<rparr>)) HR HC HE (NE \<union> set zs) es evs l xs rs"
      "chain (entry_nexts (ventries (c_memory (k\<lparr>c_memory := m1\<rparr>)))) zs None"
      "map (entry_reader (ventries (c_memory (k\<lparr>c_memory := m1\<rparr>)))) zs = map Some rs"
    using m1(2,4) by (auto simp: list_at_def entries_ok_def)
  from exit_loop_ok [OF this] obtain k' where "exit_loop (start zs None) (k\<lparr>c_memory := m1\<rparr>) = Some k'"
      "socket_to_send k' = socket_to_send k @ concat (map (\<lambda>r. goodbye (the (reader_at m1 r))) rs)" by auto
  moreover have "vreader_list_get_first (Some j) m1 = Some (start zs None)" using m1(2) by (simp add: list_at_def)
  ultimately show ?thesis using m1(1)
    by (intro exI [of _ k']) (simp add: do_command_def starts_with_def exit_command_def del: vreader_list_get_first.simps)
qed

theorem exit_command_unsent_witness:
  "\<exists>(k :: bool vscclient) k' cs. do_command (example_emulation True 1) True (Some ''exit'') cs k = Some (False, [Active_Readers], cs, k') \<and>
     socket_to_send k = [] \<and> socket_to_send k' = message VSC_CardRemove [] @ message VSC_ReaderRemove []"
proof -
  obtain k :: "bool vscclient" and r vcard where k: "session_at k 0 r vcard [r]" "socket_to_send k = []"
    using example_session by blast
  then obtain HR HC HE NE evs where sys: "system (c_memory k) HR HC HE NE evs [r]"
      "inserted_card (c_memory k) r = Some vcard" "find (\<lambda>r. map_option rd_id (vreaders (c_memory k) r) = Some 0) [r] = Some r"
    by (auto simp: session_at_def)
  then obtain v where v: "vreaders (c_memory k) r = Some v" "rd_id v = 0" "rd_card v \<noteq> None"
    by (auto simp: inserted_card_def split: if_splits bind_splits)
  then have "goodbye (the (reader_at (c_memory k) r)) = message VSC_CardRemove [] @ message VSC_ReaderRemove []"
    by (simp add: goodbye_def reader_at_def)
  then obtain k' where "do_command (example_emulation True 1) True (Some ''exit'') \<lparr>default_reader_id = 0, verbose = 0\<rparr> k =
      Some (False, [Active_Readers], \<lparr>default_reader_id = 0, verbose = 0\<rparr>, k')"
      "socket_to_send k' = message VSC_CardRemove [] @ message VSC_ReaderRemove []"
    using exit_command_unsent [OF sys(1) refl, of "example_emulation True 1" True "[]" "\<lparr>default_reader_id = 0, verbose = 0\<rparr>"] k(2) by auto
  then show ?thesis using k(2) by blast
qed

end
