(* ===== verification/Vsc_Program.thy ===== *)
theory Vsc_Program
  imports Vsc_Commands
begin

text \<open>
  The client of \<open>src/vscclient.c\<close> as a whole: what comes from the host, the event threads, the tokens of
  the emulation and the commands that are typed, one step after the other in any order. The locks of the
  program make each of these a step.
\<close>

section \<open>Steps\<close>

datatype 's client_step = Socket_Read bytes | Socket_Write nat | Socket_Prepare | Thread nat
  | Token "'s emulation" nat | Command "'s emulation" "string option"

record 's program =
  p_client :: "'s vscclient"
  p_commands :: command_state
  p_exited :: bool

text \<open>The socket is watched (again) for input. \<open>socket_prepare_sending\<close> does this when the program is idle after a
  message was sent; that it may do so at any time only adds to the orders of steps.\<close>

definition update_socket_watch :: "'s vscclient \<Rightarrow> 's vscclient" where
  "update_socket_watch k = k\<lparr>watching := True\<rparr>"

text \<open>The library is initialised, with \<open>ty\<close> and \<open>ps\<close> for the readers of new slots. \<open>main\<close> does nothing in the
  loop but to wait for its sources; the socket whose function returns false is not watched any more. When
  everything is sent it is watched anew, for input only.\<close>

fun program_step ::
  "'s nss \<Rightarrow> VCardEmulType \<Rightarrow> string option \<Rightarrow> bool \<Rightarrow> 's client_step \<Rightarrow> 's program \<Rightarrow> 's program option" where
  "program_step nss ty ps initialized (Socket_Read bs) p =
     (if \<not> watching (p_client p) then Some p
      else do {
        (ok, rest, k) \<leftarrow> do_socket_read nss bs (p_client p);
        Some (p\<lparr>p_client := k\<lparr>watching := ok\<rparr>\<rparr>)
      })"
| "program_step nss ty ps initialized (Socket_Write bw) p =
     Some (if \<not> watching (p_client p) then p else p\<lparr>p_client := do_socket_send bw (p_client p)\<rparr>)"
| "program_step nss ty ps initialized Socket_Prepare p = Some (p\<lparr>p_client := update_socket_watch (p_client p)\<rparr>)"
| "program_step nss ty ps initialized (Thread t) p = do {
     k \<leftarrow> event_thread nss t (p_client p);
     Some (p\<lparr>p_client := k\<rparr>)
   }"
| "program_step nss ty ps initialized (Token em slot) p = do {
     m \<leftarrow> slot_event em ty ps slot (c_memory (p_client p));
     Some (p\<lparr>p_client := (p_client p)\<lparr>c_memory := m\<rparr>\<rparr>)
   }"
| "program_step nss ty ps initialized (Command em line) p = do {
     (goes_on, out, cs, k) \<leftarrow> do_command em initialized line (p_commands p) (p_client p);
     Some (p\<lparr>p_client := k, p_commands := cs, p_exited := \<not> goes_on\<rparr>)
   }"

section \<open>A host that keeps to the protocol\<close>

text \<open>The state behind the read: the input that was wanted is stored.\<close>

definition after_read :: "bytes \<Rightarrow> 's vscclient \<Rightarrow> 's vscclient option" where
  "after_read bs k = (let k = start_header k in
     if to_read k > 0 then store_input (take (min (to_read k) (length bs)) bs) k else Some k)"

lemma do_socket_read_after:
  "do_socket_read nss bs k = do {
     k' \<leftarrow> after_read bs k;
     (ok, k') \<leftarrow> process_input nss k';
     Some (ok, drop (min (to_read (start_header k)) (length bs)) bs, k')
   }"
  by (simp add: do_socket_read_def after_read_def Let_def)

text \<open>No message is longer than the array, an APDU is for a reader the library has, and \<open>Init\<close> brings at most one word of
  capabilities.\<close>

definition polite_message :: "'s vscclient \<Rightarrow> bool" where
  "polite_message k \<longleftrightarrow>
     (if c_state k = STATE_HEADER then unat (mh_length (header_of (c_header k))) \<le> APDUBufSize
      else (mh_type (mhHeader k) = msg_type VSC_APDU \<longrightarrow>
          (case vreader_get_reader_by_id (mh_reader_id (mhHeader k)) (c_memory k) of Some (Some r, m) \<Rightarrow> True | _ \<Rightarrow> False)) \<and>
        (mh_type (mhHeader k) = msg_type VSC_Init \<longrightarrow> num_capabilities (mh_length (mhHeader k)) \<le> 1))"

definition polite :: "bytes \<Rightarrow> 's vscclient \<Rightarrow> bool" where
  "polite bs k \<longleftrightarrow> (case after_read bs k of None \<Rightarrow> True | Some k' \<Rightarrow> to_read k' = 0 \<longrightarrow> polite_message k')"

fun step_polite :: "'s client_step \<Rightarrow> 's program \<Rightarrow> bool" where
  "step_polite (Socket_Read bs) p \<longleftrightarrow> polite bs (p_client p)"
| "step_polite (Thread t) p \<longleftrightarrow> t < length (c_threads (p_client p))"
| "step_polite _ p \<longleftrightarrow> True"

section \<open>The buffers\<close>

definition buffers_ok :: "'s vscclient \<Rightarrow> bool" where
  "buffers_ok k \<longleftrightarrow> length (c_header k) = 12 \<and> length (pbSendBuffer k) = APDUBufSize \<and>
     (case c_state k of STATE_HEADER \<Rightarrow> to_read k \<noteq> 0 \<longrightarrow> c_buf k + to_read k \<le> 12
      | STATE_MESSAGE \<Rightarrow> c_buf k + to_read k \<le> APDUBufSize \<and> known_type (mhHeader k))"

lemma store_bytes_fits: "off + length bs \<le> length xs \<Longrightarrow> \<exists>ys. store_bytes off bs xs = Some ys \<and> length ys = length xs"
  by (simp add: store_bytes_def)

text \<open>What reading does not touch.\<close>

definition same_library :: "'s vscclient \<Rightarrow> 's vscclient \<Rightarrow> bool" where
  "same_library k k' \<longleftrightarrow> c_threads k' = c_threads k \<and> c_memory k' = c_memory k \<and> pending_reader k' = pending_reader k"

lemma after_read_ok:
  assumes "buffers_ok k"
  shows "\<exists>k'. after_read bs k = Some k' \<and> buffers_ok k' \<and> c_state k' = c_state k \<and> same_library k k'"
proof -
  have s: "buffers_ok (start_header k)" "c_state (start_header k) = c_state k" "same_library k (start_header k)"
    using assms by (auto simp: buffers_ok_def start_header_def same_library_def)
  show ?thesis
  proof (cases "to_read (start_header k) > 0")
    case False
    then show ?thesis using s by (simp add: after_read_def Let_def)
  next
    case True
    let ?k = "start_header k" and ?bs = "take (min (to_read (start_header k)) (length bs)) bs"
    have len: "length ?bs \<le> to_read ?k" by simp
    show ?thesis
    proof (cases "c_state k")
      case STATE_HEADER
      then have "c_buf ?k + length ?bs \<le> length (c_header ?k)" using s(1,2) True by (simp add: buffers_ok_def min_def)
      from store_bytes_fits [OF this] obtain ys where "store_bytes (c_buf ?k) ?bs (c_header ?k) = Some ys" "length ys = 12"
        using s(1) by (auto simp: buffers_ok_def)
      then show ?thesis using STATE_HEADER s True len
        by (simp add: after_read_def Let_def store_input_def buffers_ok_def same_library_def)
    next
      case STATE_MESSAGE
      then have "c_buf ?k + length ?bs \<le> length (pbSendBuffer ?k)" using s(1,2) by (simp add: buffers_ok_def min_def)
      from store_bytes_fits [OF this] obtain ys where "store_bytes (c_buf ?k) ?bs (pbSendBuffer ?k) = Some ys"
          "length ys = APDUBufSize"
        using s(1) by (auto simp: buffers_ok_def)
      then show ?thesis using STATE_MESSAGE s True len
        by (simp add: after_read_def Let_def store_input_def buffers_ok_def same_library_def)
    qed
  qed
qed


section \<open>Every step keeps the program in order\<close>

definition readers_private :: "'c memory \<Rightarrow> nat list \<Rightarrow> bool" where
  "readers_private m rs \<longleftrightarrow> (\<forall>r \<in> set rs. emul_at m r \<noteq> None)"

lemma readers_private_cong:
  "(\<And>r. r \<in> set rs \<Longrightarrow> reader_at m' r = reader_at m r) \<Longrightarrow> readers_private m rs \<Longrightarrow> readers_private m' rs"
  by (simp add: readers_private_def emul_at_def)

lemma readers_private_kept:
  assumes "readers_kept m m'" and "library_ok m' HR HC HE evs rs" and "readers_private m rs"
  shows "readers_private m' rs"
proof (rule readers_private_cong [OF _ assms(3)])
  fix r assume r: "r \<in> set rs"
  have "system m' HR HC HE {} evs rs" using assms(2) by (simp add: library_ok_def)
  from system_reader_alive [OF this r] show "reader_at m' r = reader_at m r"
    using assms(1) by (simp add: readers_kept_def)
qed

definition client_ok_at :: "'s vscclient \<Rightarrow> nat multiset \<Rightarrow> nat multiset \<Rightarrow>
    (VEventType \<times> nat option \<times> nat option) list \<Rightarrow> nat list \<Rightarrow> bool" where
  "client_ok_at k lost HC evs rs \<longleftrightarrow> client_at k lost HC evs rs \<and> readers_private (c_memory k) rs \<and> distinct rs"

definition client_safe :: "'s vscclient \<Rightarrow> bool" where
  "client_safe k \<longleftrightarrow> buffers_ok k \<and> (\<exists>lost HC evs rs. client_ok_at k lost HC evs rs)"

lemma by_id_library_ok:
  assumes "library_ok m HR HC HE evs rs"
  shows "\<exists>rd m'. vreader_get_reader_by_id i m = Some (rd, m') \<and> library_ok m' (mset_option rd + HR) HC HE evs rs \<and>
    reader_at m' = reader_at m \<and> set_option rd \<subseteq> set rs"
proof (cases "i = -1")
  case True
  then show ?thesis using assms by (simp add: vreader_get_reader_by_id_def)
next
  case False
  have sys: "system m HR HC HE {} evs rs" using assms by (simp add: library_ok_def)
  note eq = reader_by_id_eq [OF sys False]
  show ?thesis
  proof (cases "find (\<lambda>r. map_option rd_id (vreaders m r) = Some i) rs")
    case None
    then show ?thesis using eq assms by simp
  next
    case (Some r)
    then have r: "r \<in> set rs" by (auto simp: find_Some_iff)
    then have "r \<in># reader_refs m + HR" using listed_live [OF sys] by metis
    from reference_library_ok [OF assms this] show ?thesis using eq Some r by auto
  qed
qed

lemma free_library_option:
  assumes "library_ok m (mset_option rd + HR) HC HE evs rs"
  shows "\<exists>m'. vreader_free rd m = Some m' \<and> readers_kept m m' \<and> library_ok m' HR HC HE evs rs"
proof (cases rd)
  case None
  then show ?thesis using assms by (simp add: readers_kept_def)
next
  case (Some r)
  then have "library_ok m (add_mset r HR) HC HE evs rs" using assms by simp
  from free_library_ok [OF this] show ?thesis using Some by blast
qed

lemma handle_apdu_safe:
  assumes "client_ok_at k lost HC evs rs" and "nss_ok nss"
    and "vreader_get_reader_by_id (mh_reader_id (mhHeader k)) (c_memory k) = Some (Some r, m0)"
  shows "\<exists>k'. handle_apdu nss k = Some k' \<and> client_ok_at k' lost HC evs rs \<and> c_header k' = c_header k \<and>
    pbSendBuffer k' = pbSendBuffer k"
proof -
  let ?HR = "mset_option (pending_reader k) + lost"
  have lib: "library_ok (c_memory k) ?HR HC (set (held k)) evs rs" and dist: "distinct (held k)"
    and priv: "readers_private (c_memory k) rs"
    using assms(1) by (simp_all add: client_ok_at_def client_at_def)
  have m1: "library_ok m0 (add_mset r ?HR) HC (set (held k)) evs rs" "reader_at m0 = reader_at (c_memory k)" "r \<in> set rs"
    using by_id_library_ok [OF lib, of "mh_reader_id (mhHeader k)"] assms(3) by auto
  then have "system m0 (add_mset r ?HR) HC (set (held k)) {} evs rs" by (simp add: library_ok_def)
  then obtain v where v: "vreaders m0 r = Some v" using listed_live [OF _ m1(3)] by metis
  obtain st out m2 where m2: "memory_xfr_bytes nss (Some r) (take (unat (mh_length (mhHeader k))) (pbSendBuffer k)) APDUBufSize m0 =
        Some (st, out, m2)" "vreaders m2 = vreaders m0" "library_ok m2 (add_mset r ?HR) HC (set (held k)) evs rs"
    using with_card_library [OF m1(1) v xfr_good [OF assms(2), of "take (unat (mh_length (mhHeader k))) (pbSendBuffer k)" APDUBufSize]]
    unfolding memory_xfr_bytes_def by blast
  obtain m3 where m3: "vreader_free (Some r) m2 = Some m3" "readers_kept m2 m3" "library_ok m3 ?HR HC (set (held k)) evs rs"
    using free_library_ok [OF m2(3)] by blast
  have "reader_at m2 = reader_at (c_memory k)" using m1(2) m2(2) by (simp add: reader_at_def fun_eq_iff)
  then have "readers_private m2 rs" using priv by (simp add: readers_private_def emul_at_def)
  then have priv3: "readers_private m3 rs" by (rule readers_private_kept [OF m3(2,3)])
  obtain k' where k': "handle_apdu nss k = Some k'" "c_memory k' = m3" "c_threads k' = c_threads k" "pending_reader k' = pending_reader k"
      "c_header k' = c_header k" "pbSendBuffer k' = pbSendBuffer k"
    using assms(3) m2(1) m3(1) by (auto simp: handle_apdu_def send_msg_def Let_def)
  have "held k' = held k" using k'(3) by (simp add: held_def)
  then have "client_ok_at k' lost HC evs rs"
    using k'(2,4) m3(3) dist priv3 assms(1) by (simp add: client_ok_at_def client_at_def)
  then show ?thesis using k' by blast
qed

lemma handle_error_safe:
  assumes "client_ok_at k lost HC evs rs"
  shows "\<exists>k' lost'. handle_error k = Some k' \<and> client_ok_at k' lost' HC evs rs \<and> c_header k' = c_header k \<and>
    pbSendBuffer k' = pbSendBuffer k"
proof (cases "pending_reader k")
  case None
  then have "handle_error k = Some k" by (cases k) (auto simp: handle_error_def Let_def)
  then show ?thesis using assms by blast
next
  case (Some r)
  have lib: "library_ok (c_memory k) (add_mset r lost) HC (set (held k)) evs rs" and dist: "distinct (held k)"
    and priv: "readers_private (c_memory k) rs" "distinct rs"
    using assms Some by (simp_all add: client_ok_at_def client_at_def)
  consider "of_le32 (pbSendBuffer k) = VSC_SUCCESS" | "of_le32 (pbSendBuffer k) = VSC_CANNOT_ADD_MORE_READERS"
    | "of_le32 (pbSendBuffer k) \<noteq> VSC_SUCCESS" "of_le32 (pbSendBuffer k) \<noteq> VSC_CANNOT_ADD_MORE_READERS" by blast
  then show ?thesis
  proof cases
    case 1
    obtain m1 v where m1: "vreader_set_id (Some r) (mh_reader_id (mhHeader k)) (c_memory k) = Some (VREADER_OK, m1)"
        "reader_at (c_memory k) r = Some v" "reader_at m1 = (reader_at (c_memory k))(r \<mapsto> v\<lparr>rd_id := mh_reader_id (mhHeader k)\<rparr>)"
        "library_ok m1 (add_mset r lost) HC (set (held k)) evs rs"
      using set_id_library_ok [OF lib, of r "mh_reader_id (mhHeader k)"] by auto
    obtain m2 where m2: "vreader_free (Some r) m1 = Some m2" "readers_kept m1 m2" "library_ok m2 lost HC (set (held k)) evs rs"
      using free_library_ok [OF m1(4)] by blast
    have "readers_private m1 rs" using priv(1) m1(2,3) by (auto simp: readers_private_def emul_at_def)
    then have "readers_private m2 rs" by (rule readers_private_kept [OF m2(2,3)])
    then have "client_ok_at (k\<lparr>c_memory := m2, pending_reader := None\<rparr>) lost HC evs rs"
      using m2(3) dist priv(2) by (simp add: client_ok_at_def client_at_def held_def)
    moreover have "handle_error k = Some (k\<lparr>c_memory := m2, pending_reader := None\<rparr>)"
      using 1 Some m1(1) m2(1) by (simp add: handle_error_def del: vreader_set_id.simps vreader_free.simps)
    ultimately show ?thesis by auto
  next
    case 2
    then have "handle_error k = Some (k\<lparr>pending_reader := None\<rparr>)" by (simp add: handle_error_def)
    moreover have "client_ok_at (k\<lparr>pending_reader := None\<rparr>) (add_mset r lost) HC evs rs"
      using lib dist priv by (simp add: client_ok_at_def client_at_def held_def)
    ultimately show ?thesis by auto
  next
    case 3
    then have "handle_error k = Some k" by (simp add: handle_error_def Let_def)
    then show ?thesis using assms by blast
  qed
qed

lemma process_input_safe:
  assumes "client_ok_at k lost HC evs rs" and "buffers_ok k" and "nss_ok nss" and "to_read k = 0 \<longrightarrow> polite_message k"
  shows "\<exists>ok k' lost'. process_input nss k = Some (ok, k') \<and> client_ok_at k' lost' HC evs rs \<and> buffers_ok k'"
proof -
  consider "to_read k \<noteq> 0" | "to_read k = 0" "c_state k = STATE_HEADER" | "to_read k = 0" "c_state k = STATE_MESSAGE"
    by (cases "c_state k") auto
  then show ?thesis
  proof cases
    case 1
    then show ?thesis using assms(1,2) by (auto simp: process_input_def)
  next
    case 2
    obtain ok k' where k': "handle_header k = (ok, k')" by (cases "handle_header k")
    have "same_library k k'" using k' by (auto simp: handle_header_def Let_def same_library_def split: if_splits)
    then have "client_ok_at k' lost HC evs rs"
      using assms(1) client_at_cong [of k' k] by (simp add: client_ok_at_def same_library_def)
    moreover have "buffers_ok k'"
      using k' 2 assms(2,4) by (auto simp: handle_header_def Let_def buffers_ok_def polite_message_def known_type_def split: if_splits)
    ultimately show ?thesis using 2 k' by (simp add: process_input_def) blast
  next
    case 3
    then have pol: "polite_message k" and type: "known_type (mhHeader k)" and proc: "process_input nss k = handle_message nss k"
      using assms(2,4) by (simp_all add: buffers_ok_def process_input_def)
    have done_ok: "client_ok_at (k'\<lparr>c_state := STATE_HEADER\<rparr>) lost' HC evs rs \<and> buffers_ok (k'\<lparr>c_state := STATE_HEADER\<rparr>)"
      if "client_ok_at k' lost' HC evs rs" "c_header k' = c_header k" "pbSendBuffer k' = pbSendBuffer k" "to_read k' = 0" for k' lost'
      using that assms(2) client_at_cong [of "k'\<lparr>c_state := STATE_HEADER\<rparr>" k']
      by (simp add: client_ok_at_def buffers_ok_def)
    consider "mh_type (mhHeader k) = msg_type VSC_APDU" | "mh_type (mhHeader k) = msg_type VSC_Flush"
      | "mh_type (mhHeader k) = msg_type VSC_Error" | "mh_type (mhHeader k) = msg_type VSC_Init"
      using type by (auto simp: known_type_def)
    then show ?thesis
    proof cases
      case 1
      then obtain r m0 where "vreader_get_reader_by_id (mh_reader_id (mhHeader k)) (c_memory k) = Some (Some r, m0)"
        using pol 3(2) by (auto simp: polite_message_def split: option.splits prod.splits)
      from handle_apdu_safe [OF assms(1,3) this] obtain k' where k': "handle_apdu nss k = Some k'" "client_ok_at k' lost HC evs rs"
          "c_header k' = c_header k" "pbSendBuffer k' = pbSendBuffer k" by blast
      then show ?thesis
        using done_ok [OF k'(2-4)] handle_apdu_frame [OF k'(1)] 1 3(1) proc by (auto simp: handle_message_def)
    next
      case 2
      have "client_ok_at (send_msg VSC_FlushComplete (mh_reader_id (mhHeader k)) [] k) lost HC evs rs"
        using assms(1) client_at_cong [of "send_msg VSC_FlushComplete (mh_reader_id (mhHeader k)) [] k" k]
        by (simp add: client_ok_at_def)
      from done_ok [OF this] 2 3(1) proc show ?thesis by (auto simp: handle_message_def)
    next
      case 3
      obtain k' lost' where k': "handle_error k = Some k'" "client_ok_at k' lost' HC evs rs"
          "c_header k' = c_header k" "pbSendBuffer k' = pbSendBuffer k"
        using handle_error_safe [OF assms(1)] by blast
      then show ?thesis
        using done_ok [OF k'(2-4)] handle_error_frame [OF k'(1)] 3 \<open>to_read k = 0\<close> proc by (auto simp: handle_message_def)
    next
      case 4
      then have cap: "num_capabilities (mh_length (mhHeader k)) \<le> 1" using pol 3(2) by (simp add: polite_message_def)
      let ?k = "(send_msg VSC_ReaderRemove VSCARD_MINIMAL_READER_ID [] k)
        \<lparr>c_threads := c_threads k @ [\<lparr>th_wait = Running, th_atr = c_stack k\<rparr>]\<rparr>"
      have "held ?k = held k" by (simp add: held_def)
      then have "client_ok_at ?k lost HC evs rs" using assms(1) by (simp add: client_ok_at_def client_at_def)
      from done_ok [OF this] show ?thesis
        using 4 3(1) proc cap assms(1,2) by (auto simp: handle_message_def on_host_init_def Let_def)
    qed
  qed
qed

lemma socket_read_safe:
  assumes "client_safe k" and "nss_ok nss" and "polite bs k"
  shows "\<exists>ok rest k'. do_socket_read nss bs k = Some (ok, rest, k') \<and> client_safe k'"
proof -
  obtain lost HC evs rs where k: "buffers_ok k" "client_ok_at k lost HC evs rs" using assms(1) by (auto simp: client_safe_def)
  obtain k1 where k1: "after_read bs k = Some k1" "buffers_ok k1" "same_library k k1"
    using after_read_ok [OF k(1)] by blast
  have ok1: "client_ok_at k1 lost HC evs rs"
    using k(2) k1(3) client_at_cong [of k1 k] by (simp add: client_ok_at_def same_library_def)
  have "to_read k1 = 0 \<longrightarrow> polite_message k1" using assms(3) k1(1) by (simp add: polite_def)
  from process_input_safe [OF ok1 k1(2) assms(2) this]
  obtain ok k' lost' where k': "process_input nss k1 = Some (ok, k')" "client_ok_at k' lost' HC evs rs"
      "buffers_ok k'" by blast
  then have "do_socket_read nss bs k = Some (ok, drop (min (to_read (start_header k)) (length bs)) bs, k')"
    using k1(1) by (simp add: do_socket_read_after)
  then show ?thesis using k'(2,3) by (auto simp: client_safe_def)
qed

lemma thread_safe:
  assumes "client_safe k" and "t < length (c_threads k)"
  shows "\<exists>k'. event_thread nss t k = Some k' \<and> client_safe k'"
proof -
  obtain lost HC evs rs where k: "buffers_ok k" "client_ok_at k lost HC evs rs" using assms(1) by (auto simp: client_safe_def)
  then have at: "client_at k lost HC evs rs" "readers_private (c_memory k) rs" "distinct rs" by (simp_all add: client_ok_at_def)
  obtain evs' k' where k': "event_thread nss t k = Some k'" "client_at k' lost HC evs' rs"
      "readers_kept (c_memory k) (c_memory k')" "same_reading k k'"
    using event_thread_step_ok [OF at(1) assms(2), of nss] by (auto simp: stays_ok_def)
  have "readers_private (c_memory k') rs"
    using k'(2) readers_private_kept [OF k'(3) _ at(2)] by (auto simp: client_at_def)
  then have "client_ok_at k' lost HC evs' rs" using k'(2) at(3) by (simp add: client_ok_at_def)
  moreover have "buffers_ok k'" using k(1) k'(4) by (auto simp: buffers_ok_def same_reading_def split: read_state.splits)
  ultimately show ?thesis using k'(1) by (auto simp: client_safe_def)
qed

text \<open>A call of the library on the memory of the client, that keeps what the client relies on.\<close>

lemma library_call_safe:
  assumes "client_safe k"
    and "\<And>HR HC HE evs rs. library_ok (c_memory k) HR HC HE evs rs \<Longrightarrow> readers_private (c_memory k) rs \<Longrightarrow> distinct rs \<Longrightarrow>
      \<exists>evs' rs' leaked. library_ok m' (leaked + HR) HC HE evs' rs' \<and> readers_private m' rs' \<and> distinct rs'"
  shows "client_safe (k\<lparr>c_memory := m'\<rparr>)"
proof -
  obtain lost HC evs rs where k: "buffers_ok k" "client_at k lost HC evs rs" "readers_private (c_memory k) rs" "distinct rs"
    using assms(1) by (auto simp: client_safe_def client_ok_at_def)
  have lib: "library_ok (c_memory k) (mset_option (pending_reader k) + lost) HC (set (held k)) evs rs"
    using k(2) by (simp add: client_at_def)
  from assms(2) [OF lib k(3,4)] obtain evs' rs' leaked where
      "library_ok m' (leaked + (mset_option (pending_reader k) + lost)) HC (set (held k)) evs' rs'" "readers_private m' rs'" "distinct rs'"
    by blast
  then have "client_ok_at (k\<lparr>c_memory := m'\<rparr>) (leaked + lost) HC evs' rs'"
    using k(2) by (simp add: client_ok_at_def client_at_def held_def ac_simps)
  moreover have "buffers_ok (k\<lparr>c_memory := m'\<rparr>)" using k(1) by (cases "c_state k") (simp_all add: buffers_ok_def)
  ultimately show ?thesis by (auto simp: client_safe_def)
qed

lemma readers_private_seen: "readers_private m rs \<longleftrightarrow> (\<exists>ss. map (seen_at m) rs = map Some ss)"
proof -
  have "emul_at m r = None \<longleftrightarrow> seen_at m r = None" for r
    by (cases "reader_at m r") (simp_all add: emul_at_def seen_at_def)
  then have "readers_private m rs \<longleftrightarrow> (\<forall>r \<in> set rs. seen_at m r \<noteq> None)" by (simp add: readers_private_def)
  also have "\<dots> \<longleftrightarrow> (\<exists>ss. map (seen_at m) rs = map Some ss)"
    by (induction rs) (auto simp: Cons_eq_map_conv map_eq_Cons_conv)
  finally show ?thesis .
qed

lemma token_safe:
  assumes "client_safe k"
  shows "\<exists>m'. slot_event em ty ps slot (c_memory k) = Some m' \<and> client_safe (k\<lparr>c_memory := m'\<rparr>)"
proof -
  have step: "\<exists>m' evs' rs'. slot_event em ty ps slot m = Some m' \<and> library_ok m' HR HC HE (evs @ evs') rs' \<and>
      readers_private m' rs' \<and> distinct rs'"
    if lib: "library_ok m HR HC HE evs rs" and priv: "readers_private m rs" "distinct rs" for m HR HC HE evs rs
  proof -
    obtain ss where ss: "map (seen_at m) rs = map Some ss" using priv(1) readers_private_seen by blast
    have "system m HR HC HE {} evs rs" using lib by (simp add: library_ok_def)
    from slot_event_ok [OF this priv(2) ss, of em ty ps slot]
    obtain m' rs' evs' where m': "slot_event em ty ps slot m = Some m'" "system m' HR HC HE {} (evs @ evs') rs'" "distinct rs'"
        "map (seen_at m') rs' = map Some (fst (seen_event slot em ss))"
      by blast
    have "library_ok m' HR HC HE (evs @ evs') rs'"
      by (rule library_ok_kept [OF lib slot_event_kept [OF m'(1)] m'(2)])
    then show ?thesis using m'(1,3,4) readers_private_seen by blast
  qed
  obtain lost HC evs rs where k: "client_at k lost HC evs rs" "readers_private (c_memory k) rs" "distinct rs"
    using assms(1) by (auto simp: client_safe_def client_ok_at_def)
  then have "library_ok (c_memory k) (mset_option (pending_reader k) + lost) HC (set (held k)) evs rs" by (simp add: client_at_def)
  from step [OF this k(2,3)] obtain m' where m': "slot_event em ty ps slot (c_memory k) = Some m'" by blast
  have "client_safe (k\<lparr>c_memory := m'\<rparr>)"
  proof (rule library_call_safe [OF assms])
    fix HR HC HE evs rs
    assume "library_ok (c_memory k) HR HC HE evs rs" "readers_private (c_memory k) rs" "distinct rs"
    from step [OF this] m' obtain evs' rs' where "library_ok m' ({#} + HR) HC HE (evs @ evs') rs'" "readers_private m' rs'" "distinct rs'"
      by auto
    then show "\<exists>evs' rs' leaked. library_ok m' (leaked + HR) HC HE evs' rs' \<and> readers_private m' rs' \<and> distinct rs'"
      by blast
  qed
  then show ?thesis using m' by blast
qed

section \<open>Commands\<close>

lemma force_remove_total:
  assumes "system m HR HC HE NE evs rs" and "r \<in># HR"
  shows "\<exists>st m' evs'. vcard_emul_force_card_remove True (Some r) m = Some (st, m') \<and> system m' HR HC HE NE (evs @ evs') rs \<and>
    emul_at m' = emul_at m"
proof -
  obtain w where w: "vreaders m r = Some w" "vreader_card_is_present (Some r) m =
      Some (if rd_card w = None then VREADER_NO_CARD else VREADER_OK, m)"
    using card_is_present_ok [OF assms] by blast
  define v where "v = w\<lparr>rd_reference_count := 0\<rparr>"
  have v: "reader_at m r = Some v" "rd_card v = rd_card w" using w(1) by (simp_all add: v_def reader_at_def)
  show ?thesis
  proof (cases "rd_card w")
    case None
    then have "vcard_emul_force_card_remove True (Some r) m = Some (VCARD_EMUL_FAIL, m)"
      using w(2) by (simp add: vcard_emul_force_card_remove_def)
    then show ?thesis using assms(1) by (intro exI [of _ VCARD_EMUL_FAIL] exI [of _ m] exI [of _ "[]"]) simp
  next
    case (Some c)
    then have "rd_card v \<noteq> None" using v(2) by simp
    from force_remove_ok [OF assms v(1) this] obtain m' where m': "vcard_emul_force_card_remove True (Some r) m = Some (VCARD_EMUL_OK, m')"
        "reader_at m' = (reader_at m)(r \<mapsto> v\<lparr>rd_card := None\<rparr>)" "system m' HR HC HE NE (evs @ [(VEVENT_CARD_REMOVE, Some r, None)]) rs"
      by blast
    then have "emul_at m' = emul_at m" using v(1) by (simp add: emul_at_def fun_eq_iff)
    then show ?thesis using m' by fastforce
  qed
qed

lemma force_insert_total:
  assumes "system m HR HC HE NE evs rs" and "r \<in># HR" and "emul_at m r = Some e"
  shows "\<exists>st m' evs'. vcard_emul_force_card_insert em True (Some r) m = Some (st, m') \<and> system m' HR HC HE NE (evs @ evs') rs \<and>
    emul_at m' = emul_at m"
proof -
  obtain w where w: "vreaders m r = Some w" "vreader_card_is_present (Some r) m =
      Some (if rd_card w = None then VREADER_NO_CARD else VREADER_OK, m)"
    using card_is_present_ok [OF assms(1,2)] by blast
  define v where "v = w\<lparr>rd_reference_count := 0\<rparr>"
  have v: "reader_at m r = Some v" "rd_card v = rd_card w" "rd_private v = Some e"
    using w(1) assms(3) by (simp_all add: v_def reader_at_def emul_at_eq)
  have private_data: "vreader_get_private (Some r) m = Some (Some e)"
    using assms(3) by (auto simp: vreader_get_private_def emul_at_eq bind_eq_Some_conv)
  consider "rd_card w \<noteq> None" | c where "rd_card w = None" "em_saved_vcard e = Some c"
    | "rd_card w = None" "em_saved_vcard e = None" "\<not> PK11_IsPresent (e_tokens em) (em_slot e)"
    | "rd_card w = None" "em_saved_vcard e = None" "PK11_IsPresent (e_tokens em) (em_slot e)" by blast
  then show ?thesis
  proof cases
    case 1
    then have "vcard_emul_force_card_insert em True (Some r) m = Some (VCARD_EMUL_FAIL, m)"
      using w(2) by (auto simp: vcard_emul_force_card_insert_def)
    then show ?thesis using assms(1) by (intro exI [of _ VCARD_EMUL_FAIL] exI [of _ m] exI [of _ "[]"]) simp
  next
    case (2 c)
    then have "rd_card v = None" using v(2) by simp
    from force_insert_saved [OF assms(1,2) v(1) this v(3) 2(2)] obtain m' where m':
        "vcard_emul_force_card_insert em True (Some r) m = Some (VCARD_EMUL_OK, m')"
        "reader_at m' = (reader_at m)(r \<mapsto> v\<lparr>rd_card := Some c\<rparr>)" "system m' HR HC HE NE (evs @ [(VEVENT_CARD_INSERT, Some r, Some c)]) rs"
      by blast
    then have "emul_at m' = emul_at m" using v(1) by (simp add: emul_at_def fun_eq_iff)
    then show ?thesis using m' by fastforce
  next
    case 3
    then have "vcard_emul_force_card_insert em True (Some r) m = Some (VCARD_EMUL_FAIL, m)"
      using w(2) private_data by (simp add: vcard_emul_force_card_insert_def)
    then show ?thesis using assms(1) by (intro exI [of _ VCARD_EMUL_FAIL] exI [of _ m] exI [of _ "[]"]) simp
  next
    case 4
    obtain m' c where m': "insert_mirror em (Some r) m = Some m'"
        "reader_at m' = (reader_at m)(r := map_option (\<lambda>v. v\<lparr>rd_card := c\<rparr>) (reader_at m r))"
        "system m' HR HC HE NE (evs @ [(if c \<noteq> None then VEVENT_CARD_INSERT else VEVENT_CARD_REMOVE, Some r, c)]) rs"
      using insert_mirror_ok [OF assms] by blast
    obtain vcard m1 st m2 where "vcard_emul_mirror_card em (Some r) m = Some (vcard, m1)"
        "vreader_insert_card (Some r) vcard m1 = Some (st, m2)" "vcard_free vcard m2 = Some m'"
      using m'(1) by (auto simp: insert_mirror_def split: bind_splits)
    then have "vcard_emul_force_card_insert em True (Some r) m = Some (VCARD_EMUL_OK, m')"
      using 4 w(2) private_data by (simp add: vcard_emul_force_card_insert_def)
    moreover have "emul_at m' = emul_at m" using m'(2) v(1) by (simp add: emul_at_def fun_eq_iff)
    ultimately show ?thesis using m'(3) by fastforce
  qed
qed

lemma force_library_ok:
  assumes "library_ok m (add_mset r HR) HC HE evs rs" and "emul_at m r \<noteq> None"
  shows "\<exists>st m' evs'. vcard_emul_force_card_remove True (Some r) m = Some (st, m') \<and>
      library_ok m' (add_mset r HR) HC HE evs' rs \<and> emul_at m' = emul_at m"
    and "\<exists>st m' evs'. vcard_emul_force_card_insert em True (Some r) m = Some (st, m') \<and>
      library_ok m' (add_mset r HR) HC HE evs' rs \<and> emul_at m' = emul_at m"
proof -
  have sys: "system m (add_mset r HR) HC HE {} evs rs" "r \<in># add_mset r HR" using assms(1) by (simp_all add: library_ok_def)
  obtain e where e: "emul_at m r = Some e" using assms(2) by blast
  from force_remove_total [OF sys] obtain st m' evs' where m': "vcard_emul_force_card_remove True (Some r) m = Some (st, m')"
      "system m' (add_mset r HR) HC HE {} (evs @ evs') rs" "emul_at m' = emul_at m" by blast
  from library_ok_kept [OF assms(1) force_remove_kept [OF m'(1)] m'(2)] m'(1,3)
  show "\<exists>st m' evs'. vcard_emul_force_card_remove True (Some r) m = Some (st, m') \<and>
      library_ok m' (add_mset r HR) HC HE evs' rs \<and> emul_at m' = emul_at m" by blast
  from force_insert_total [OF sys e, of em] obtain st m' evs' where m': "vcard_emul_force_card_insert em True (Some r) m = Some (st, m')"
      "system m' (add_mset r HR) HC HE {} (evs @ evs') rs" "emul_at m' = emul_at m" by blast
  from library_ok_kept [OF assms(1) force_insert_kept [OF m'(1)] m'(2)] m'(1,3)
  show "\<exists>st m' evs'. vcard_emul_force_card_insert em True (Some r) m = Some (st, m') \<and>
      library_ok m' (add_mset r HR) HC HE evs' rs \<and> emul_at m' = emul_at m" by blast
qed

text \<open>A command that looks a reader up, does something with it, and releases it.\<close>

lemma held_name: "library_ok m (add_mset r HR) HC HE evs rs \<Longrightarrow> \<exists>name. vreader_get_name (Some r) m = Some name"
proof -
  assume "library_ok m (add_mset r HR) HC HE evs rs"
  then have "system m (add_mset r HR) HC HE {} evs rs" by (simp add: library_ok_def)
  from card_is_present_ok [OF this, of r] show ?thesis by auto
qed

lemma release_ok:
  assumes "library_ok m (add_mset r HR) HC HE evs rs" and "readers_private m rs"
  shows "\<exists>m'. vreader_free (Some r) m = Some m' \<and> library_ok m' HR HC HE evs rs \<and> readers_private m' rs"
proof -
  obtain m' where "vreader_free (Some r) m = Some m'" "readers_kept m m'" "library_ok m' HR HC HE evs rs"
    using free_library_ok [OF assms(1)] by blast
  then show ?thesis using readers_private_kept assms(2) by blast
qed

lemma force_command_ok:
  assumes "library_ok m HR HC HE evs rs" and "readers_private m rs"
    and "\<And>m r. library_ok m (add_mset r HR) HC HE evs rs \<Longrightarrow> emul_at m r \<noteq> None \<Longrightarrow>
      \<exists>st m' evs'. force (Some r) m = Some (st, m') \<and> library_ok m' (add_mset r HR) HC HE evs' rs \<and> emul_at m' = emul_at m"
  shows "\<exists>out rd m' m'' evs'. force_command force show_line i m = Some (out, rd, m') \<and> vreader_free rd m' = Some m'' \<and>
    library_ok m'' HR HC HE evs' rs \<and> readers_private m'' rs"
proof -
  obtain rd m1 where m1: "vreader_get_reader_by_id i m = Some (rd, m1)" "library_ok m1 (mset_option rd + HR) HC HE evs rs"
      "reader_at m1 = reader_at m" "set_option rd \<subseteq> set rs"
    using by_id_library_ok [OF assms(1)] by blast
  have priv: "readers_private m1 rs" using assms(2) m1(3) by (simp add: readers_private_def emul_at_def)
  show ?thesis
  proof (cases rd)
    case None
    then show ?thesis using m1(1,2) priv by (auto simp: force_command_def)
  next
    case (Some r)
    have lib1: "library_ok m1 (add_mset r HR) HC HE evs rs" using m1(2) Some by simp
    have "emul_at m1 r \<noteq> None" using priv m1(4) Some by (simp add: readers_private_def)
    from assms(3) [OF lib1 this] obtain st m2 evs' where m2: "force (Some r) m1 = Some (st, m2)"
        "library_ok m2 (add_mset r HR) HC HE evs' rs" "emul_at m2 = emul_at m1" by blast
    obtain name where "vreader_get_name (Some r) m2 = Some name" using held_name [OF m2(2)] by blast
    then have "force_command force show_line i m = Some ([show_line name st], Some r, m2)"
      using m1(1) m2(1) Some by (simp add: force_command_def del: vreader_get_name.simps)
    moreover have "readers_private m2 rs" using priv m2(3) by (simp add: readers_private_def)
    from release_ok [OF m2(2) this] obtain m3 where "vreader_free (Some r) m2 = Some m3" "library_ok m3 HR HC HE evs' rs"
        "readers_private m3 rs" by blast
    ultimately show ?thesis by blast
  qed
qed

lemma select_command_ok:
  assumes "library_ok m HR HC HE evs rs" and "readers_private m rs"
  shows "\<exists>out rd cs' m' m''. select_command i cs m = Some (out, rd, cs', m') \<and> vreader_free rd m' = Some m'' \<and>
    library_ok m'' HR HC HE evs rs \<and> readers_private m'' rs"
proof -
  obtain rd m1 where m1: "(if i \<noteq> VSCARD_UNDEFINED_READER_ID then vreader_get_reader_by_id i m else Some (None, m)) = Some (rd, m1)"
      "library_ok m1 (mset_option rd + HR) HC HE evs rs" "reader_at m1 = reader_at m"
    using by_id_library_ok [OF assms(1), of i] assms(1) by (cases "i = VSCARD_UNDEFINED_READER_ID") auto
  have priv: "readers_private m1 rs" using assms(2) m1(3) by (simp add: readers_private_def emul_at_def)
  show ?thesis
  proof (cases rd)
    case None
    then show ?thesis using m1 priv by (simp add: select_command_def)
  next
    case (Some r)
    have lib1: "library_ok m1 (add_mset r HR) HC HE evs rs" using m1(2) Some by simp
    obtain name where name: "vreader_get_name (Some r) m1 = Some name" using held_name [OF lib1] by blast
    obtain m2 where "vreader_free (Some r) m1 = Some m2" "library_ok m2 HR HC HE evs rs" "readers_private m2 rs"
      using release_ok [OF lib1 priv] by blast
    then show ?thesis using m1(1) Some name by (simp add: select_command_def del: vreader_get_name.simps)
  qed
qed

lemma print_loop_kept:
  assumes "print_loop get_id skip show_line e m = Some (out, m')"
  shows "library_kept m m'"
proof -
  have "library_kept m (snd (out, m'))"
    by (rule print_loop.raw_induct [OF _ assms, of "\<lambda>get_id skip show_line e m x. library_kept m (snd x)"])
      (auto simp: vreader_card_is_present_def vreader_get_card_def
        simp del: vreader_list_get_reader.simps vreader_get_name.simps vreader_list_get_next.simps
        dest!: kept split: bind_splits if_splits, (meson library_kept_trans)+)
  then show ?thesis by simp
qed

lemma list_command_kept: "list_command m = Some (out, m') \<Longrightarrow> library_kept m m'"
  by (auto simp: list_command_def active_loop_def inactive_loop_def simp del: vreader_list_get_first.simps
      dest!: kept print_loop_kept split: bind_splits) (meson library_kept_trans)+

lemma exit_command_total:
  assumes "system (c_memory k) HR HC HE NE evs rs"
  shows "exit_command k \<noteq> None"
proof -
  obtain es l xs where sys: "system_at (c_memory k) HR HC HE NE es evs l xs rs" using assms(1) by (auto simp: system_def)
  obtain j m1 zs where m1: "vreader_get_reader_list (c_memory k) = Some (j, m1)" "list_at m1 j zs rs"
      "system_at m1 HR HC HE (NE \<union> set zs) es evs l xs rs"
    using get_reader_list_ok [OF sys] by blast
  have "system_at (c_memory (k\<lparr>c_memory := m1\<rparr>)) HR HC HE (NE \<union> set zs) es evs l xs rs"
      "chain (entry_nexts (ventries (c_memory (k\<lparr>c_memory := m1\<rparr>)))) zs None"
      "map (entry_reader (ventries (c_memory (k\<lparr>c_memory := m1\<rparr>)))) zs = map Some rs"
    using m1(2,3) by (auto simp: list_at_def entries_ok_def)
  note whole = exit_loop_ok [OF this]
  have first: "vreader_list_get_first (Some j) m1 = Some (start zs None)" using m1(2) by (simp add: list_at_def)
  show ?thesis using whole m1(1) first
    by (auto simp: exit_command_def simp del: vreader_list_get_first.simps)
qed

lemma command_safe:
  assumes "client_safe k"
  shows "\<exists>goes_on out cs' k'. do_command em initialized line cs k = Some (goes_on, out, cs', k') \<and> (goes_on \<longrightarrow> client_safe k')"
proof -
  obtain lost HC evs rs where k: "client_at k lost HC evs rs" "readers_private (c_memory k) rs" "distinct rs"
    using assms(1) by (auto simp: client_safe_def client_ok_at_def)
  let ?HR = "mset_option (pending_reader k) + lost"
  have lib: "library_ok (c_memory k) ?HR HC (set (held k)) evs rs" using k(1) by (simp add: client_at_def)
  then have sys: "system (c_memory k) ?HR HC (set (held k)) {} evs rs" by (simp add: library_ok_def)
  have keep: "client_safe (k\<lparr>c_memory := m'\<rparr>)"
    if "library_ok m' (leaked + ?HR) HC (set (held k)) evs' rs" "readers_private m' rs" for m' leaked evs'
  proof -
    have "client_ok_at (k\<lparr>c_memory := m'\<rparr>) (leaked + lost) HC evs' rs"
      using that k by (simp add: client_ok_at_def client_at_def held_def ac_simps)
    moreover have "buffers_ok (k\<lparr>c_memory := m'\<rparr>)"
      using assms by (cases "c_state k") (simp_all add: client_safe_def buffers_ok_def)
    ultimately show ?thesis by (auto simp: client_safe_def)
  qed
  have insert: "\<exists>out rd m' m''. force_command (vcard_emul_force_card_insert em initialized) Inserted i (c_memory k) = Some (out, rd, m') \<and>
      vreader_free rd m' = Some m'' \<and> client_safe (k\<lparr>c_memory := m''\<rparr>)" for i
  proof -
    have "\<exists>st m' evs'. vcard_emul_force_card_insert em initialized (Some r) m = Some (st, m') \<and>
        library_ok m' (add_mset r ?HR) HC (set (held k)) evs' rs \<and> emul_at m' = emul_at m"
      if "library_ok m (add_mset r ?HR) HC (set (held k)) evs rs" "emul_at m r \<noteq> None" for m r
      using force_library_ok(2) [OF that, of em] that(1) by (cases initialized) (auto simp: vcard_emul_force_card_insert_def)
    from force_command_ok [OF lib k(2) this, where show_line = Inserted and i = i] keep [of _ "{#}"] show ?thesis by fastforce
  qed
  have remove: "\<exists>out rd m' m''. force_command (vcard_emul_force_card_remove initialized) Removed i (c_memory k) = Some (out, rd, m') \<and>
      vreader_free rd m' = Some m'' \<and> client_safe (k\<lparr>c_memory := m''\<rparr>)" for i
  proof -
    have "\<exists>st m' evs'. vcard_emul_force_card_remove initialized (Some r) m = Some (st, m') \<and>
        library_ok m' (add_mset r ?HR) HC (set (held k)) evs' rs \<and> emul_at m' = emul_at m"
      if "library_ok m (add_mset r ?HR) HC (set (held k)) evs rs" "emul_at m r \<noteq> None" for m r
      using force_library_ok(1) [OF that] that(1) by (cases initialized) (auto simp: vcard_emul_force_card_remove_def)
    from force_command_ok [OF lib k(2) this, where show_line = Removed and i = i] keep [of _ "{#}"] show ?thesis by fastforce
  qed
  have select: "\<exists>out rd cs' m' m''. select_command i cs (c_memory k) = Some (out, rd, cs', m') \<and> vreader_free rd m' = Some m'' \<and>
      client_safe (k\<lparr>c_memory := m''\<rparr>)" for i
    using select_command_ok [OF lib k(2), of i cs] keep [of _ "{#}"] by fastforce
  have list_cmd: "\<exists>out m'. list_command (c_memory k) = Some (out, m') \<and> client_safe (k\<lparr>c_memory := m'\<rparr>)"
  proof -
    obtain out m' where m': "list_command (c_memory k) = Some (out, m')" "\<forall>r \<in> set rs. reader_at m' r = reader_at (c_memory k) r"
        "system m' (mset rs + (mset rs + ?HR)) HC (set (held k)) {} evs rs"
      using list_command_ok [OF sys] by blast
    have "library_ok m' (mset rs + (mset rs + ?HR)) HC (set (held k)) evs rs"
      by (rule library_ok_kept [OF lib list_command_kept [OF m'(1)] m'(3)])
    then have "library_ok m' ((mset rs + mset rs) + ?HR) HC (set (held k)) evs rs" by (simp add: add.assoc)
    moreover have "readers_private m' rs" using m'(2) k(2) by (simp add: readers_private_def emul_at_def)
    ultimately show ?thesis using keep m'(1) by blast
  qed
  have exit_cmd: "exit_command k \<noteq> None" by (rule exit_command_total [OF sys])
  show ?thesis
  proof (cases line)
    case None
    then show ?thesis using assms
      by (intro exI [of _ True] exI [of _ "[]"] exI [of _ cs] exI [of _ k]) (simp add: do_command_def)
  next
    case (Some l)
    obtain e1 where "exit_command k = Some e1" using exit_cmd by blast
    moreover obtain o2 r2 m2 n2 where "force_command (vcard_emul_force_card_insert em initialized) Inserted
          (command_id 6 l (default_reader_id cs) (default_reader_id cs)) (c_memory k) = Some (o2, r2, m2)"
        "vreader_free r2 m2 = Some n2" "client_safe (k\<lparr>c_memory := n2\<rparr>)" using insert by blast
    moreover obtain o3 r3 m3 n3 where "force_command (vcard_emul_force_card_remove initialized) Removed
          (command_id 6 l (default_reader_id cs) (default_reader_id cs)) (c_memory k) = Some (o3, r3, m3)"
        "vreader_free r3 m3 = Some n3" "client_safe (k\<lparr>c_memory := n3\<rparr>)" using remove by blast
    moreover obtain o4 r4 c4 m4 n4 where "select_command (command_id 6 l VSCARD_UNDEFINED_READER_ID (default_reader_id cs)) cs
          (c_memory k) = Some (o4, r4, c4, m4)"
        "vreader_free r4 m4 = Some n4" "client_safe (k\<lparr>c_memory := n4\<rparr>)" using select by blast
    moreover obtain o5 m5 where "list_command (c_memory k) = Some (o5, m5)" "client_safe (k\<lparr>c_memory := m5\<rparr>)" using list_cmd by blast
    ultimately have "case do_command em initialized line cs k of None \<Rightarrow> False | Some (goes_on, out, cs', k') \<Rightarrow> goes_on \<longrightarrow> client_safe k'"
      using Some assms by (simp add: do_command_def Let_def)
    then show ?thesis by (auto split: option.splits)
  qed
qed

section \<open>The program from its start\<close>

lemma init_series_kept [kept]: "vcard_emul_init_series em r m = Some m' \<Longrightarrow> library_kept m m'"
  by (auto simp: vcard_emul_init_series_def Let_def dest!: kept split: bind_splits if_splits) (meson library_kept_trans)+

lemma insert_soft_card_kept [kept]: "insert_soft_card v r certs m = Some m' \<Longrightarrow> library_kept m m'"
  by (auto simp: insert_soft_card_def dest!: kept split: bind_splits) (meson library_kept_trans)+

lemma init_soft_reader_kept: "init_soft_reader v opt (m, b) = Some (m', b') \<Longrightarrow> library_kept m m'"
  by (auto simp: init_soft_reader_def Let_def dest!: kept split: bind_splits option.splits prod.splits if_splits)
    (meson library_kept_trans)+

lemma init_soft_readers_kept [kept]: "init_soft_readers v opts (m, b) = Some (m', b') \<Longrightarrow> library_kept m m'"
proof (induction opts arbitrary: m b)
  case (Cons opt opts)
  then obtain m1 b1 where "init_soft_reader v opt (m, b) = Some (m1, b1)" "init_soft_readers v opts (m1, b1) = Some (m', b')"
    by (auto split: bind_splits)
  then show ?case using Cons.IH init_soft_reader_kept library_kept_trans by blast
qed simp

lemma init_hw_reader_kept [kept]: "init_hw_reader v options slot m = Some m' \<Longrightarrow> library_kept m m'"
  by (auto simp: init_hw_reader_def dest!: kept split: bind_splits prod.splits if_splits) (meson library_kept_trans)+

lemma init_slots_kept [kept]: "init_slots v options slots m = Some m' \<Longrightarrow> library_kept m m'"
proof (induction v options slots m rule: init_slots.induct)
  case (3 v options slot slots m)
  show ?case
  proof (cases "usable_slot v (eo_use_hw options) slot")
    case True
    then obtain m1 where "init_hw_reader v options slot m = Some m1" "init_slots v options slots m1 = Some m'"
      using 3(3) by (auto split: bind_splits)
    then show ?thesis using 3(1) [OF True] init_hw_reader_kept library_kept_trans by blast
  qed (use 3 in simp)
qed simp_all

lemma init_modules_kept [kept]: "init_modules v options i modules m = Some (threads, m') \<Longrightarrow> library_kept m m'"
proof (induction v options i modules m arbitrary: threads rule: init_modules.induct)
  case (3 v options i slots modules m)
  then obtain m1 threads1 where "init_slots v options slots m = Some m1" "init_modules v options (i + 1) modules m1 = Some (threads1, m')"
    by (auto split: bind_splits)
  then show ?case using 3(1) init_slots_kept library_kept_trans by blast
qed simp_all

lemma init_kept:
  assumes "vcard_emul_init pcsc v options emul_start = Some (st, es)"
  shows "library_kept (vevent_queue_init (vreader_init empty_memory)) (es_memory es)"
  using assms by (auto simp: vcard_emul_init_def emul_start_def Let_def dest!: kept split: bind_splits if_splits)
    (meson library_kept_trans)+

lemma client_safe_watching: "client_safe k \<Longrightarrow> client_safe (k\<lparr>watching := ok\<rparr>)"
  by (cases "c_state k") (auto simp: client_safe_def buffers_ok_def client_ok_at_def client_at_def held_def)

lemma program_step_safe:
  assumes "client_safe (p_client p)" and "nss_ok nss" and "step_polite s p"
  shows "\<exists>p'. program_step nss ty ps initialized s p = Some p' \<and> (\<not> p_exited p' \<longrightarrow> client_safe (p_client p'))"
proof (cases s)
  case (Socket_Read bs)
  then have pol: "polite bs (p_client p)" using assms(3) by simp
  obtain ok rest k' where k': "do_socket_read nss bs (p_client p) = Some (ok, rest, k')" "client_safe k'"
    using socket_read_safe [OF assms(1,2) pol] by blast
  have "client_safe (k'\<lparr>watching := ok\<rparr>)" by (rule client_safe_watching [OF k'(2)])
  then show ?thesis using k'(1) Socket_Read assms(1) by (cases "watching (p_client p)") auto
next
  case (Socket_Write bw)
  have "client_safe (do_socket_send bw (p_client p))"
    using assms(1) by (cases "c_state (p_client p)")
      (auto simp: do_socket_send_def client_safe_def buffers_ok_def client_ok_at_def client_at_def held_def)
  then show ?thesis using Socket_Write assms(1) by simp
next
  case Socket_Prepare
  then show ?thesis using client_safe_watching [OF assms(1), of True] by (simp add: update_socket_watch_def)
next
  case (Thread t)
  then show ?thesis using thread_safe [OF assms(1), of t nss] assms(3) by auto
next
  case (Token em slot)
  then show ?thesis using token_safe [OF assms(1), of em ty ps slot] by auto
next
  case (Command em line)
  then show ?thesis using command_safe [OF assms(1), of em initialized line "p_commands p"] by fastforce
qed

inductive program_run ::
  "'s nss \<Rightarrow> VCardEmulType \<Rightarrow> string option \<Rightarrow> bool \<Rightarrow> 's program \<Rightarrow> 's program \<Rightarrow> bool" where
  run_start: "program_run nss ty ps initialized p p"
| run_step: "program_run nss ty ps initialized p q \<Longrightarrow> \<not> p_exited q \<Longrightarrow> step_polite s q \<Longrightarrow>
    program_step nss ty ps initialized s q = Some q' \<Longrightarrow> program_run nss ty ps initialized p q'"

lemma program_run_safe:
  "program_run nss ty ps initialized p q \<Longrightarrow> nss_ok nss \<Longrightarrow> client_safe (p_client p) \<Longrightarrow> \<not> p_exited q \<Longrightarrow> client_safe (p_client q)"
proof (induction rule: program_run.induct)
  case (run_step nss ty ps initialized p q s q')
  from program_step_safe [where ty = ty and ps = ps and initialized = initialized, OF run_step.IH [OF run_step.prems(1,2) run_step.hyps(2)] run_step.prems(1) run_step.hyps(3)]
  show ?case using run_step.hyps(4) run_step.prems(3) by fastforce
qed simp

definition start_program :: "'s vscclient \<Rightarrow> 's program" where
  "start_program k = \<lparr>p_client = k, p_commands = \<lparr>default_reader_id = 0, verbose = 0\<rparr>, p_exited = False\<rparr>"

lemma emul_init_seen:
  "\<exists>st es HR ss. vcard_emul_init pcsc v options emul_start = Some (st, es) \<and> readers_seen (es_memory es) HR ss"
proof -
  define opts where "opts = (case options of None \<Rightarrow> default_options | Some options \<Rightarrow> options)"
  have eq: "vcard_emul_init pcsc v options emul_start = vcard_emul_init pcsc v (Some opts) emul_start"
    by (simp add: vcard_emul_init_def opts_def)
  have fresh: "readers_seen (vevent_queue_init (vreader_init empty_memory)) {#} []"
    using start_system by (fastforce simp: readers_seen_def)
  consider "pcsc" "eo_use_hw opts \<noteq> USE_HW_NO" "eo_hw_card_type opts = VCARD_EMUL_PASSTHRU"
    | "\<not> (pcsc \<and> eo_use_hw opts \<noteq> USE_HW_NO \<and> eo_hw_card_type opts = VCARD_EMUL_PASSTHRU)"
      "\<not> NSS_InitContext v (case eo_nss_db opts of None \<Rightarrow> ''/etc/pki/nssdb'' | Some db \<Rightarrow> db)"
    | "NSS_InitContext v (case eo_nss_db opts of None \<Rightarrow> ''/etc/pki/nssdb'' | Some db \<Rightarrow> db)"
      "pcsc \<longrightarrow> eo_use_hw opts = USE_HW_NO \<or> eo_hw_card_type opts \<noteq> VCARD_EMUL_PASSTHRU" by blast
  then show ?thesis unfolding eq
  proof cases
    case 3
    then show "\<exists>st es HR ss. vcard_emul_init pcsc v (Some opts) emul_start = Some (st, es) \<and> readers_seen (es_memory es) HR ss"
      using vcard_emul_init_ok [OF 3] by blast
  qed (use fresh in \<open>auto simp: vcard_emul_init_def emul_start_def Let_def\<close>)
qed

lemma start_safe:
  "\<exists>es k. main_start pcsc v options stack = Some (es, k) \<and> client_safe k"
proof -
  obtain st and es :: "'a emul_state" and HR ss where es: "vcard_emul_init pcsc v options emul_start = Some (st, es)"
      "readers_seen (es_memory es) HR ss"
    using emul_init_seen by blast
  let ?m = "es_memory es" and ?fresh = "vevent_queue_init (vreader_init empty_memory) :: 'a emul_memory"
  obtain evs rs where sys: "system ?m HR {#} {} {} evs rs" "distinct rs" "map (seen_at ?m) rs = map Some ss"
    using es(2) unfolding readers_seen_def by blast
  have "vcards ?fresh = Map.empty" "vevents ?fresh = Map.empty"
    by (simp_all add: vevent_queue_init_def vreader_init_def vreader_list_init_def vreader_list_new_def empty_memory_def)
  then have "all_cards_ok ?fresh" "events_have_readers ?fresh"
    by (simp_all add: all_cards_ok_def events_have_readers_def event_at_def)
  then have "all_cards_ok ?m" "events_have_readers ?m" using init_kept [OF es(1)] by (simp_all add: library_kept_def)
  then have "library_ok ?m HR {#} {} evs rs" by (rule library_ok_new [OF sys(1)])
  let ?k = "send_msg VSC_Init 0 init_message (initial_client ?m stack)"
  have "client_at ?k HR {#} evs rs"
    using \<open>library_ok ?m HR {#} {} evs rs\<close> by (simp add: client_at_def held_def) (simp add: initial_client_def)
  moreover have "readers_private (c_memory ?k) rs" using sys(3) readers_private_seen by (simp add: initial_client_def) blast
  moreover have "buffers_ok ?k" by (simp add: buffers_ok_def) (simp add: initial_client_def)
  ultimately have "client_safe ?k" using sys(2) by (auto simp: client_safe_def client_ok_at_def)
  then show ?thesis using es(1) by (simp add: main_start_def)
qed



end
