(* ===== verification/Pcsc_Card.thy ===== *)
theory Pcsc_Card
  imports Card_System
begin

text \<open>
  A card that is passed through to a real one, \<open>src/capcsc.c\<close>: sending a command, resetting, connecting. PC/SC
  is the parameter \<open>pcsc\<close>, whose functions transform a state \<open>'h\<close>: that of the resource manager and of the real
  cards. The private pointer of such a card points to the structure of its reader, so that the
  private state of the card here is that structure with the state of PC/SC. The properties show that the
  guest talks to the real card.
\<close>

section \<open>PC/SC\<close>

text \<open>\<open>LONG\<close> and \<open>DWORD\<close> as on a 64-bit Linux. The values of the constants are those of the standard.\<close>

type_synonym LONG = "64 word"
type_synonym DWORD = "64 word"

abbreviation "SCARD_S_SUCCESS \<equiv> (0 :: LONG)"
abbreviation "SCARD_PROTOCOL_T0 \<equiv> (1 :: DWORD)"
abbreviation "SCARD_PROTOCOL_T1 \<equiv> (2 :: DWORD)"
abbreviation "SCARD_PROTOCOL_UNSET \<equiv> (-1 :: DWORD)"

text \<open>Each function returns its result, what it stored through its pointers, and the new state. A pointer that
  it might not store through on failure is an argument. \<open>SCardTransmit\<close> has the protocol for its header and returns
  the bytes it wrote, \<open>SCardListReaders\<close> what it wrote in its buffer. \<open>SCardGetStatusChange\<close> gets the names and states of
  an array, and returns the new states, with the answer to reset and its length for each.\<close>

record 'h pcsc =
  SCardConnect :: "string option \<Rightarrow> DWORD \<Rightarrow> 'h \<Rightarrow> LONG \<times> DWORD \<times> DWORD \<times> 'h"
  SCardTransmit :: "DWORD \<Rightarrow> DWORD \<Rightarrow> bytes \<Rightarrow> 'h \<Rightarrow> LONG \<times> bytes \<times> 'h"
  SCardReconnect :: "DWORD \<Rightarrow> DWORD \<Rightarrow> 'h \<Rightarrow> LONG \<times> DWORD \<times> 'h"
  SCardDisconnect :: "DWORD \<Rightarrow> 'h \<Rightarrow> LONG \<times> 'h"
  SCardEstablishContext :: "'h \<Rightarrow> LONG \<times> 'h"
  SCardListReaders :: "'h \<Rightarrow> LONG \<times> string \<times> 'h"
  SCardGetStatusChange :: "(string option \<times> DWORD) list \<Rightarrow> 'h \<Rightarrow> LONG \<times> (DWORD \<times> bytes \<times> DWORD) list \<times> 'h"

abbreviation MAX_ATR_SIZE :: nat where "MAX_ATR_SIZE \<equiv> 33"

record SCardReader =
  r_context :: bool
  r_index :: int
  r_name :: "string option"
  r_protocol :: DWORD
  r_state :: DWORD
  r_card :: DWORD
  r_atr :: bytes
  r_atrlen :: DWORD
  r_card_connected :: bool
  r_request_count :: DWORD

record 'h session =
  se_reader :: SCardReader
  se_world :: 'h

type_synonym 'h pcsc_card = "(unit, 'h session) VCard"

section \<open>Commands\<close>

definition connect_card :: "'h pcsc \<Rightarrow> 'h session \<Rightarrow> LONG \<times> 'h session" where
  "connect_card pcsc s =
     (let r = (se_reader s)\<lparr>r_protocol := SCARD_PROTOCOL_UNSET\<rparr> in
      case SCardConnect pcsc (r_name r) (r_card r) (se_world s) of (rc, handle, protocol, h) \<Rightarrow>
        let r = r\<lparr>r_card := handle, r_protocol := protocol\<rparr> in
        if rc \<noteq> SCARD_S_SUCCESS then (rc, \<lparr>se_reader = r, se_world = h\<rparr>)
        else (0, \<lparr>se_reader = r\<lparr>r_card_connected := True, r_request_count := 0\<rparr>, se_world = h\<rparr>))"

definition send_receive :: "'h pcsc \<Rightarrow> bytes \<Rightarrow> 'h session \<Rightarrow> LONG \<times> bytes \<times> 'h session" where
  "send_receive pcsc transmit s =
     (case (if r_card_connected (se_reader s) then (0, s) else connect_card pcsc s) of (rc, s) \<Rightarrow>
        if rc \<noteq> 0 then (rc, [], s)
        else (let r = se_reader s in
          if r_protocol r = SCARD_PROTOCOL_T0 \<or> r_protocol r = SCARD_PROTOCOL_T1
          then (case SCardTransmit pcsc (r_card r) (r_protocol r) transmit (se_world s) of (rc, receive, h) \<Rightarrow>
            (if rc \<noteq> SCARD_S_SUCCESS then rc else 0, receive, s\<lparr>se_world := h\<rparr>))
          else (1, [], s)))"

definition apdu_cb :: "'h pcsc \<Rightarrow> VCardAPDU \<Rightarrow> 'h pcsc_card \<Rightarrow> 'h pcsc_card handled" where
  "apdu_cb pcsc apdu vcard =
     (case send_receive pcsc (take (a_len apdu) (a_data apdu)) (vcard_private vcard) of (rc, outbuf, s) \<Rightarrow>
        let vcard = vcard\<lparr>vcard_private := s\<rparr>; outlen = length outbuf in
        if rc \<noteq> 0 \<or> outlen < 2 then Inr (VCARD_FAIL, None, vcard)
        else Inr (VCARD_DONE, Some (vcard_response_set_status_bytes
          (vcard_response_new_data (take (outlen - 2) outbuf)) (outbuf ! (outlen - 2)) (outbuf ! (outlen - 1))), vcard))"

section \<open>Resets\<close>

text \<open>Whatever \<open>SCardReconnect\<close> returns, \<open>vcard_reset\<close> does not look at the result.\<close>

definition reset_cb :: "'h pcsc \<Rightarrow> 'h pcsc_card \<Rightarrow> VCardStatus \<times> 'h pcsc_card" where
  "reset_cb pcsc vcard =
     (let s = vcard_private vcard; r = se_reader s; r' = r\<lparr>r_request_count := r_request_count r + 1\<rparr> in
      if r_request_count r = 0 then (VCARD_DONE, vcard\<lparr>vcard_private := s\<lparr>se_reader := r'\<rparr>\<rparr>)
      else (case SCardReconnect pcsc (r_card r') (r_protocol r') (se_world s) of (rc, protocol, h) \<Rightarrow>
        (if rc \<noteq> SCARD_S_SUCCESS then VCARD_FAIL else VCARD_DONE,
         vcard\<lparr>vcard_private := \<lparr>se_reader = r'\<lparr>r_protocol := protocol\<rparr>, se_world = h\<rparr>\<rparr>)))"

text \<open>The array of the caller must have room for all of it.\<close>

definition get_atr_cb :: "'h pcsc_card \<Rightarrow> nat \<Rightarrow> fault + bytes" where
  "get_atr_cb vcard room =
     (let r = se_reader (vcard_private vcard); n = unat (r_atrlen r) in
      if n \<le> length (r_atr r) \<and> n \<le> room then Inr (take n (r_atr r)) else Inl Out_Of_Bounds)"

section \<open>The card\<close>

definition CAPCSC_APPLET :: bytes where
  "CAPCSC_APPLET = map (of_nat \<circ> of_char) ''CAPCSC APPLET''"

text \<open>The card that \<open>insert_card\<close> makes. \<open>vcard_set_atr_func\<close> stores \<open>get_atr_cb\<close>; here it is called where
  \<open>vcard_get_atr\<close> would.\<close>

definition direct_card :: "'h session \<Rightarrow> 'h pcsc_card" where
  "direct_card s =
     vcard_add_applet (vcard_set_type (vcard_new s) VCARD_DIRECT)
       (vcard_new_applet Capcsc_apdu_cb (Some Capcsc_reset_cb) CAPCSC_APPLET)"

text \<open>The private pointer of a card means something else to the applets of a CAC card.\<close>

definition direct_process :: "'h pcsc \<Rightarrow> VCardProcessAPDU \<Rightarrow> VCardAPDU \<Rightarrow> 'h pcsc_card \<Rightarrow> 'h pcsc_card handled" where
  "direct_process pcsc f apdu vcard = (if f = Capcsc_apdu_cb then apdu_cb pcsc apdu vcard else Inl Union_Misread)"

definition direct_reset :: "'h pcsc \<Rightarrow> VCardResetApplet \<Rightarrow> nat \<Rightarrow> 'h pcsc_card \<Rightarrow> fault + 'h pcsc_card" where
  "direct_reset pcsc f channel vcard = (if f = Capcsc_reset_cb then Inr (snd (reset_cb pcsc vcard)) else Inl Union_Misread)"

text \<open>\<open>vreader_xfr_bytes\<close> and \<open>vreader_power_on\<close>, with this card in the reader. The emulation with NSS is
  not initialised: \<open>nss\<close> is only asked that.\<close>

definition passthrough_xfr_bytes ::
  "('h session) nss \<Rightarrow> 'h pcsc \<Rightarrow> 'h pcsc_card \<Rightarrow> bytes \<Rightarrow> nat \<Rightarrow> fault + VReaderStatus \<times> bytes \<times> 'h pcsc_card" where
  "passthrough_xfr_bytes nss pcsc vcard send_buf receive_len =
     (case (case vcard_apdu_new send_buf of
              Inl status \<Rightarrow> Inr (VCARD_DONE, Some (vcard_make_response status), vcard)
            | Inr apdu \<Rightarrow> vcard_process_apdu nss (direct_process pcsc) (direct_reset pcsc) vcard apdu) of
        Inl f \<Rightarrow> Inl f
      | Inr (card_status, response, vcard) \<Rightarrow>
          if card_status = VCARD_FAIL then Inr (VREADER_NO_CARD, [], vcard)
          else (case response of
              None \<Rightarrow> Inl Assertion_Failure
            | Some r \<Rightarrow>
                if card_status \<noteq> VCARD_DONE then Inl Assertion_Failure
                else Inr (VREADER_OK, take (min receive_len (b_total_len r)) (b_data r), vcard)))"

definition passthrough_power_on ::
  "('h session) nss \<Rightarrow> 'h pcsc \<Rightarrow> 'h pcsc_card \<Rightarrow> nat \<Rightarrow> fault + bytes \<times> 'h pcsc_card" where
  "passthrough_power_on nss pcsc vcard room =
     (case vcard_reset nss (direct_reset pcsc) vcard VCARD_POWER_ON of
        Inl f \<Rightarrow> Inl f
      | Inr vcard \<Rightarrow> (case get_atr_cb vcard room of Inl f \<Rightarrow> Inl f | Inr atr \<Rightarrow> Inr (atr, vcard)))"

section \<open>What the guest and the real card exchange\<close>

lemma direct_card_simps [simp]:
  "card_type (direct_card s) = VCARD_DIRECT" "vcard_private (direct_card s) = s"
  "applet_list (direct_card s) = [0]" "current_applet (direct_card s) = replicate MAX_CHANNEL (Some 0)"
  "vcard_buffer_response (direct_card s) = None"
  "process_apdu (applet_store (direct_card s) ! 0) = Capcsc_apdu_cb"
  "reset_applet (applet_store (direct_card s) ! 0) = Some Capcsc_reset_cb"
  "(direct_card s)\<lparr>vcard_private := s'\<rparr> = direct_card s'"
  "(direct_card s)\<lparr>current_applet := replicate MAX_CHANNEL (Some 0)\<rparr> = direct_card s"
  by (simp_all add: direct_card_def vcard_add_applet_def vcard_set_type_def vcard_new_def vcard_new_applet_def Let_def)

lemma answer_bytes:
  assumes "2 \<le> length out"
    and "r = vcard_response_set_status_bytes (vcard_response_new_data (take (length out - 2) out))
      (out ! (length out - 2)) (out ! (length out - 1))"
  shows "b_total_len r = length out" "b_data r = out"
proof -
  obtain d a b where "out = d @ [a, b]"
  proof -
    have "length (drop (length out - 2) out) = 2" using assms(1) by simp
    then obtain a b where "drop (length out - 2) out = [a, b]"
      by (cases "drop (length out - 2) out" rule: remdups_adj.cases) auto
    then show ?thesis using that append_take_drop_id [of "length out - 2" out] by metis
  qed
  then show "b_total_len r = length out" "b_data r = out"
    using assms(2)
    by (simp_all add: vcard_response_set_status_bytes_def vcard_response_new_data_def list_update_append nth_append)
qed

lemma process_direct:
  assumes "apdu_ok apdu" and "a_data apdu = raw"
  shows "vcard_process_apdu nss (direct_process pcsc) (direct_reset pcsc) (direct_card s) apdu =
    apdu_cb pcsc apdu (direct_card s)"
proof -
  note ok = apdu_okD [OF assms(1)]
  have "unat (a_type apdu) \<noteq> 2"
    using apdu_okD(7) [OF assms(1)] by (metis of_nat_numeral of_nat_unat ucast_id)
  moreover have "a_channel apdu < MAX_CHANNEL" using ok(1) by (simp add: MAX_CHANNEL_def)
  moreover have "apdu_cb pcsc apdu (direct_card s) = Inr (st, r, v) \<Longrightarrow> st \<noteq> VCARD_NEXT" for st r v
    by (auto simp: apdu_cb_def Let_def split: prod.splits if_splits)
  moreover have "\<exists>st r v. apdu_cb pcsc apdu (direct_card s) = Inr (st, r, v)"
    by (simp add: apdu_cb_def Let_def split: prod.splits)
  ultimately show ?thesis
    by (auto simp: vcard_process_apdu_def vcard_process_applet_apdu_def direct_process_def)
qed

lemma take_min: "take (min n (length xs)) xs = take n xs"
  by (simp add: min_def)

text \<open>A command that can be decoded goes to the real card as it is, and its answer to the guest.\<close>

lemma xfr_direct:
  assumes "vcard_apdu_new raw = Inr apdu"
  shows "passthrough_xfr_bytes nss pcsc (direct_card s) raw receive_len =
    (case send_receive pcsc raw s of (rc, out, s') \<Rightarrow>
       Inr (if rc \<noteq> 0 \<or> length out < 2 then (VREADER_NO_CARD, [], direct_card s')
            else (VREADER_OK, take receive_len out, direct_card s')))"
proof -
  have ok: "apdu_ok apdu" by (rule apdu_new_ok [OF assms])
  have raw: "a_data apdu = raw" "a_len apdu = length raw"
    using apdu_new_header [OF assms] apdu_okD(2) [OF ok] by simp_all
  obtain rc out s' where sr: "send_receive pcsc raw s = (rc, out, s')" by (metis prod_cases3)
  show ?thesis
  proof (cases "rc \<noteq> 0 \<or> length out < 2")
    case True
    then show ?thesis
      using assms sr raw process_direct [OF ok raw(1), of nss pcsc s]
      by (auto simp: passthrough_xfr_bytes_def apdu_cb_def Let_def)
  next
    case False
    then have "2 \<le> length out" by simp
    note answer = answer_bytes [OF this refl]
    show ?thesis
      using assms sr raw process_direct [OF ok raw(1), of nss pcsc s] False answer
      by (simp add: passthrough_xfr_bytes_def apdu_cb_def Let_def take_min)
  qed
qed

text \<open>Commands sent to the real card over an open connection, until one fails.\<close>

fun real_session :: "'h pcsc \<Rightarrow> DWORD \<Rightarrow> DWORD \<Rightarrow> bytes list \<Rightarrow> 'h \<Rightarrow> (bytes list \<times> 'h) option" where
  "real_session pcsc handle protocol [] h = Some ([], h)"
| "real_session pcsc handle protocol (c # cs) h =
     (case SCardTransmit pcsc handle protocol c h of (rc, out, h) \<Rightarrow>
        if rc \<noteq> SCARD_S_SUCCESS \<or> length out < 2 then None
        else map_option (\<lambda>(outs, h). (out # outs, h)) (real_session pcsc handle protocol cs h))"

fun guest_session ::
  "('h session) nss \<Rightarrow> 'h pcsc \<Rightarrow> nat \<Rightarrow> bytes list \<Rightarrow> 'h pcsc_card \<Rightarrow> fault + (VReaderStatus \<times> bytes) list \<times> 'h pcsc_card" where
  "guest_session nss pcsc receive_len [] vcard = Inr ([], vcard)"
| "guest_session nss pcsc receive_len (c # cs) vcard =
     (case passthrough_xfr_bytes nss pcsc vcard c receive_len of
        Inl f \<Rightarrow> Inl f
      | Inr (st, out, vcard) \<Rightarrow> map_sum id (\<lambda>(outs, vcard). ((st, out) # outs, vcard))
          (guest_session nss pcsc receive_len cs vcard))"

definition connected :: "'h session \<Rightarrow> bool" where
  "connected s \<longleftrightarrow> r_card_connected (se_reader s) \<and>
     (r_protocol (se_reader s) = SCARD_PROTOCOL_T0 \<or> r_protocol (se_reader s) = SCARD_PROTOCOL_T1)"

lemma send_connected:
  "connected s \<Longrightarrow> send_receive pcsc c s =
     (case SCardTransmit pcsc (r_card (se_reader s)) (r_protocol (se_reader s)) c (se_world s) of (rc, out, h) \<Rightarrow>
        (rc, out, s\<lparr>se_world := h\<rparr>))"
  by (auto simp: send_receive_def connected_def Let_def split: prod.splits)

lemma guest_session_real:
  assumes "connected s" and "\<forall>c \<in> set cs. \<exists>apdu. vcard_apdu_new c = Inr apdu"
    and "real_session pcsc (r_card (se_reader s)) (r_protocol (se_reader s)) cs (se_world s) = Some (outs, h)"
  shows "guest_session nss pcsc receive_len cs (direct_card s) =
    Inr (map (\<lambda>out. (VREADER_OK, take receive_len out)) outs, direct_card (s\<lparr>se_world := h\<rparr>))"
  using assms
proof (induction cs arbitrary: s outs)
  case Nil
  have "s\<lparr>se_world := se_world s\<rparr> = s" by (cases s) simp
  then show ?case using Nil by auto
next
  case (Cons c cs)
  let ?tr = "SCardTransmit pcsc (r_card (se_reader s)) (r_protocol (se_reader s)) c (se_world s)"
  obtain rc out h1 where tr: "?tr = (rc, out, h1)" by (metis prod_cases3)
  then obtain outs' where rest: "rc = 0" "\<not> length out < 2" "outs = out # outs'"
      "real_session pcsc (r_card (se_reader s)) (r_protocol (se_reader s)) cs h1 = Some (outs', h)"
    using Cons.prems(3) by (auto split: if_splits)
  let ?s = "s\<lparr>se_world := h1\<rparr>"
  have "guest_session nss pcsc receive_len cs (direct_card ?s) =
      Inr (map (\<lambda>out. (VREADER_OK, take receive_len out)) outs', direct_card (?s\<lparr>se_world := h\<rparr>))"
    using Cons.prems(1,2) rest(4) by (intro Cons.IH) (auto simp: connected_def)
  moreover obtain apdu where "vcard_apdu_new c = Inr apdu" using Cons.prems(2) by auto
  ultimately show ?case
    using xfr_direct [of c apdu nss pcsc s receive_len] send_connected [OF Cons.prems(1)] tr rest by simp
qed

section \<open>Resets of the real card\<close>

lemma reset_direct:
  assumes "\<not> nss_emul_init nss"
  shows "vcard_reset nss (direct_reset pcsc) (direct_card s) VCARD_POWER_ON = Inr (snd (reset_cb pcsc (direct_card s)))"
  using assms by (simp add: vcard_reset_def vcard_emul_reset_def vcard_emul_logout_def direct_reset_def Let_def)

text \<open>\<open>n\<close> reconnections of the real card, each with the protocol the one before left.\<close>

fun reconnections :: "'h pcsc \<Rightarrow> DWORD \<Rightarrow> nat \<Rightarrow> DWORD \<times> 'h \<Rightarrow> DWORD \<times> 'h" where
  "reconnections pcsc handle 0 ph = ph"
| "reconnections pcsc handle (Suc n) ph = snd (SCardReconnect pcsc handle (fst (reconnections pcsc handle n ph))
     (snd (reconnections pcsc handle n ph)))"

fun power_ons :: "('h session) nss \<Rightarrow> 'h pcsc \<Rightarrow> nat \<Rightarrow> nat \<Rightarrow> 'h pcsc_card \<Rightarrow> fault + bytes list \<times> 'h pcsc_card" where
  "power_ons nss pcsc room 0 vcard = Inr ([], vcard)"
| "power_ons nss pcsc room (Suc n) vcard =
     (case power_ons nss pcsc room n vcard of
        Inl f \<Rightarrow> Inl f
      | Inr (atrs, vcard) \<Rightarrow> map_sum id (\<lambda>(atr, vcard). (atrs @ [atr], vcard)) (passthrough_power_on nss pcsc vcard room))"

lemma power_ons_reconnect:
  assumes "\<not> nss_emul_init nss" and "r_request_count (se_reader s) = 0"
    and "unat (r_atrlen (se_reader s)) \<le> length (r_atr (se_reader s))" and "unat (r_atrlen (se_reader s)) \<le> room"
    and "n < 2 ^ 64"
  shows "\<exists>s'. power_ons nss pcsc room n (direct_card s) =
      Inr (replicate n (take (unat (r_atrlen (se_reader s))) (r_atr (se_reader s))), direct_card s') \<and>
    (r_protocol (se_reader s'), se_world s') =
      reconnections pcsc (r_card (se_reader s)) (n - 1) (r_protocol (se_reader s), se_world s) \<and>
    r_request_count (se_reader s') = of_nat n \<and> r_card (se_reader s') = r_card (se_reader s) \<and>
    r_atr (se_reader s') = r_atr (se_reader s) \<and> r_atrlen (se_reader s') = r_atrlen (se_reader s)"
  using assms(5)
proof (induction n)
  case 0
  then show ?case using assms(2) by (intro exI [of _ s]) simp
next
  case (Suc n)
  have "n < 2 ^ 64" using Suc.prems by simp
  from Suc.IH [OF this] obtain s' where s': "power_ons nss pcsc room n (direct_card s) =
        Inr (replicate n (take (unat (r_atrlen (se_reader s))) (r_atr (se_reader s))), direct_card s')"
      "(r_protocol (se_reader s'), se_world s') =
        reconnections pcsc (r_card (se_reader s)) (n - 1) (r_protocol (se_reader s), se_world s)"
      "r_request_count (se_reader s') = of_nat n" "r_card (se_reader s') = r_card (se_reader s)"
      "r_atr (se_reader s') = r_atr (se_reader s)" "r_atrlen (se_reader s') = r_atrlen (se_reader s)"
    by blast
  have count: "(of_nat n :: DWORD) = 0 \<longleftrightarrow> n = 0"
    using Suc.prems by (auto simp: word_of_nat_eq_0_iff dest: dvd_imp_le)
  have power: "passthrough_power_on nss pcsc (direct_card t) room =
      Inr (take (unat (r_atrlen (se_reader s))) (r_atr (se_reader s)), snd (reset_cb pcsc (direct_card t)))"
    if "r_atr (se_reader (vcard_private (snd (reset_cb pcsc (direct_card t))))) = r_atr (se_reader s)"
      "r_atrlen (se_reader (vcard_private (snd (reset_cb pcsc (direct_card t))))) = r_atrlen (se_reader s)" for t
    using that assms(3,4) by (simp add: passthrough_power_on_def reset_direct [OF assms(1)] get_atr_cb_def Let_def)
  show ?case
  proof (cases n)
    case 0
    let ?t = "s'\<lparr>se_reader := (se_reader s')\<lparr>r_request_count := 1\<rparr>\<rparr>"
    have "reset_cb pcsc (direct_card s') = (VCARD_DONE, direct_card ?t)"
      using 0 s'(3) by (simp add: reset_cb_def Let_def)
    then show ?thesis
      using 0 s' power [of s'] by (intro exI [of _ ?t]) simp
  next
    case (Suc k)
    obtain rc protocol h where rec: "SCardReconnect pcsc (r_card (se_reader s')) (r_protocol (se_reader s')) (se_world s') = (rc, protocol, h)"
      by (metis prod_cases3)
    let ?t = "\<lparr>se_reader = (se_reader s')\<lparr>r_request_count := r_request_count (se_reader s') + 1, r_protocol := protocol\<rparr>, se_world = h\<rparr>"
    have "snd (reset_cb pcsc (direct_card s')) = direct_card ?t"
      using Suc s'(3) count rec by (simp add: reset_cb_def Let_def)
    moreover have "reconnections pcsc (r_card (se_reader s)) n (r_protocol (se_reader s), se_world s) = (protocol, h)"
      using Suc s'(2,4) rec by (metis diff_Suc_1 fst_conv reconnections.simps(2) snd_conv)
    ultimately show ?thesis
      using Suc s' power [of s'] by (intro exI [of _ ?t]) (simp add: replicate_append_same)
  qed
qed

section \<open>Properties\<close>

text \<open>C14: The guest talks to the real card. Commands that can be decoded, sent to a reader with a passthrough card whose
  connection is open, are answered with exactly the bytes the real card answers when it is sent the same
  commands itself, cut off at the room the guest has, and leave the real card in the same state; the class of a
  command, its channel and the length it expects make no difference.\<close>

theorem passthrough_session:
  assumes "connected s" and "\<forall>c \<in> set cs. \<exists>apdu. vcard_apdu_new c = Inr apdu"
    and "real_session pcsc (r_card (se_reader s)) (r_protocol (se_reader s)) cs (se_world s) = Some (outs, h)"
  shows "guest_session nss pcsc receive_len cs (direct_card s) =
    Inr (map (\<lambda>out. (VREADER_OK, take receive_len out)) outs, direct_card (s\<lparr>se_world := h\<rparr>))"
  by (rule guest_session_real [OF assms])

text \<open>The state of this PC/SC is the number of calls; the card answers with that number. There are two readers; as time
  goes by, a card is inserted in the first and removed again.\<close>

definition demo_names :: string where
  "demo_names = ''A'' @ [CHR 0x00] @ ''B'' @ [CHR 0x00, CHR 0x00]"

definition demo_change :: "string option \<Rightarrow> nat \<Rightarrow> DWORD" where
  "demo_change name h = (if name \<noteq> Some ''A'' then 0 else if h < 4 then 0x22 else if h < 6 then 0 else 0x12)"

definition demo_pcsc :: "nat pcsc" where
  "demo_pcsc = \<lparr>SCardConnect = (\<lambda>name handle h. (0, 5, SCARD_PROTOCOL_T1, h + 1)),
     SCardTransmit = (\<lambda>handle protocol c h. (0, [of_nat h, 0x90, 0], h + 1)),
     SCardReconnect = (\<lambda>handle protocol h. (0, protocol, h + 1)), SCardDisconnect = (\<lambda>handle h. (0, h + 1)),
     SCardEstablishContext = (\<lambda>h. (0, h + 1)), SCardListReaders = (\<lambda>h. (0, demo_names, h + 1)),
     SCardGetStatusChange = (\<lambda>states h. (0, map (\<lambda>(name, st). (demo_change name h, [0x3b, 0], 2)) states, h + 1))\<rparr>"

definition demo_session :: "nat session" where
  "demo_session = \<lparr>se_reader = \<lparr>r_context = True, r_index = 0, r_name = Some ''A'', r_protocol = SCARD_PROTOCOL_T1,
     r_state = 0, r_card = 5, r_atr = replicate MAX_ATR_SIZE 0x3b, r_atrlen = 2, r_card_connected = True,
     r_request_count = 0\<rparr>, se_world = 7\<rparr>"

theorem passthrough_session_witness:
  "\<forall>nss. guest_session nss demo_pcsc 2 [[0, 0xa4, 4, 0], [0xff, 0xb0, 0, 0]] (direct_card demo_session) =
     Inr ([(VREADER_OK, [7, 0x90]), (VREADER_OK, [8, 0x90])], direct_card (demo_session\<lparr>se_world := 9\<rparr>))"
proof
  fix nss :: "(nat session) nss"
  have "\<exists>apdu. vcard_apdu_new [0, 0xa4, 4, 0] = Inr apdu" "\<exists>apdu. vcard_apdu_new [0xff, 0xb0, 0, 0] = Inr apdu"
    by (simp_all add: vcard_apdu_new_def vcard_apdu_set_class_def vcard_apdu_set_length_def raw_apdu_struct_def
        Let_def a_cla_def ah_Le_def)
  then show "guest_session nss demo_pcsc 2 [[0, 0xa4, 4, 0], [0xff, 0xb0, 0, 0]] (direct_card demo_session) =
     Inr ([(VREADER_OK, [7, 0x90]), (VREADER_OK, [8, 0x90])], direct_card (demo_session\<lparr>se_world := 9\<rparr>))"
    using passthrough_session [of demo_session "[[0, 0xa4, 4, 0], [0xff, 0xb0, 0, 0]]" demo_pcsc "[[7, 0x90, 0], [8, 0x90, 0]]" 9 nss 2]
    by (simp add: connected_def demo_session_def demo_pcsc_def)
qed

text \<open>C18: The first power-on behind a connection is for the guest only. Of \<open>n\<close> of them the real card is reset by all but
  the first, one after the other; each is answered with the answer to reset that was stored when the card was
  inserted, whatever the reset of the real card led to.\<close>

theorem passthrough_resets:
  assumes "\<not> nss_emul_init nss" and "r_request_count (se_reader s) = 0"
    and "unat (r_atrlen (se_reader s)) \<le> length (r_atr (se_reader s))" and "unat (r_atrlen (se_reader s)) \<le> room"
    and "n < 2 ^ 64"
  shows "\<exists>s'. power_ons nss pcsc room n (direct_card s) =
      Inr (replicate n (take (unat (r_atrlen (se_reader s))) (r_atr (se_reader s))), direct_card s') \<and>
    (r_protocol (se_reader s'), se_world s') =
      reconnections pcsc (r_card (se_reader s)) (n - 1) (r_protocol (se_reader s), se_world s)"
  using power_ons_reconnect [OF assms] by blast

theorem passthrough_resets_witness:
  "\<exists>nss s'. \<not> nss_emul_init nss \<and>
     power_ons nss demo_pcsc 40 3 (direct_card demo_session) = Inr (replicate 3 [0x3b, 0x3b], direct_card s') \<and> se_world s' = 9"
proof -
  obtain nss :: "(nat session) nss" where nss: "\<not> nss_emul_init nss"
    using that [of "undefined\<lparr>nss_emul_init := False\<rparr>"] by simp
  have atr: "take (unat (r_atrlen (se_reader demo_session))) (r_atr (se_reader demo_session)) = [0x3b, 0x3b]"
    by (simp add: demo_session_def) (simp add: numeral_2_eq_2)
  have "\<exists>s'. power_ons nss demo_pcsc 40 3 (direct_card demo_session) =
      Inr (replicate 3 (take (unat (r_atrlen (se_reader demo_session))) (r_atr (se_reader demo_session))), direct_card s') \<and>
    (r_protocol (se_reader s'), se_world s') = reconnections demo_pcsc (r_card (se_reader demo_session)) (3 - 1)
      (r_protocol (se_reader demo_session), se_world demo_session)"
    by (rule passthrough_resets [OF nss]) (simp_all add: demo_session_def)
  moreover have "reconnections demo_pcsc (r_card (se_reader demo_session)) (3 - 1)
      (r_protocol (se_reader demo_session), se_world demo_session) = (SCARD_PROTOCOL_T1, 9)"
    by (simp add: demo_session_def demo_pcsc_def numeral_2_eq_2)
  ultimately show ?thesis using nss unfolding atr by auto
qed

end
