(* ===== verification/Pcsc_Readers.thy ===== *)
theory Pcsc_Readers
  imports Pcsc_Card Emul_Readers
begin

text \<open>
  The readers of PC/SC, \<open>src/capcsc.c\<close>: an array of structures, one per reader, and a thread that follows
  readers and cards as they come and go. The library has a reader for each, whose private pointer points to
  an element of the array. The properties show that the thread keeps the two in step as long as no reader is
  unplugged, and what unplugging leads to.
\<close>

section \<open>The array of readers\<close>

abbreviation CAPCSC_MAX_READERS :: nat where "CAPCSC_MAX_READERS \<equiv> 16"

record PCSCContext =
  pc_readers :: "SCardReader list"
  pc_reader_count :: int
  pc_readers_changed :: nat

text \<open>The context, the memory of the library and the state of PC/SC. A card in the library stands for what
  its private pointer is: the element of its reader.\<close>

record 'h attachment =
  at_context :: PCSCContext
  at_memory :: "nat memory"
  at_world :: 'h

definition null_reader :: SCardReader where
  "null_reader = \<lparr>r_context = False, r_index = 0, r_name = None, r_protocol = 0, r_state = 0, r_card = 0,
     r_atr = replicate MAX_ATR_SIZE 0, r_atrlen = 0, r_card_connected = False, r_request_count = 0\<rparr>"

definition delete_reader :: "int \<Rightarrow> PCSCContext \<Rightarrow> PCSCContext option" where
  "delete_reader i pc =
     (if 0 \<le> i \<and> i < 16 \<and> pc_reader_count pc \<le> 16
      then (let k = nat i; rs = (pc_readers pc)[k := (pc_readers pc ! k)\<lparr>r_name := None\<rparr>]; last = nat (pc_reader_count pc - 1);
                rs = (if i < pc_reader_count pc - 1
                      then take k rs @ take (last - k) (drop (k + 1) rs) @ drop last rs else rs)
            in Some (pc\<lparr>pc_readers := rs, pc_reader_count := pc_reader_count pc - 1\<rparr>))
      else None)"

text \<open>The private pointer of a reader points to element \<open>em_slot\<close> of the array; the lock is reached through it.\<close>

definition delete_reader_cb :: "VReaderEmul option \<Rightarrow> PCSCContext \<Rightarrow> PCSCContext option" where
  "delete_reader_cb ve pc = do {
     ve \<leftarrow> ve;
     if em_slot ve < CAPCSC_MAX_READERS \<and> r_context (pc_readers pc ! em_slot ve)
     then delete_reader (r_index (pc_readers pc ! em_slot ve)) pc
     else None
   }"

definition reader_private :: "nat \<Rightarrow> VReaderEmul" where
  "reader_private i = vreader_emul_new i VCARD_EMUL_PASSTHRU None"

text \<open>A call of the library that may free the reader \<open>r\<close>, which then calls \<open>delete_reader_cb\<close>.\<close>

definition with_destructor ::
  "nat option \<Rightarrow> (nat memory \<Rightarrow> nat memory option) \<Rightarrow> 'h attachment \<Rightarrow> 'h attachment option" where
  "with_destructor r f at = do {
     m \<leftarrow> f (at_memory at);
     (case Option.bind r (vreaders (at_memory at)) of
        Some reader \<Rightarrow>
          if Option.bind r (vreaders m) = None
          then do { pc \<leftarrow> delete_reader_cb (rd_private reader) (at_context at); Some (at\<lparr>at_context := pc, at_memory := m\<rparr>) }
          else Some (at\<lparr>at_memory := m\<rparr>)
      | None \<Rightarrow> Some (at\<lparr>at_memory := m\<rparr>))
   }"

definition free_vreader :: "nat option \<Rightarrow> 'h attachment \<Rightarrow> 'h attachment option" where
  "free_vreader r = with_destructor r (vreader_free r)"

definition remove_vreader :: "nat option \<Rightarrow> 'h attachment \<Rightarrow> 'h attachment option" where
  "remove_vreader r = with_destructor r (\<lambda>m. map_option snd (vreader_remove_reader r m))"

definition new_reader :: "string \<Rightarrow> 'h attachment \<Rightarrow> (int \<times> 'h attachment) option" where
  "new_reader name at =
     (let pc = at_context at; n = pc_reader_count pc in
      if n \<ge> 16 - 1 then Some (1, at)
      else if n < 0 then None
      else do {
        let r = null_reader\<lparr>r_index := n, r_context := True, r_name := Some name\<rparr>;
        let pc = pc\<lparr>pc_readers := (pc_readers pc)[nat n := r], pc_reader_count := n + 1\<rparr>;
        let (vreader, m) = vreader_alloc name (Some (reader_private (nat n))) (at_memory at);
        (st, m) \<leftarrow> vreader_add_reader (Some vreader) m;
        at \<leftarrow> free_vreader (Some vreader) (at\<lparr>at_context := pc, at_memory := m\<rparr>);
        Some (0, at)
      })"

fun find_name :: "SCardReader list \<Rightarrow> string \<Rightarrow> nat \<Rightarrow> nat option option" where
  "find_name [] name i = Some None"
| "find_name (r # rs) name i = do { n \<leftarrow> r_name r; if n = name then Some (Some i) else find_name rs name (i + 1) }"

definition find_reader :: "PCSCContext \<Rightarrow> string \<Rightarrow> nat option option" where
  "find_reader pc name = find_name (take (nat (pc_reader_count pc)) (pc_readers pc)) name 0"

section \<open>Scanning for readers\<close>

text \<open>\<open>matches[i]++\<close>\<close>

definition add_match :: "int \<Rightarrow> nat list \<Rightarrow> nat list option" where
  "add_match i matches = (if 0 \<le> i \<and> i < 16 then Some (matches[nat i := matches ! nat i + 1]) else None)"

definition scan_name :: "string \<Rightarrow> nat list \<times> 'h attachment \<Rightarrow> (nat list \<times> 'h attachment) option" where
  "scan_name p = (\<lambda>(matches, at). do {
     i \<leftarrow> find_reader (at_context at) p;
     (case i of
        Some i \<Rightarrow> do { matches \<leftarrow> add_match (int i) matches; Some (matches, at) }
      | None \<Rightarrow> do {
          (rc, at) \<leftarrow> new_reader p at;
          if rc = 0
          then do { matches \<leftarrow> add_match (pc_reader_count (at_context at) - 1) matches; Some (matches, at) }
          else Some (matches, at)
        })
   })"

text \<open>The loop over the strings in the buffer, each of which must end in it.\<close>

function scan_names :: "string \<Rightarrow> nat list \<times> 'h attachment \<Rightarrow> (nat list \<times> 'h attachment) option" where
  "scan_names buf s =
     (if buf = [] then Some s
      else (let p = takeWhile (\<lambda>c. c \<noteq> CHR 0x00) buf in
        if length p = length buf then None
        else do {
          s \<leftarrow> (if p \<noteq> [] then scan_name p s else Some s);
          scan_names (drop (length p + 1) buf) s
        }))"
  by pat_completeness auto
termination
  by (relation "measure (\<lambda>(buf, s). length buf)") auto

declare scan_names.simps [simp del]

text \<open>The readers below \<open>i\<close> that were not found are removed, from the last to the first.\<close>

fun remove_gone :: "nat list \<Rightarrow> nat \<Rightarrow> 'h attachment \<Rightarrow> 'h attachment option" where
  "remove_gone matches 0 at = Some at"
| "remove_gone matches (Suc i) at = do {
     at \<leftarrow> (if matches ! i = 0
           then do {
             name \<leftarrow> r_name (pc_readers (at_context at) ! i);
             (reader, m) \<leftarrow> vreader_get_reader_by_name name (at_memory at);
             let at = at\<lparr>at_memory := m\<rparr>;
             if reader \<noteq> None then do { at \<leftarrow> free_vreader reader at; remove_vreader reader at } else Some at
           }
           else Some at);
     remove_gone matches i at
   }"

abbreviation "SCARD_E_NO_READERS_AVAILABLE \<equiv> (0x8010002e :: LONG)"
abbreviation "SCARD_E_UNKNOWN_READER \<equiv> (0x80100009 :: LONG)"
abbreviation "SCARD_E_TIMEOUT \<equiv> (0x8010000a :: LONG)"

definition scan_for_readers :: "'h pcsc \<Rightarrow> 'h attachment \<Rightarrow> (LONG \<times> 'h attachment) option" where
  "scan_for_readers pcsc at = do {
     let at = at\<lparr>at_context := (at_context at)\<lparr>pc_readers_changed := 1\<rparr>\<rparr>;
     let (rc, out, h) = SCardListReaders pcsc (at_world at);
     let at = at\<lparr>at_world := h\<rparr>;
     (matches, at) \<leftarrow> (if rc \<noteq> SCARD_S_SUCCESS then Some (replicate CAPCSC_MAX_READERS 0, at)
       else scan_names (out @ replicate (8192 - length out) (CHR 0x00)) (replicate CAPCSC_MAX_READERS 0, at));
     at \<leftarrow> remove_gone matches (nat (pc_reader_count (at_context at))) at;
     Some (if rc = SCARD_E_NO_READERS_AVAILABLE then 0 else rc, at)
   }"

section \<open>Cards\<close>

abbreviation "SCARD_STATE_CHANGED \<equiv> (0x2 :: DWORD)"
abbreviation "SCARD_STATE_EMPTY \<equiv> (0x10 :: DWORD)"
abbreviation "SCARD_STATE_PRESENT \<equiv> (0x20 :: DWORD)"

unbundle bit_operations_syntax

definition set_reader :: "nat \<Rightarrow> SCardReader \<Rightarrow> 'h attachment \<Rightarrow> 'h attachment" where
  "set_reader i r at = at\<lparr>at_context := (at_context at)\<lparr>pc_readers := (pc_readers (at_context at))[i := r]\<rparr>\<rparr>"

text \<open>Neither the card nor, if there is no connection, the reader is freed.\<close>

definition insert_card :: "'h pcsc \<Rightarrow> nat \<Rightarrow> bytes \<times> DWORD \<Rightarrow> 'h attachment \<Rightarrow> 'h attachment option" where
  "insert_card pcsc i = (\<lambda>(rgbAtr, cbAtr) at. do {
     let r = (pc_readers (at_context at) ! i)\<lparr>r_atr := take MAX_ATR_SIZE rgbAtr, r_atrlen := cbAtr\<rparr>;
     let at = set_reader i r at;
     name \<leftarrow> r_name r;
     (reader, m) \<leftarrow> vreader_get_reader_by_name name (at_memory at);
     let at = at\<lparr>at_memory := m\<rparr>;
     if reader = None then Some at
     else do {
       let (rc, s) = connect_card pcsc \<lparr>se_reader = r, se_world = at_world at\<rparr>;
       let at = (set_reader i (se_reader s) at)\<lparr>at_world := se_world s\<rparr>;
       if rc \<noteq> 0 then Some at
       else do {
         let (c, m) = vcard_alloc i (at_memory at);
         (st, m) \<leftarrow> vreader_insert_card reader (Some c) m;
         free_vreader reader (at\<lparr>at_memory := m\<rparr>)
       }
     }
   })"

definition remove_card :: "'h pcsc \<Rightarrow> nat \<Rightarrow> 'h attachment \<Rightarrow> 'h attachment option" where
  "remove_card pcsc i at = do {
     let r = (pc_readers (at_context at) ! i)\<lparr>r_atr := replicate MAX_ATR_SIZE 0, r_atrlen := 0\<rparr>;
     let (rc, h) = SCardDisconnect pcsc (r_card r) (at_world at);
     let at = (set_reader i (r\<lparr>r_card_connected := False\<rparr>) at)\<lparr>at_world := h\<rparr>;
     name \<leftarrow> r_name r;
     (reader, m) \<leftarrow> vreader_get_reader_by_name name (at_memory at);
     if reader = None then Some (at\<lparr>at_memory := m\<rparr>)
     else do {
       (st, m) \<leftarrow> vreader_insert_card reader None m;
       free_vreader reader (at\<lparr>at_memory := m\<rparr>)
     }
   }"

definition process_reader_change ::
  "'h pcsc \<Rightarrow> nat \<Rightarrow> DWORD \<times> bytes \<times> DWORD \<Rightarrow> 'h attachment \<Rightarrow> 'h attachment option" where
  "process_reader_change pcsc i = (\<lambda>(dwEventState, atr) at.
     if i \<ge> CAPCSC_MAX_READERS then None
     else do {
       at \<leftarrow> (if dwEventState AND SCARD_STATE_PRESENT \<noteq> 0 then insert_card pcsc i atr at
             else if dwEventState AND SCARD_STATE_EMPTY \<noteq> 0 then remove_card pcsc i at
             else Some at);
       Some (set_reader i ((pc_readers (at_context at) ! i)\<lparr>r_state := dwEventState AND NOT SCARD_STATE_CHANGED\<rparr>) at)
     })"

section \<open>The thread\<close>

definition prepare_reader_states :: "PCSCContext \<Rightarrow> (string option \<times> DWORD) list" where
  "prepare_reader_states pc =
     map (\<lambda>r. (r_name r, r_state r)) (take (nat (pc_reader_count pc)) (pc_readers pc)) @
     [(Some (CHR 0x5c # CHR 0x5c # ''?PnP?'' @ CHR 0x5c # ''Notification''), 0)]"

text \<open>The loop over the elements from \<open>i\<close> on.\<close>

fun process_changes ::
  "'h pcsc \<Rightarrow> nat \<Rightarrow> (DWORD \<times> bytes \<times> DWORD) list \<Rightarrow> 'h attachment \<Rightarrow> 'h attachment option" where
  "process_changes pcsc i [] at = Some at"
| "process_changes pcsc i (ev # evs) at = do {
     at \<leftarrow> (if fst ev AND SCARD_STATE_CHANGED \<noteq> 0
           then do {
             at \<leftarrow> process_reader_change pcsc i ev at;
             Some (at\<lparr>at_context := (at_context at)\<lparr>pc_readers_changed := pc_readers_changed (at_context at) + 1\<rparr>\<rparr>)
           }
           else Some at);
     process_changes pcsc (i + 1) evs at
   }"

text \<open>One turn of the loop of \<open>event_thread\<close>, with the array it passes to PC/SC. How long it waits is left out.\<close>

definition thread_turn ::
  "'h pcsc \<Rightarrow> (string option \<times> DWORD) list \<times> 'h attachment \<Rightarrow> ((string option \<times> DWORD) list \<times> 'h attachment) option" where
  "thread_turn pcsc = (\<lambda>(states, at). do {
     let states = (if pc_readers_changed (at_context at) \<noteq> 0 then prepare_reader_states (at_context at) else states);
     let at = at\<lparr>at_context := (at_context at)\<lparr>pc_readers_changed := 0\<rparr>\<rparr>;
     let (rc, events, h) = SCardGetStatusChange pcsc states (at_world at);
     let at = at\<lparr>at_world := h\<rparr>;
     if rc = SCARD_S_SUCCESS \<and> states = [] then None
     else if rc = SCARD_S_SUCCESS \<and> fst (events ! (length states - 1)) AND SCARD_STATE_CHANGED \<noteq> 0 \<or> rc = SCARD_E_UNKNOWN_READER
     then do { (rc, at) \<leftarrow> scan_for_readers pcsc at; Some (states, at) }
     else if rc \<noteq> SCARD_S_SUCCESS \<and> rc \<noteq> SCARD_E_TIMEOUT then Some (states, at)
     else do { at \<leftarrow> process_changes pcsc 0 (take (length states) events) at; Some (states, at) }
   })"

fun thread_turns ::
  "'h pcsc \<Rightarrow> nat \<Rightarrow> (string option \<times> DWORD) list \<times> 'h attachment \<Rightarrow> ((string option \<times> DWORD) list \<times> 'h attachment) option" where
  "thread_turns pcsc 0 s = Some s"
| "thread_turns pcsc (Suc n) s = do { s \<leftarrow> thread_turn pcsc s; thread_turns pcsc n s }"

text \<open>\<open>capcsc_init\<close> with the thread it starts, after \<open>n\<close> turns.\<close>

definition init_pcsc :: "'h pcsc \<Rightarrow> 'h attachment \<Rightarrow> LONG \<times> 'h attachment" where
  "init_pcsc pcsc at =
     (let pc = \<lparr>pc_readers = replicate CAPCSC_MAX_READERS null_reader, pc_reader_count = 0, pc_readers_changed = 0\<rparr> in
      case SCardEstablishContext pcsc (at_world at) of (rc, h) \<Rightarrow>
        (if rc \<noteq> SCARD_S_SUCCESS then rc else 0, at\<lparr>at_context := pc, at_world := h\<rparr>))"

definition run_capcsc ::
  "'h pcsc \<Rightarrow> nat \<Rightarrow> 'h attachment \<Rightarrow> (int \<times> 'h attachment) option" where
  "run_capcsc pcsc n at =
     (case init_pcsc pcsc at of (rc, at) \<Rightarrow>
        if rc \<noteq> 0 then Some (-1, at)
        else do {
          (rc, at) \<leftarrow> scan_for_readers pcsc at;
          (states, at) \<leftarrow> thread_turns pcsc n ([], at);
          Some (0, at)
        })"

section \<open>The array and the library in step\<close>

definition slots_ok :: "PCSCContext \<Rightarrow> string list \<Rightarrow> bool" where
  "slots_ok pc ns \<longleftrightarrow> length (pc_readers pc) = CAPCSC_MAX_READERS \<and> pc_reader_count pc = int (length ns) \<and>
     length ns \<le> 15 \<and> distinct ns \<and>
     (\<forall>i < length ns. r_name (pc_readers pc ! i) = Some (ns ! i) \<and> r_context (pc_readers pc ! i) \<and>
        r_index (pc_readers pc ! i) = int i)"

definition registered :: "nat memory \<Rightarrow> nat list \<Rightarrow> string list \<Rightarrow> bool" where
  "registered m rs ns \<longleftrightarrow> length rs = length ns \<and>
     (\<forall>i < length ns. map_option (\<lambda>v. (rd_name v, rd_private v)) (reader_at m (rs ! i)) = Some (ns ! i, Some (reader_private i)))"

text \<open>\<open>in_step at HR HC evs rs ns\<close>: the array holds the readers \<open>ns\<close>, and so does the library, which is in order, as
  the objects \<open>rs\<close>, with the events \<open>evs\<close> pending; callers hold the references \<open>HR\<close> to readers, \<open>HC\<close> to cards.\<close>

definition in_step :: "'h attachment \<Rightarrow> nat multiset \<Rightarrow> nat multiset \<Rightarrow> (VEventType \<times> nat option \<times> nat option) list \<Rightarrow>
    nat list \<Rightarrow> string list \<Rightarrow> bool" where
  "in_step at HR HC evs rs ns \<longleftrightarrow> slots_ok (at_context at) ns \<and> system (at_memory at) HR HC {} {} evs rs \<and>
     registered (at_memory at) rs ns"

lemma registered_cong:
  "registered m rs ns \<Longrightarrow> (\<And>r. r \<in> set rs \<Longrightarrow> map_option (\<lambda>v. (rd_name v, rd_private v)) (reader_at m' r) =
     map_option (\<lambda>v. (rd_name v, rd_private v)) (reader_at m r)) \<Longrightarrow> registered m' rs ns"
  by (simp add: registered_def)

lemma slots_ok_update:
  "slots_ok pc ns \<Longrightarrow> i < length ns \<Longrightarrow> r_name r = Some (ns ! i) \<Longrightarrow> r_context r \<Longrightarrow> r_index r = int i \<Longrightarrow>
   slots_ok (pc\<lparr>pc_readers := (pc_readers pc)[i := r]\<rparr>) ns"
  by (auto simp: slots_ok_def nth_list_update)

lemma find_name_correct:
  "map r_name rs = map Some ns \<Longrightarrow>
   find_name rs name k = Some (if name \<in> set ns then Some (k + length (takeWhile (\<lambda>n. n \<noteq> name) ns)) else None)"
proof (induction rs arbitrary: k ns)
  case (Cons r rs)
  then show ?case by (cases ns) auto
qed simp

lemma find_reader_correct:
  assumes "slots_ok pc ns"
  shows "find_reader pc name = Some (if name \<in> set ns then Some (length (takeWhile (\<lambda>n. n \<noteq> name) ns)) else None)"
proof -
  have "map r_name (take (length ns) (pc_readers pc)) = map Some ns"
    using assms by (intro nth_equalityI) (auto simp: slots_ok_def)
  from find_name_correct [OF this, of name 0] show ?thesis
    using assms by (simp add: find_reader_def slots_ok_def)
qed

lemma lookup_registered:
  assumes "system m HR HC HE NE evs rs" and "registered m rs ns" and "distinct ns" and "i < length ns"
  shows "\<exists>m'. vreader_get_reader_by_name (ns ! i) m = Some (Some (rs ! i), m') \<and> reader_at m' = reader_at m \<and>
    system m' (add_mset (rs ! i) HR) HC HE NE evs rs"
proof -
  have names: "\<exists>v. reader_at m (rs ! j) = Some v \<and> rd_name v = ns ! j" if "j < length ns" for j
    using assms(2) that by (auto simp: registered_def)
  have "find (\<lambda>r. rd_name (the (reader_at m r)) = ns ! i) rs = Some (rs ! i)"
    unfolding find_Some_iff
  proof (intro exI [of _ i] conjI allI impI)
    show "i < length rs" "rd_name (the (reader_at m (rs ! i))) = ns ! i"
      using assms(2,4) names [OF assms(4)] by (auto simp: registered_def)
    show "rd_name (the (reader_at m (rs ! j))) \<noteq> ns ! i" if "j < i" for j
      using names [of j] that assms(3,4) by (auto simp: nth_eq_iff_index_eq)
  qed simp
  with lookup_ok [OF assms(1), of "\<lambda>reader. Some (rd_name reader = ns ! i)"] show ?thesis
    by (auto simp: vreader_get_reader_by_name_def)
qed

lemma free_listed:
  assumes "system (at_memory at) (add_mset r HR) HC HE NE evs rs" and "r \<in> set rs"
  shows "\<exists>m. free_vreader (Some r) at = Some (at\<lparr>at_memory := m\<rparr>) \<and> system m HR HC HE NE evs rs \<and>
    (\<forall>r \<in> set rs. reader_at m r = reader_at (at_memory at) r)"
proof -
  obtain m where m: "vreader_free (Some r) (at_memory at) = Some m" "readers_kept (at_memory at) m" "system m HR HC HE NE evs rs"
    using free_reader_ok [OF assms(1)] by blast
  have "vreaders m r \<noteq> None" using system_reader_alive [OF m(3) assms(2)] .
  then have "free_vreader (Some r) at = Some (at\<lparr>at_memory := m\<rparr>)"
    using m(1) by (auto simp: free_vreader_def with_destructor_def simp del: vreader_free.simps split: option.split)
  then show ?thesis using m system_reader_alive [OF m(3)] by (auto simp: readers_kept_def)
qed

definition same_elsewhere :: "'h attachment \<Rightarrow> 'h attachment \<Rightarrow> bool" where
  "same_elsewhere at at' \<longleftrightarrow> at_world at' = at_world at \<and>
     pc_readers_changed (at_context at') = pc_readers_changed (at_context at)"

lemma same_elsewhere_refl [simp]: "same_elsewhere at at"
  by (simp add: same_elsewhere_def)

lemma same_elsewhere_trans: "same_elsewhere at at' \<Longrightarrow> same_elsewhere at' at'' \<Longrightarrow> same_elsewhere at at''"
  by (simp add: same_elsewhere_def)

lemma new_reader_step:
  assumes "in_step at HR HC evs rs ns" and "name \<notin> set ns" and "length ns < 15"
  shows "\<exists>at' r. new_reader name at = Some (0, at') \<and> same_elsewhere at at' \<and>
    in_step at' HR HC (evs @ [(VEVENT_READER_INSERT, Some r, None)]) (rs @ [r]) (ns @ [name]) \<and>
    (\<forall>r \<in> set rs. reader_at (at_memory at') r = reader_at (at_memory at) r)"
proof -
  let ?pc = "at_context at" and ?n = "length ns"
  have s: "slots_ok ?pc ns" "system (at_memory at) HR HC {} {} evs rs" "registered (at_memory at) rs ns"
    using assms(1) by (auto simp: in_step_def)
  have "em_saved_vcard (reader_private ?n) = None" by (simp add: reader_private_def vreader_emul_new_def)
  from new_listed_reader_ok [OF s(2) this, of name]
  obtain p m1 m2 where p: "vreader_alloc name (Some (reader_private ?n)) (at_memory at) = (p, m1)"
      "vreader_add_reader (Some p) m1 = Some (VREADER_OK, m2)" "p \<notin> set rs"
      "reader_at m2 = (reader_at (at_memory at))(p \<mapsto> \<lparr>rd_reference_count = 0, rd_card = None, rd_name = name, rd_id = -1,
        rd_private = Some (reader_private ?n)\<rparr>)"
      "system m2 (add_mset p HR) HC {} {} (evs @ [(VEVENT_READER_INSERT, Some p, None)]) (rs @ [p])"
    by blast
  let ?r = "null_reader\<lparr>r_index := int ?n, r_context := True, r_name := Some name\<rparr>"
  let ?pc' = "?pc\<lparr>pc_readers := (pc_readers ?pc)[?n := ?r], pc_reader_count := int ?n + 1\<rparr>"
  let ?at = "at\<lparr>at_context := ?pc', at_memory := m2\<rparr>"
  obtain m3 where m3: "free_vreader (Some p) ?at = Some (?at\<lparr>at_memory := m3\<rparr>)"
      "system m3 HR HC {} {} (evs @ [(VEVENT_READER_INSERT, Some p, None)]) (rs @ [p])"
      "\<forall>r \<in> set (rs @ [p]). reader_at m3 r = reader_at m2 r"
    using free_listed [of ?at p HR HC "{}" "{}" _ "rs @ [p]"] p(5) by auto
  have "new_reader name at = Some (0, ?at\<lparr>at_memory := m3\<rparr>)"
    using s(1) p(1,2) m3(1) assms(3) by (simp add: new_reader_def slots_ok_def Let_def)
  moreover have "slots_ok ?pc' (ns @ [name])"
    using s(1) assms(2,3) by (auto simp: slots_ok_def nth_append nth_list_update)
  moreover have "registered m3 rs ns" by (rule registered_cong [OF s(3)]) (use p(3,4) m3(3) in auto)
  then have "registered m3 (rs @ [p]) (ns @ [name])"
    using p(4) m3(3) by (auto simp: registered_def nth_append less_Suc_eq)
  ultimately show ?thesis
    using m3(2,3) p(3,4) by (intro exI [of _ "?at\<lparr>at_memory := m3\<rparr>"] exI [of _ p]) (auto simp: in_step_def same_elsewhere_def)
qed

section \<open>Scanning while no reader is unplugged\<close>

definition add_name :: "string list \<Rightarrow> string \<Rightarrow> string list" where
  "add_name ns name = (if name \<in> set ns \<or> 15 \<le> length ns then ns else ns @ [name])"

definition reader_added :: "nat \<Rightarrow> VEventType \<times> nat option \<times> nat option" where
  "reader_added r = (VEVENT_READER_INSERT, Some r, None)"

definition multi_string :: "string list \<Rightarrow> string" where
  "multi_string names = concat (map (\<lambda>name. name @ [CHR 0x00]) names)"

definition proper_names :: "string list \<Rightarrow> bool" where
  "proper_names names \<longleftrightarrow> (\<forall>name \<in> set names. name \<noteq> [] \<and> CHR 0x00 \<notin> set name)"

lemma scan_names_one:
  assumes "CHR 0x00 \<notin> set p"
  shows "scan_names (p @ CHR 0x00 # rest) s =
    do { s \<leftarrow> (if p \<noteq> [] then scan_name p s else Some s); scan_names rest s }"
proof -
  have "takeWhile (\<lambda>c. c \<noteq> CHR 0x00) (p @ CHR 0x00 # rest) = p"
    using assms by (subst takeWhile_append2) auto
  then show ?thesis by (subst scan_names.simps) (simp add: Let_def)
qed

lemma scan_names_end: "scan_names (replicate k (CHR 0x00)) s = Some s"
proof (induction k)
  case 0
  then show ?case by (simp add: scan_names.simps)
next
  case (Suc k)
  then show ?case using scan_names_one [of "[]" "replicate k (CHR 0x00)" s] by simp
qed

fun scan_all :: "string list \<Rightarrow> nat list \<times> 'h attachment \<Rightarrow> (nat list \<times> 'h attachment) option" where
  "scan_all [] s = Some s"
| "scan_all (name # names) s = do { s \<leftarrow> scan_name name s; scan_all names s }"

lemma scan_names_multi:
  "proper_names names \<Longrightarrow> scan_names (multi_string names @ replicate k (CHR 0x00)) s = scan_all names s"
proof (induction names arbitrary: s)
  case Nil
  then show ?case by (simp add: multi_string_def scan_names_end)
next
  case (Cons name names)
  then have "name \<noteq> []" "CHR 0x00 \<notin> set name" "proper_names names" by (auto simp: proper_names_def)
  then show ?case
    using Cons.IH scan_names_one [of name "multi_string names @ replicate k (CHR 0x00)" s]
    by (simp add: multi_string_def)
qed

lemma scan_name_step:
  assumes "in_step at HR HC evs rs ns" and "length matches = 16"
  shows "\<exists>matches' at' new. scan_name name (matches, at) = Some (matches', at') \<and> same_elsewhere at at' \<and>
    length matches' = 16 \<and> in_step at' HR HC (evs @ map reader_added new) (rs @ new) (add_name ns name) \<and>
    (\<forall>i < 16. matches ! i \<noteq> 0 \<longrightarrow> matches' ! i \<noteq> 0) \<and>
    (\<forall>i < length (add_name ns name). add_name ns name ! i = name \<longrightarrow> matches' ! i \<noteq> 0) \<and>
    (\<forall>r \<in> set rs. reader_at (at_memory at') r = reader_at (at_memory at) r)"
proof -
  have s: "slots_ok (at_context at) ns" using assms(1) by (simp add: in_step_def)
  then have ns: "length ns \<le> 15" "distinct ns" by (auto simp: slots_ok_def)
  note find = find_reader_correct [OF s, of name]
  consider "name \<in> set ns" | "name \<notin> set ns" "15 \<le> length ns" | "name \<notin> set ns" "length ns < 15" by linarith
  then show ?thesis
  proof cases
    case 1
    let ?i = "length (takeWhile (\<lambda>n. n \<noteq> name) ns)"
    have i: "?i < length ns" using 1 by (induction ns) auto
    have "j = ?i" if "j < length ns" "ns ! j = name" for j
      using nth_length_takeWhile [of "\<lambda>n. n \<noteq> name" ns] i that ns(2) by (auto simp: nth_eq_iff_index_eq)
    then show ?thesis
      using 1 find i ns assms
      by (intro exI [of _ "matches[?i := matches ! ?i + 1]"] exI [of _ at] exI [of _ "[]"])
        (auto simp: scan_name_def add_match_def add_name_def nth_list_update)
  next
    case 2
    then show ?thesis
      using find s assms
      by (intro exI [of _ matches] exI [of _ at] exI [of _ "[]"])
        (auto simp: scan_name_def new_reader_def add_name_def slots_ok_def Let_def)
  next
    case 3
    obtain at' r where at': "new_reader name at = Some (0, at')" "same_elsewhere at at'"
        "in_step at' HR HC (evs @ [(VEVENT_READER_INSERT, Some r, None)]) (rs @ [r]) (ns @ [name])"
        "\<forall>r \<in> set rs. reader_at (at_memory at') r = reader_at (at_memory at) r"
      using new_reader_step [OF assms(1) 3] by blast
    have "pc_reader_count (at_context at') = int (length ns) + 1"
      using at'(3) by (simp add: in_step_def slots_ok_def)
    then have "scan_name name (matches, at) = Some (matches[length ns := matches ! length ns + 1], at')"
      using 3 find at'(1) by (simp add: scan_name_def add_match_def)
    then show ?thesis
      using 3 at' assms(2)
      by (intro exI [of _ "matches[length ns := matches ! length ns + 1]"] exI [of _ at'] exI [of _ "[r]"])
        (auto simp: add_name_def reader_added_def nth_list_update nth_append)
  qed
qed

lemma set_add_name: "set ns \<subseteq> set (add_name ns name)" "set (add_name ns name) \<subseteq> insert name (set ns)"
  by (auto simp: add_name_def)

lemma add_name_prefix: "i < length ns \<Longrightarrow> i < length (add_name ns name) \<and> add_name ns name ! i = ns ! i"
  by (simp add: add_name_def nth_append)

lemma scan_all_step:
  assumes "in_step at HR HC evs rs ns" and "length matches = 16"
    and "\<forall>i < length ns. ns ! i \<in> set names \<or> matches ! i \<noteq> 0"
  shows "\<exists>matches' at' new. scan_all names (matches, at) = Some (matches', at') \<and> same_elsewhere at at' \<and>
    in_step at' HR HC (evs @ map reader_added new) (rs @ new) (foldl add_name ns names) \<and>
    (\<forall>i < length (foldl add_name ns names). matches' ! i \<noteq> 0) \<and>
    (\<forall>r \<in> set rs. reader_at (at_memory at') r = reader_at (at_memory at) r)"
  using assms
proof (induction names arbitrary: at evs rs ns matches)
  case Nil
  then show ?case by (intro exI [of _ matches] exI [of _ at] exI [of _ "[]"]) auto
next
  case (Cons name names)
  obtain matches1 at1 new1 where s1: "scan_name name (matches, at) = Some (matches1, at1)" "same_elsewhere at at1"
      "length matches1 = 16" "in_step at1 HR HC (evs @ map reader_added new1) (rs @ new1) (add_name ns name)"
      "\<forall>i < 16. matches ! i \<noteq> 0 \<longrightarrow> matches1 ! i \<noteq> 0"
      "\<forall>i < length (add_name ns name). add_name ns name ! i = name \<longrightarrow> matches1 ! i \<noteq> 0"
      "\<forall>r \<in> set rs. reader_at (at_memory at1) r = reader_at (at_memory at) r"
    using scan_name_step [OF Cons.prems(1,2)] by blast
  have "add_name ns name ! i \<in> set names \<or> matches1 ! i \<noteq> 0" if i: "i < length (add_name ns name)" for i
  proof (cases "i < length ns")
    case True
    have "i < 16" using True Cons.prems(1) by (simp add: in_step_def slots_ok_def)
    then show ?thesis using Cons.prems(3) True s1(5,6) i add_name_prefix [OF True, of name] by (metis set_ConsD)
  next
    case False
    then have "add_name ns name ! i = name" using i by (auto simp: add_name_def nth_append split: if_splits)
    then show ?thesis using s1(6) i by blast
  qed
  then obtain matches2 at2 new2 where s2: "scan_all names (matches1, at1) = Some (matches2, at2)" "same_elsewhere at1 at2"
      "in_step at2 HR HC ((evs @ map reader_added new1) @ map reader_added new2) ((rs @ new1) @ new2) (foldl add_name (add_name ns name) names)"
      "\<forall>i < length (foldl add_name (add_name ns name) names). matches2 ! i \<noteq> 0"
      "\<forall>r \<in> set (rs @ new1). reader_at (at_memory at2) r = reader_at (at_memory at1) r"
    using Cons.IH [OF s1(4,3)] by blast
  then show ?case
    using s1 by (intro exI [of _ matches2] exI [of _ at2] exI [of _ "new1 @ new2"]) (auto simp: same_elsewhere_def)
qed

lemma remove_none_gone: "\<forall>i < n. matches ! i \<noteq> 0 \<Longrightarrow> remove_gone matches n at = Some at"
  by (induction n) auto

lemma scan_step:
  assumes "in_step at HR HC evs rs ns" and "SCardListReaders pcsc (at_world at) = (rc, out, h)"
    and "rc = SCARD_S_SUCCESS \<and> out = multi_string names @ [CHR 0x00] \<or> rc = SCARD_E_NO_READERS_AVAILABLE \<and> names = []"
    and "proper_names names" and "set ns \<subseteq> set names"
  shows "\<exists>at' new. scan_for_readers pcsc at = Some (0, at') \<and> at_world at' = h \<and> pc_readers_changed (at_context at') \<noteq> 0 \<and>
    in_step at' HR HC (evs @ map reader_added new) (rs @ new) (foldl add_name ns names) \<and>
    (\<forall>r \<in> set rs. reader_at (at_memory at') r = reader_at (at_memory at) r)"
proof -
  let ?at = "at\<lparr>at_context := (at_context at)\<lparr>pc_readers_changed := 1\<rparr>, at_world := h\<rparr>"
    and ?matches = "replicate 16 0 :: nat list"
  have at: "in_step ?at HR HC evs rs ns" using assms(1) by (simp add: in_step_def slots_ok_def)
  have all: "\<forall>i < length ns. ns ! i \<in> set names \<or> ?matches ! i \<noteq> 0" using assms(5) by auto
  obtain matches' at' new where s: "scan_all names (?matches, ?at) = Some (matches', at')" "same_elsewhere ?at at'"
      "in_step at' HR HC (evs @ map reader_added new) (rs @ new) (foldl add_name ns names)"
      "\<forall>i < length (foldl add_name ns names). matches' ! i \<noteq> 0"
      "\<forall>r \<in> set rs. reader_at (at_memory at') r = reader_at (at_memory ?at) r"
    using scan_all_step [OF at _ all] by auto
  have "nat (pc_reader_count (at_context at')) = length (foldl add_name ns names)"
    using s(3) by (simp add: in_step_def slots_ok_def)
  then have "remove_gone matches' (nat (pc_reader_count (at_context at'))) at' = Some at'"
    using s(4) by (simp add: remove_none_gone)
  then have "scan_for_readers pcsc at = Some (0, at')"
    using assms(2-4) s(1) scan_names_multi [of names "Suc (8192 - length out)" "(?matches, ?at)"]
    by (auto simp: scan_for_readers_def Let_def)
  then show ?thesis using s by (auto simp: same_elsewhere_def)
qed


section \<open>Cards come and go\<close>

lemma connect_card_keeps:
  "connect_card pcsc s = (rc, s') \<Longrightarrow> r_name (se_reader s') = r_name (se_reader s) \<and>
   r_context (se_reader s') = r_context (se_reader s) \<and> r_index (se_reader s') = r_index (se_reader s)"
  by (auto simp: connect_card_def Let_def split: prod.splits if_splits)

lemma set_reader_simps [simp]:
  "at_memory (set_reader i r at) = at_memory at" "at_world (set_reader i r at) = at_world at"
  "set_reader i r' (set_reader i r at) = set_reader i r' at"
  "(set_reader i r at)\<lparr>at_memory := m\<rparr> = set_reader i r (at\<lparr>at_memory := m\<rparr>)"
  "(set_reader i r at)\<lparr>at_world := h\<rparr> = set_reader i r (at\<lparr>at_world := h\<rparr>)"
  "pc_readers_changed (at_context (set_reader i r at)) = pc_readers_changed (at_context at)"
  by (simp_all add: set_reader_def)

lemma in_step_set_reader:
  assumes "in_step at HR HC evs rs ns" and "i < length ns"
    and "r_name r = Some (ns ! i)" and "r_context r" and "r_index r = int i"
  shows "in_step (set_reader i r at) HR HC evs rs ns"
  using assms slots_ok_update [of "at_context at" ns i r] by (simp add: in_step_def set_reader_def)

text \<open>An update of the memory under which the readers keep their names and private pointers.\<close>

lemma in_step_memory:
  assumes "in_step at HR HC evs rs ns" and "system m HR' HC' {} {} evs' rs"
    and "\<And>r. r \<in> set rs \<Longrightarrow> map_option (\<lambda>v. (rd_name v, rd_private v)) (reader_at m r) =
      map_option (\<lambda>v. (rd_name v, rd_private v)) (reader_at (at_memory at) r)"
  shows "in_step (at\<lparr>at_memory := m\<rparr>) HR' HC' evs' rs ns"
  using assms registered_cong [of "at_memory at" rs ns m] by (simp add: in_step_def)

lemma in_step_world [simp]: "in_step (at\<lparr>at_world := h\<rparr>) HR HC evs rs ns = in_step at HR HC evs rs ns"
  by (simp add: in_step_def)

lemma slotD:
  assumes "in_step at HR HC evs rs ns" and "i < length ns"
  shows "r_name (pc_readers (at_context at) ! i) = Some (ns ! i)" "r_context (pc_readers (at_context at) ! i)"
    "r_index (pc_readers (at_context at) ! i) = int i" "i < CAPCSC_MAX_READERS" "rs ! i \<in> set rs"
    "system (at_memory at) HR HC {} {} evs rs" "registered (at_memory at) rs ns" "distinct ns"
  using assms by (auto simp: in_step_def slots_ok_def registered_def)

text \<open>Putting a card in the reader of element \<open>i\<close>, or taking it out, and giving the reader back.\<close>

lemma change_card_step:
  assumes "in_step at HR HC0 evs0 rs ns" and "i < length ns" and "system m1 (add_mset (rs ! i) HR) HC {} {} evs rs"
    and "reader_at m1 = reader_at (at_memory at)" and "set_option c \<subseteq> set_mset HC"
  shows "\<exists>m2 m3. vreader_insert_card (Some (rs ! i)) c m1 = Some (VREADER_OK, m2) \<and>
    free_vreader (Some (rs ! i)) (at\<lparr>at_memory := m2\<rparr>) = Some (at\<lparr>at_memory := m3\<rparr>) \<and>
    in_step (at\<lparr>at_memory := m3\<rparr>) HR HC
      (evs @ [(if c \<noteq> None then VEVENT_CARD_INSERT else VEVENT_CARD_REMOVE, Some (rs ! i), c)]) rs ns \<and>
    map_option rd_card (reader_at m3 (rs ! i)) = Some c"
proof -
  note s = slotD [OF assms(1,2)]
  let ?r = "rs ! i" and ?evs = "evs @ [(if c \<noteq> None then VEVENT_CARD_INSERT else VEVENT_CARD_REMOVE, Some (rs ! i), c)]"
  obtain m2 where m2: "vreader_insert_card (Some ?r) c m1 = Some (VREADER_OK, m2)"
      "reader_at m2 = (reader_at m1)(?r := map_option (\<lambda>v. v\<lparr>rd_card := c\<rparr>) (reader_at m1 ?r))"
      "system m2 (add_mset ?r HR) HC {} {} ?evs rs"
    using insert_card_ok [OF assms(3), of ?r c] assms(5) by auto
  obtain m3 where m3: "free_vreader (Some ?r) (at\<lparr>at_memory := m2\<rparr>) = Some (at\<lparr>at_memory := m3\<rparr>)"
      "system m3 HR HC {} {} ?evs rs" "\<forall>r \<in> set rs. reader_at m3 r = reader_at m2 r"
    using free_listed [of "at\<lparr>at_memory := m2\<rparr>" ?r HR HC "{}" "{}" ?evs rs] m2(3) s(5) by auto
  have "in_step (at\<lparr>at_memory := m3\<rparr>) HR HC ?evs rs ns"
    by (rule in_step_memory [OF assms(1) m3(2)]) (use assms(4) m2(2) m3(3) in \<open>auto simp: option.map_comp comp_def\<close>)
  moreover have "map_option rd_card (reader_at m3 ?r) = Some c"
    using assms(4) m2(2) m3(3) s(5,7) assms(2) by (auto simp: registered_def option.map_comp comp_def)
  ultimately show ?thesis using m2(1) m3(1) by blast
qed

lemma insert_card_step:
  assumes "in_step at HR HC evs rs ns" and "i < length ns"
    and "connect_card pcsc \<lparr>se_reader = (pc_readers (at_context at) ! i)\<lparr>r_atr := take MAX_ATR_SIZE rgbAtr, r_atrlen := cbAtr\<rparr>,
      se_world = at_world at\<rparr> = (rc, s)"
  shows "\<exists>at'. insert_card pcsc i (rgbAtr, cbAtr) at = Some at' \<and> at_world at' = se_world s \<and>
    pc_readers_changed (at_context at') = pc_readers_changed (at_context at) \<and>
    pc_readers (at_context at') ! i = se_reader s \<and>
    (if rc \<noteq> 0 then in_step at' (add_mset (rs ! i) HR) HC evs rs ns
     else \<exists>c. in_step at' HR (add_mset c HC) (evs @ [(VEVENT_CARD_INSERT, Some (rs ! i), Some c)]) rs ns \<and>
       map_option rd_card (reader_at (at_memory at') (rs ! i)) = Some (Some c))"
proof -
  note slot = slotD [OF assms(1,2)]
  note kept = connect_card_keeps [OF assms(3)]
  have len: "i < length (pc_readers (at_context at))" using assms(1) slot(4) by (simp add: in_step_def slots_ok_def)
  obtain m1 where m1: "vreader_get_reader_by_name (ns ! i) (at_memory at) = Some (Some (rs ! i), m1)"
      "reader_at m1 = reader_at (at_memory at)" "system m1 (add_mset (rs ! i) HR) HC {} {} evs rs"
    using lookup_registered [OF slot(6,7,8) assms(2)] by blast
  define at1 where "at1 = set_reader i (se_reader s) (at\<lparr>at_memory := m1, at_world := se_world s\<rparr>)"
  have set: "in_step (set_reader i (se_reader s) (at\<lparr>at_world := se_world s\<rparr>)) HR HC evs rs ns"
    using assms(1,2) kept slot(1-3) by (intro in_step_set_reader) simp_all
  have at1: "at1\<lparr>at_memory := m\<rparr> = (set_reader i (se_reader s) (at\<lparr>at_world := se_world s\<rparr>))\<lparr>at_memory := m\<rparr>" for m
    by (simp add: at1_def)
  have at1_simps: "at_memory at1 = m1" "at_world at1 = se_world s" "pc_readers (at_context at1) ! i = se_reader s"
      "pc_readers_changed (at_context at1) = pc_readers_changed (at_context at)"
    using len by (simp_all add: at1_def set_reader_def)
  have run: "insert_card pcsc i (rgbAtr, cbAtr) at =
      (if rc \<noteq> 0 then Some at1
       else do {
         let (c, m) = vcard_alloc i m1;
         (st, m) \<leftarrow> vreader_insert_card (Some (rs ! i)) (Some c) m;
         free_vreader (Some (rs ! i)) (at1\<lparr>at_memory := m\<rparr>)
       })"
    using m1(1) slot(1) assms(3) by (cases at) (simp add: insert_card_def at1_def Let_def set_reader_def)
  show ?thesis
  proof (cases "rc = 0")
    case False
    have "in_step (at1\<lparr>at_memory := m1\<rparr>) (add_mset (rs ! i) HR) HC evs rs ns"
      unfolding at1 by (rule in_step_memory [OF set m1(3)]) (simp add: m1(2))
    moreover have "at1\<lparr>at_memory := m1\<rparr> = at1" by (cases at) (simp add: at1_def)
    ultimately show ?thesis using False run at1_simps by (intro exI [of _ at1]) simp
  next
    case True
    obtain c m2 where m2: "vcard_alloc i m1 = (c, m2)" "vreaders m2 = vreaders m1"
        "system m2 (add_mset (rs ! i) HR) (add_mset c HC) {} {} evs rs"
      using new_card_ok [OF m1(3), of i] by (cases "vcard_alloc i m1") auto
    have "reader_at m2 = reader_at (at_memory (set_reader i (se_reader s) (at\<lparr>at_world := se_world s\<rparr>)))"
      using m2(2) m1(2) by (simp add: reader_at_def fun_eq_iff)
    from change_card_step [OF set assms(2) m2(3) this, of "Some c"]
    obtain m3 m4 where m3: "vreader_insert_card (Some (rs ! i)) (Some c) m2 = Some (VREADER_OK, m3)"
        "free_vreader (Some (rs ! i)) (at1\<lparr>at_memory := m3\<rparr>) = Some (at1\<lparr>at_memory := m4\<rparr>)"
        "in_step (at1\<lparr>at_memory := m4\<rparr>) HR (add_mset c HC) (evs @ [(VEVENT_CARD_INSERT, Some (rs ! i), Some c)]) rs ns"
        "map_option rd_card (reader_at m4 (rs ! i)) = Some (Some c)"
      unfolding at1 by auto
    then show ?thesis
      using True run m2(1) at1_simps by (intro exI [of _ "at1\<lparr>at_memory := m4\<rparr>"]) auto
  qed
qed

lemma remove_card_step:
  assumes "in_step at HR HC evs rs ns" and "i < length ns"
    and "SCardDisconnect pcsc (r_card (pc_readers (at_context at) ! i)) (at_world at) = (rc, h)"
  shows "\<exists>at'. remove_card pcsc i at = Some at' \<and> at_world at' = h \<and>
    pc_readers_changed (at_context at') = pc_readers_changed (at_context at) \<and>
    in_step at' HR HC (evs @ [(VEVENT_CARD_REMOVE, Some (rs ! i), None)]) rs ns \<and>
    map_option rd_card (reader_at (at_memory at') (rs ! i)) = Some None"
proof -
  note slot = slotD [OF assms(1,2)]
  let ?r = "(pc_readers (at_context at) ! i)\<lparr>r_atr := replicate MAX_ATR_SIZE 0, r_atrlen := 0, r_card_connected := False\<rparr>"
  obtain m1 where m1: "vreader_get_reader_by_name (ns ! i) (at_memory at) = Some (Some (rs ! i), m1)"
      "reader_at m1 = reader_at (at_memory at)" "system m1 (add_mset (rs ! i) HR) HC {} {} evs rs"
    using lookup_registered [OF slot(6,7,8) assms(2)] by blast
  define at1 where "at1 = set_reader i ?r (at\<lparr>at_world := h\<rparr>)"
  have set: "in_step at1 HR HC evs rs ns"
    unfolding at1_def using assms(1,2) slot(1-3) by (intro in_step_set_reader) simp_all
  have mem: "at_memory at1 = at_memory at" "at_world at1 = h"
      "pc_readers_changed (at_context at1) = pc_readers_changed (at_context at)"
    by (simp_all add: at1_def)
  have run: "remove_card pcsc i at = do {
      (st, m) \<leftarrow> vreader_insert_card (Some (rs ! i)) None m1;
      free_vreader (Some (rs ! i)) (at1\<lparr>at_memory := m\<rparr>)
    }"
    using m1(1) slot(1) assms(3) by (cases at) (simp add: remove_card_def at1_def Let_def set_reader_def)
  obtain m2 m3 where m2: "vreader_insert_card (Some (rs ! i)) None m1 = Some (VREADER_OK, m2)"
      "free_vreader (Some (rs ! i)) (at1\<lparr>at_memory := m2\<rparr>) = Some (at1\<lparr>at_memory := m3\<rparr>)"
      "in_step (at1\<lparr>at_memory := m3\<rparr>) HR HC (evs @ [(VEVENT_CARD_REMOVE, Some (rs ! i), None)]) rs ns"
      "map_option rd_card (reader_at m3 (rs ! i)) = Some None"
    using change_card_step [OF set assms(2) m1(3), of None] m1(2) mem(1) by auto
  then show ?thesis using run mem by (intro exI [of _ "at1\<lparr>at_memory := m3\<rparr>"]) simp
qed

section \<open>The thread\<close>

definition same_readers :: "'h attachment \<Rightarrow> nat list \<Rightarrow> string list \<Rightarrow> bool" where
  "same_readers at rs ns \<longleftrightarrow> (\<exists>HR HC evs. in_step at HR HC evs rs ns)"

definition world_after :: "('h \<Rightarrow> 'h \<Rightarrow> bool) \<Rightarrow> 'h pcsc \<Rightarrow> bool" where
  "world_after R pcsc \<longleftrightarrow> reflp R \<and> transp R \<and>
     (\<forall>name handle h. case SCardConnect pcsc name handle h of (rc, handle', protocol, h') \<Rightarrow> R h h') \<and>
     (\<forall>handle h. case SCardDisconnect pcsc handle h of (rc, h') \<Rightarrow> R h h')"

lemma connect_world:
  "world_after R pcsc \<Longrightarrow> connect_card pcsc s = (rc, s') \<Longrightarrow> R (se_world s) (se_world s')"
  by (auto simp: connect_card_def world_after_def Let_def split: prod.splits if_splits)

lemma disconnect_world:
  assumes "world_after R pcsc" and "SCardDisconnect pcsc c h = (rc, h')"
  shows "R h h'"
proof -
  have all: "\<forall>handle h. case SCardDisconnect pcsc handle h of (rc, h') \<Rightarrow> R h h'" using assms(1) by (simp add: world_after_def)
  show ?thesis using all [rule_format, of h c] assms(2) by simp
qed

lemma process_change_step:
  assumes "same_readers at rs ns" and "i < length ns" and "world_after R pcsc"
  shows "\<exists>at'. process_reader_change pcsc i ev at = Some at' \<and> same_readers at' rs ns \<and> R (at_world at) (at_world at')"
proof -
  obtain HR HC evs where at: "in_step at HR HC evs rs ns" using assms(1) by (auto simp: same_readers_def)
  obtain st rgbAtr cbAtr where ev: "ev = (st, rgbAtr, cbAtr)" by (metis prod_cases3)
  have refl: "R h h" for h using assms(3) by (simp add: world_after_def reflpD)
  have "\<exists>at1. (if st AND SCARD_STATE_PRESENT \<noteq> 0 then insert_card pcsc i (rgbAtr, cbAtr) at
      else if st AND SCARD_STATE_EMPTY \<noteq> 0 then remove_card pcsc i at else Some at) = Some at1 \<and>
      same_readers at1 rs ns \<and> R (at_world at) (at_world at1)"
  proof -
    obtain rc s where con: "connect_card pcsc \<lparr>se_reader = (pc_readers (at_context at) ! i)\<lparr>r_atr := take MAX_ATR_SIZE rgbAtr,
        r_atrlen := cbAtr\<rparr>, se_world = at_world at\<rparr> = (rc, s)" by fastforce
    obtain rc' h where dis: "SCardDisconnect pcsc (r_card (pc_readers (at_context at) ! i)) (at_world at) = (rc', h)" by fastforce
    have "R (at_world at) (se_world s)" using connect_world [OF assms(3) con] by simp
    moreover have "R (at_world at) h" using disconnect_world [OF assms(3) dis] .
    moreover obtain at1 where at1: "insert_card pcsc i (rgbAtr, cbAtr) at = Some at1" "at_world at1 = se_world s"
        "\<exists>HR HC evs. in_step at1 HR HC evs rs ns"
      using insert_card_step [OF at assms(2) con] by (auto split: if_splits)
    moreover obtain at2 where "remove_card pcsc i at = Some at2" "at_world at2 = h" "\<exists>HR HC evs. in_step at2 HR HC evs rs ns"
      using remove_card_step [OF at assms(2) dis] by blast
    ultimately show ?thesis using assms(1) refl by (simp add: same_readers_def)
  qed
  then obtain at1 where at1: "(if st AND SCARD_STATE_PRESENT \<noteq> 0 then insert_card pcsc i (rgbAtr, cbAtr) at
      else if st AND SCARD_STATE_EMPTY \<noteq> 0 then remove_card pcsc i at else Some at) = Some at1"
      "same_readers at1 rs ns" "R (at_world at) (at_world at1)" by blast
  let ?r = "(pc_readers (at_context at1) ! i)\<lparr>r_state := st AND NOT SCARD_STATE_CHANGED\<rparr>"
  obtain HR' HC' evs' where in1: "in_step at1 HR' HC' evs' rs ns" using at1(2) by (auto simp: same_readers_def)
  have "in_step (set_reader i ?r at1) HR' HC' evs' rs ns"
    using slotD [OF in1 assms(2)] by (intro in_step_set_reader [OF in1 assms(2)]) simp_all
  moreover have "process_reader_change pcsc i ev at = Some (set_reader i ?r at1)"
    using at1(1) slotD(4) [OF at assms(2)] ev by (simp add: process_reader_change_def)
  ultimately show ?thesis using at1(3) by (auto simp: same_readers_def)
qed

lemma process_changes_step:
  assumes "same_readers at rs ns" and "i + length evs \<le> length ns \<or> (\<forall>ev \<in> set (drop (length ns - i) evs). fst ev AND SCARD_STATE_CHANGED = 0)"
    and "world_after R pcsc"
  shows "\<exists>at'. process_changes pcsc i evs at = Some at' \<and> same_readers at' rs ns \<and> R (at_world at) (at_world at')"
  using assms(1,2)
proof (induction evs arbitrary: i at)
  case Nil
  then show ?case using assms(3) by (simp add: world_after_def reflpD)
next
  case (Cons ev evs)
  have later: "Suc i + length evs \<le> length ns \<or> (\<forall>ev \<in> set (drop (length ns - Suc i) evs). fst ev AND SCARD_STATE_CHANGED = 0)"
  proof (cases "length ns - i")
    case 0
    then show ?thesis using Cons.prems(2) by auto
  next
    case (Suc k)
    then have "length ns - Suc i = k" by simp
    then show ?thesis using Cons.prems(2) Suc by auto
  qed
  show ?case
  proof (cases "fst ev AND SCARD_STATE_CHANGED = 0")
    case True
    then show ?thesis using Cons.IH [OF Cons.prems(1) later] by simp
  next
    case False
    then have "i < length ns" using Cons.prems(2) by (cases "length ns - i") auto
    then obtain at1 where at1: "process_reader_change pcsc i ev at = Some at1" "same_readers at1 rs ns"
        "R (at_world at) (at_world at1)"
      using process_change_step [OF Cons.prems(1) _ assms(3)] by blast
    let ?at = "at1\<lparr>at_context := (at_context at1)\<lparr>pc_readers_changed := pc_readers_changed (at_context at1) + 1\<rparr>\<rparr>"
    have "same_readers ?at rs ns" using at1(2) by (simp add: same_readers_def in_step_def slots_ok_def)
    from Cons.IH [OF this later] obtain at2 where "process_changes pcsc (Suc i) evs ?at = Some at2" "same_readers at2 rs ns"
        "R (at_world at1) (at_world at2)" by auto
    moreover have "transp R" using assms(3) by (simp add: world_after_def)
    ultimately show ?thesis using False at1 by (auto dest: transpD)
  qed
qed

text \<open>A resource manager that works as documented, while no reader is unplugged: \<open>N h\<close> are the names of the
  readers in the state \<open>h\<close>.\<close>

definition manager_ok :: "'h pcsc \<Rightarrow> ('h \<Rightarrow> string list) \<Rightarrow> bool" where
  "manager_ok pcsc N \<longleftrightarrow> world_after (\<lambda>h h'. set (N h) \<subseteq> set (N h')) pcsc \<and>
     (\<forall>h. proper_names (N h) \<and> distinct (N h) \<and> length (multi_string (N h)) < 8192) \<and>
     (\<forall>h. case SCardListReaders pcsc h of (rc, out, h') \<Rightarrow> set (N h) \<subseteq> set (N h') \<and>
        (rc = SCARD_S_SUCCESS \<and> out = multi_string (N h) @ [CHR 0x00] \<or> rc = SCARD_E_NO_READERS_AVAILABLE \<and> N h = [])) \<and>
     (\<forall>states h. case SCardGetStatusChange pcsc states h of (rc, evs, h') \<Rightarrow> set (N h) \<subseteq> set (N h') \<and>
        length evs = length states \<and> (rc = SCARD_E_TIMEOUT \<longrightarrow> (\<forall>ev \<in> set evs. fst ev AND SCARD_STATE_CHANGED = 0)))"

lemma manager_lists:
  assumes "manager_ok pcsc N" and "SCardListReaders pcsc h = (rc, out, h')"
  shows "set (N h) \<subseteq> set (N h')"
    and "rc = SCARD_S_SUCCESS \<and> out = multi_string (N h) @ [CHR 0x00] \<or> rc = SCARD_E_NO_READERS_AVAILABLE \<and> N h = []"
    and "proper_names (N h)" and "distinct (N h)"
proof -
  have "\<forall>h. case SCardListReaders pcsc h of (rc, out, h') \<Rightarrow> set (N h) \<subseteq> set (N h') \<and>
      (rc = SCARD_S_SUCCESS \<and> out = multi_string (N h) @ [CHR 0x00] \<or> rc = SCARD_E_NO_READERS_AVAILABLE \<and> N h = [])"
    and all: "\<forall>h. proper_names (N h) \<and> distinct (N h) \<and> length (multi_string (N h)) < 8192"
    using assms(1) by (simp_all add: manager_ok_def)
  from this(1) [rule_format, of h] assms(2)
  show "set (N h) \<subseteq> set (N h')"
    and "rc = SCARD_S_SUCCESS \<and> out = multi_string (N h) @ [CHR 0x00] \<or> rc = SCARD_E_NO_READERS_AVAILABLE \<and> N h = []" by simp_all
  show "proper_names (N h)" "distinct (N h)" using all by simp_all
qed

lemma manager_changes:
  assumes "manager_ok pcsc N" and "SCardGetStatusChange pcsc states h = (rc, evs, h')"
  shows "set (N h) \<subseteq> set (N h')" and "length evs = length states"
    and "rc = SCARD_E_TIMEOUT \<Longrightarrow> ev \<in> set evs \<Longrightarrow> fst ev AND SCARD_STATE_CHANGED = 0"
proof -
  have "\<forall>states h. case SCardGetStatusChange pcsc states h of (rc, evs, h') \<Rightarrow> set (N h) \<subseteq> set (N h') \<and>
      length evs = length states \<and> (rc = SCARD_E_TIMEOUT \<longrightarrow> (\<forall>ev \<in> set evs. fst ev AND SCARD_STATE_CHANGED = 0))"
    using assms(1) by (simp add: manager_ok_def)
  from this [rule_format, of h states] assms(2)
  show "set (N h) \<subseteq> set (N h')" and "length evs = length states"
    and "rc = SCARD_E_TIMEOUT \<Longrightarrow> ev \<in> set evs \<Longrightarrow> fst ev AND SCARD_STATE_CHANGED = 0" by simp_all
qed

lemma foldl_add_name: "distinct names \<Longrightarrow> length ns \<le> 15 \<Longrightarrow>
  foldl add_name ns names = take 15 (ns @ filter (\<lambda>name. name \<notin> set ns) names)"
proof (induction names arbitrary: ns)
  case (Cons name names)
  have "filter (\<lambda>n. n \<notin> set (ns @ [name])) names = filter (\<lambda>n. n \<notin> set ns) names" "name \<notin> set names"
    using Cons.prems(1) by (auto intro!: filter_cong)
  moreover have "15 - length ns = Suc (14 - length ns)" if "length ns \<noteq> 15" using that Cons.prems(2) by simp
  ultimately show ?case using Cons by (auto simp: add_name_def)
qed simp

lemma foldl_add_name_set: "set (foldl add_name ns names) \<subseteq> set ns \<union> set names"
proof (induction names arbitrary: ns)
  case (Cons name names)
  have "set (add_name ns name) \<subseteq> insert name (set ns)" by (auto simp: add_name_def)
  then show ?case using Cons [of "add_name ns name"] by fastforce
qed simp

lemma foldl_add_name_grows: "set ns \<subseteq> set (foldl add_name ns names)"
proof (induction names arbitrary: ns)
  case (Cons name names)
  have "set ns \<subseteq> set (add_name ns name)" by (auto simp: add_name_def)
  then show ?case using Cons [of "add_name ns name"] by fastforce
qed simp

text \<open>The names \<open>K\<close> are in the array, and all its names are names of PC/SC.\<close>

definition thread_ok ::
  "string set \<Rightarrow> ('h \<Rightarrow> string list) \<Rightarrow> (string option \<times> DWORD) list \<times> 'h attachment \<Rightarrow> bool" where
  "thread_ok K N = (\<lambda>(states, at). \<exists>rs ns. same_readers at rs ns \<and> K \<subseteq> set ns \<and> set ns \<subseteq> set (N (at_world at)) \<and>
     (pc_readers_changed (at_context at) = 0 \<longrightarrow> length states = length ns + 1))"

lemma scan_keeps_ok:
  assumes "manager_ok pcsc N" and "in_step at HR HC evs rs ns" and "set ns \<subseteq> set (N (at_world at))"
    and "K \<subseteq> set (foldl add_name ns (N (at_world at)))"
  shows "\<exists>at'. scan_for_readers pcsc at = Some (0, at') \<and> thread_ok K N (states, at')"
proof -
  obtain rc out h where l: "SCardListReaders pcsc (at_world at) = (rc, out, h)" by (metis prod_cases3)
  note m = manager_lists [OF assms(1) l]
  obtain at' new where s: "scan_for_readers pcsc at = Some (0, at')" "at_world at' = h" "pc_readers_changed (at_context at') \<noteq> 0"
      "in_step at' HR HC (evs @ map reader_added new) (rs @ new) (foldl add_name ns (N (at_world at)))"
    using scan_step [OF assms(2) l m(2,3) assms(3)] by blast
  have "set (foldl add_name ns (N (at_world at))) \<subseteq> set (N h)"
    using foldl_add_name_set [of ns "N (at_world at)"] assms(3) m(1) by blast
  moreover have "same_readers at' (rs @ new) (foldl add_name ns (N (at_world at)))" using s(4) unfolding same_readers_def by blast
  ultimately have "thread_ok K N (states, at')" using s(2,3) assms(4) unfolding thread_ok_def by auto
  then show ?thesis using s(1) by blast
qed

lemma prepare_states_length: "slots_ok pc ns \<Longrightarrow> length (prepare_reader_states pc) = length ns + 1"
  by (simp add: prepare_reader_states_def slots_ok_def)

lemma turn_ok:
  assumes "manager_ok pcsc N" and "thread_ok K N (states, at)"
  shows "\<exists>s'. thread_turn pcsc (states, at) = Some s' \<and> thread_ok K N s'"
proof -
  obtain rs ns where rd: "same_readers at rs ns" "K \<subseteq> set ns" "set ns \<subseteq> set (N (at_world at))"
      "pc_readers_changed (at_context at) = 0 \<Longrightarrow> length states = length ns + 1"
    using assms(2) by (auto simp: thread_ok_def)
  define states' where "states' = (if pc_readers_changed (at_context at) \<noteq> 0 then prepare_reader_states (at_context at) else states)"
  have len: "length states' = length ns + 1"
    using rd prepare_states_length by (auto simp: states'_def same_readers_def in_step_def)
  obtain rc evs h where ev: "SCardGetStatusChange pcsc states' (at_world at) = (rc, evs, h)" by (metis prod_cases3)
  note m = manager_changes [OF assms(1) ev]
  let ?at = "at\<lparr>at_context := (at_context at)\<lparr>pc_readers_changed := 0\<rparr>, at_world := h\<rparr>"
  have at: "same_readers ?at rs ns" "set ns \<subseteq> set (N (at_world ?at))"
    using rd(1,3) m(1) by (auto simp: same_readers_def in_step_def slots_ok_def)
  let ?scan = "rc = SCARD_S_SUCCESS \<and> fst (evs ! length ns) AND SCARD_STATE_CHANGED \<noteq> 0 \<or> rc = SCARD_E_UNKNOWN_READER"
  have run: "thread_turn pcsc (states, at) =
      (if ?scan then do { (rc, at) \<leftarrow> scan_for_readers pcsc ?at; Some (states', at) }
       else if rc \<noteq> SCARD_S_SUCCESS \<and> rc \<noteq> SCARD_E_TIMEOUT then Some (states', ?at)
       else do { at \<leftarrow> process_changes pcsc 0 evs ?at; Some (states', at) })"
    using ev len m(2) by (auto simp: thread_turn_def Let_def states'_def)
  consider (scan) ?scan | (other) "\<not> ?scan" "rc \<noteq> SCARD_S_SUCCESS \<and> rc \<noteq> SCARD_E_TIMEOUT"
    | (changes) "\<not> ?scan" "rc = SCARD_S_SUCCESS \<or> rc = SCARD_E_TIMEOUT" by blast
  then show ?thesis
  proof cases
    case scan
    obtain HR HC es where "in_step ?at HR HC es rs ns" using at(1) by (auto simp: same_readers_def)
    moreover have "K \<subseteq> set (foldl add_name ns (N (at_world ?at)))" using rd(2) foldl_add_name_grows by blast
    ultimately show ?thesis using scan_keeps_ok [OF assms(1) _ at(2), of HR HC es rs K states'] run scan by auto
  next
    case other
    then show ?thesis using run at len rd(2) by (auto simp: thread_ok_def)
  next
    case changes
    have "\<forall>ev \<in> set (drop (length ns) evs). fst ev AND SCARD_STATE_CHANGED = 0"
    proof -
      have "drop (length ns) evs = [evs ! length ns]"
        using m(2) len by (simp add: Cons_nth_drop_Suc [symmetric])
      moreover have "evs ! length ns \<in> set evs" using m(2) len by simp
      ultimately show ?thesis using changes m(3) [of "evs ! length ns"] by auto
    qed
    moreover have "world_after (\<lambda>h h'. set (N h) \<subseteq> set (N h')) pcsc" using assms(1) by (simp add: manager_ok_def)
    ultimately obtain at' where "process_changes pcsc 0 evs ?at = Some at'" "same_readers at' rs ns"
        "set (N (at_world ?at)) \<subseteq> set (N (at_world at'))"
      using process_changes_step [OF at(1), of 0 evs "\<lambda>h h'. set (N h) \<subseteq> set (N h')" pcsc] by auto
    moreover have "thread_turn pcsc (states, at) = do { at \<leftarrow> process_changes pcsc 0 evs ?at; Some (states', at) }"
      using run changes by auto
    ultimately show ?thesis using at(2) len rd(2) by (auto simp: thread_ok_def)
  qed
qed

lemma turns_ok:
  "manager_ok pcsc N \<Longrightarrow> thread_ok K N s \<Longrightarrow> \<exists>s'. thread_turns pcsc n s = Some s' \<and> thread_ok K N s'"
proof (induction n arbitrary: s)
  case (Suc n)
  obtain s1 where "thread_turn pcsc s = Some s1" "thread_ok K N s1"
    using turn_ok [OF Suc.prems(1)] Suc.prems(2) by (cases s) blast
  then show ?case using Suc.IH [OF Suc.prems(1)] by simp
qed simp
section \<open>Properties\<close>


lemma demo_manager: "manager_ok demo_pcsc (\<lambda>h. [''A'', ''B''])"
  by (simp add: manager_ok_def world_after_def reflp_def transp_def demo_pcsc_def demo_names_def proper_names_def multi_string_def)

definition demo_attachment :: "nat attachment" where
  "demo_attachment = \<lparr>at_context = \<lparr>pc_readers = [], pc_reader_count = 0, pc_readers_changed = 0\<rparr>,
     at_memory = vevent_queue_init (vreader_init empty_memory), at_world = 0\<rparr>"

lemma demo_system: "system (at_memory demo_attachment) {#} {#} {} {} [] []"
  by (simp add: demo_attachment_def start_system)

lemma demo_init: "in_step (snd (init_pcsc demo_pcsc demo_attachment)) {#} {#} [] [] []"
  by (simp add: demo_pcsc_def demo_attachment_def init_pcsc_def in_step_def slots_ok_def registered_def start_system)






lemma all_less_three: "(\<forall>i < Suc (Suc (Suc 0)). P i) \<longleftrightarrow> P 0 \<and> P 1 \<and> P 2"
  by (auto simp: less_Suc_eq numeral_2_eq_2)

text \<open>C19: once readers are unplugged the array and the library part: when of three readers the first is freed, the
  elements of the other two move down, but the private pointers of their readers and the indices in
  the elements stay. When next the second is freed, its private pointer leads to the element of
  the third, and \<open>delete_reader\<close> drops that one: the unplugged second reader stays in the array for
  good, and the third, which is still there, is no longer found.\<close>

theorem unplugging_two_readers:
  assumes "slots_ok pc [a, b, c]"
  shows "\<exists>pc1 pc2. delete_reader_cb (Some (reader_private 0)) pc = Some pc1 \<and>
    find_reader pc1 a = Some None \<and> find_reader pc1 b = Some (Some 0) \<and> find_reader pc1 c = Some (Some 1) \<and>
    delete_reader_cb (Some (reader_private 1)) pc1 = Some pc2 \<and> pc_reader_count pc2 = 1 \<and>
    find_reader pc2 b = Some (Some 0) \<and> find_reader pc2 c = Some None"
proof -
  have len: "length (pc_readers pc) = 16" using assms by (simp add: slots_ok_def)
  obtain r0 xs where r0: "pc_readers pc = r0 # xs" "length xs = 15" using len by (cases "pc_readers pc") auto
  obtain r1 ys where r1: "xs = r1 # ys" "length ys = 14" using r0(2) by (cases xs) auto
  obtain r2 rs where r2: "ys = r2 # rs" using r1(2) by (cases ys) auto
  note rs = r0(1) [unfolded r1(1) r2]
  have r: "r_name r0 = Some a" "r_context r0" "r_index r0 = 0" "r_name r1 = Some b" "r_context r1" "r_index r1 = 1"
      "r_name r2 = Some c" "r_context r2" "r_index r2 = 2" "a \<noteq> b" "a \<noteq> c" "b \<noteq> c" "pc_reader_count pc = 3"
    using assms by (simp_all add: slots_ok_def rs all_less_three)
  let ?pc1 = "pc\<lparr>pc_readers := r1 # r2 # r2 # rs, pc_reader_count := 2\<rparr>"
  let ?pc2 = "pc\<lparr>pc_readers := r1 # r2 # r2\<lparr>r_name := None\<rparr> # rs, pc_reader_count := 1\<rparr>"
  have "delete_reader_cb (Some (reader_private 0)) pc = Some ?pc1"
    using r by (simp add: delete_reader_cb_def delete_reader_def reader_private_def vreader_emul_new_def rs Let_def)
  moreover have "delete_reader_cb (Some (reader_private 1)) ?pc1 = Some ?pc2"
    using r by (simp add: delete_reader_cb_def delete_reader_def reader_private_def vreader_emul_new_def Let_def)
  ultimately show ?thesis using r by (intro exI [of _ ?pc1] exI [of _ ?pc2]) (simp add: find_reader_def)
qed

lemma unplugging_two_readers_witness:
  "\<exists>pc1 pc2. delete_reader_cb (Some (reader_private 1)) pc1 = Some pc2 \<and> find_reader pc2 ''B'' = Some (Some 0) \<and>
    find_reader pc2 ''C'' = Some None"
proof -
  let ?r = "\<lambda>i name. null_reader\<lparr>r_index := i, r_context := True, r_name := Some name\<rparr>"
  let ?pc = "\<lparr>pc_readers = [?r 0 ''A'', ?r 1 ''B'', ?r 2 ''C''] @ replicate 13 null_reader, pc_reader_count = 3, pc_readers_changed = 0\<rparr>"
  have "slots_ok ?pc [''A'', ''B'', ''C'']" by (simp add: slots_ok_def all_less_three)
  from unplugging_two_readers [OF this] show ?thesis by blast
qed

end
