(* ===== verification/Spec2Isabelle.thy ===== *)
theory Spec2Isabelle
  imports Guest_Files Vsc_Program Pcsc_Readers
begin

text \<open>
  A verification development for libcacard, the library that emulates a Common Access Card (CAC) for
  a virtual machine, and for its command line client. Sources are under \<open>src/src/\<close>.

  \<^bold>\<open>The program.\<close> The guest sends command APDUs to a virtual reader (\<open>vreader.c\<close>), which passes them to
  the card in it (\<open>vcard.c\<close>). \<open>card_7816.c\<close> decodes an APDU, offers it to the applet selected on its
  channel through the function pointer \<open>process_apdu\<close>, and handles what the applet leaves: SELECT,
  VERIFY, GET RESPONSE. The applets are those of a CAC card (\<open>cac.c\<close>, with the tables of \<open>cac-aca.c\<close>),
  the Global Platform container (\<open>gp.c\<close>) and the Microsoft one (\<open>msft.c\<close>). Their files and properties
  are encoded in SimpleTLV (\<open>simpletlv.c\<close>). Keys, login and data objects are those of an NSS token.
  \<open>vcard_emul_nss.c\<close> parses the options, makes a reader for each token and each software card, and has a
  thread that follows the tokens; readers are shared objects with reference counts, kept in a list, and
  what happens to them is queued as events (\<open>event.c\<close>). \<open>capcsc.c\<close> does the same for the readers and cards of
  PC/SC, and passes the commands of the guest through to them. The client \<open>vscclient.c\<close> connects a host to the
  library: messages from the socket, a thread that turns events into messages, commands that are typed.

  \<^bold>\<open>The theories\<close> of the card, each before those that import it:
  \<^item> \<open>Card_Prelude\<close>: bytes and status words, the faults a C function can end in, generic lemmas.
  \<^item> \<open>Common_Bytes\<close>: \<open>common.c\<close>, little-endian conversions and the hex printer.
  \<^item> \<open>Simple_TLV\<close>: \<open>simpletlv.c\<close>; encoder against images, parser, round trips, clone, merge.
  \<^item> \<open>Apdu\<close>: the decoder \<open>vcard_apdu_new\<close> against the table of ISO 7816-4 command cases, written as the
    encoder \<open>build_apdu\<close>.
  \<^item> \<open>Response\<close>: response APDUs and the buffer of a response fetched in pieces.
  \<^item> \<open>VCard\<close>: the card: applets, selection, the buffered response; its invariant \<open>card_wf\<close>.
  \<^item> \<open>Emul_NSS\<close>: RSA, login and data objects on the parameter \<open>nss\<close>, a record of the NSS functions the
    code calls, with the documented behaviour the code relies on in \<open>nss_ok\<close>.
  \<^item> \<open>Card_7816\<close>: \<open>vcard_process_apdu\<close> and the commands of a VM card. What it needs of the applets is the
    locale \<open>applet_interface\<close>: every handler answers or passes, without a fault, and keeps \<open>card_wf\<close>.
  \<^item> \<open>Cac_Aca\<close>, \<open>Cac_Applets\<close>, \<open>Gp_Msft\<close>: the applets, each with the lemma that it keeps the contract.
  \<^item> \<open>Cac_Init\<close>: the constructors, \<open>cac_card_init\<close>, \<open>vcard_init\<close>, \<open>vcard_emul_make_card\<close>.
  \<^item> \<open>Card_System\<close>: the dispatch of the function pointers, the interpretation \<open>applets\<close> of the locale,
    the reader, and \<open>reachable\<close>, what a guest can bring about.
  \<^item> \<open>Guest_Protocol\<close>, \<open>Guest_Files\<close>: properties of whole sessions: no crash, SELECT, GET RESPONSE,
    reset, reading back a certificate, signing in pieces.

  The theories of the library around the card, on a memory of objects:
  \<^item> \<open>Reader_Store\<close>: readers, cards, events and list entries behind pointers, with their reference counts;
    the invariant \<open>counted\<close> says that every count is the number of references there are.
  \<^item> \<open>Event_Queue\<close>, \<open>Reader_List\<close>: the linked queue and the doubly linked list, refining lists.
  \<^item> \<open>Reader_System\<close>: their composition \<open>system\<close>, with no call that follows a dangling pointer or loses an object.
  \<^item> \<open>Emul_Options\<close>: the option parser; \<open>Emul_Mirror\<close>: collecting and sorting the certificates of a token.
  \<^item> \<open>Emul_Readers\<close>: the thread that follows tokens, refining \<open>seen_events\<close>, which only knows what each reader
    looks like; \<open>Emul_Force\<close>: cards removed and inserted by force, and replayed events;
    \<open>Emul_Init\<close>: \<open>vcard_emul_init\<close>, against the list \<open>init_seen\<close> of the readers there should be.

  The theories of the passthrough:
  \<^item> \<open>Pcsc_Card\<close>: commands and resets of a card that is a real one, against the real card itself. PC/SC is the parameter
    \<open>pcsc\<close>, a record of its functions on a state of its own.
  \<^item> \<open>Pcsc_Readers\<close>: the array of readers and the thread that follows them, kept \<open>in_step\<close> with the library as long as
    no reader is unplugged (\<open>manager_ok\<close>), and what unplugging leads to.

  The theories of the client:
  \<^item> \<open>Vsc_Socket\<close>: messages to and from the host (\<open>send_msg\<close>, \<open>do_socket_read\<close> with its static variables),
    independence of how the bytes arrive, and sessions of APDUs against the card itself.
  \<^item> \<open>Vsc_Library\<close>: \<open>library_ok\<close>, what the client needs of the library, kept by every call the client makes.
  \<^item> \<open>Vsc_Events\<close>: \<open>event_thread\<close> as steps between the points where it takes or waits for a lock, and how a new
    reader is announced.
  \<^item> \<open>Vsc_Commands\<close>: \<open>main\<close> up to its loop, the command line, \<open>do_command\<close>.
  \<^item> \<open>Vsc_Program\<close>: all of these as one state machine, \<open>program_step\<close>, and its safety.

  \<^bold>\<open>Reading the model.\<close> A function of C on a structure is a function on a record that returns it
  updated; a pointer into an array is an offset, an applet is the index of its structure in
  \<open>applet_store\<close>; a null pointer is \<open>None\<close>. In the theories of the card, a failed assertion, a null
  dereference, an access out of bounds and a misread union are values of \<open>fault\<close>, returned with \<open>Inl\<close>, so
  that a theorem with \<open>Inr\<close> says that they do not happen. In the theories of the library and the client,
  readers, cards, events and list entries are shared, so that they live in maps from addresses, from which an
  object is removed when its count drops to zero; a fault, a use of a freed object included, is \<open>None\<close>
  of the result. Memory allocation does not fail (GLib aborts). \<open>int\<close> lengths are natural numbers, which is
  right below 2 GiB: an APDU has at most 65544 bytes, and only the signing buffer of a PKI applet could grow
  beyond it. There is no fuel: the loops that follow pointers are \<open>partial_function\<close>s, for which termination is
  proved from the invariant, and every other loop is a total function.

  \<^bold>\<open>Not modelled,\<close> and why: NSS, SHA-256 and PC/SC are libraries, and parameters here; of PC/SC the
  constants have the values of the standard. How long \<open>capcsc.c\<close> waits and when it frees names is left out. Locks are left out: each step of the client is one that the locks of the program
  make atomic, or that touches what one thread owns. Of \<open>vscclient.c\<close>, connecting to the host, the
  format of printed text and the comparison with a real card (\<open>-p\<close>) are left out; numbers in structures have
  the byte order of a little-endian machine. Debug output, tests and fuzzers are not modelled.
  \<open>gp.c\<close> and \<open>cac.c\<close> keep static arrays between cards; the model is of one card.
\<close>

end
